(* ===== verification/Prelude.thy ===== *)
theory Prelude
  imports Main "HOL-Library.Word" "HOL-Library.Monad_Syntax"
begin

text \<open>
  What the component theories share: the error numbers of \<^verbatim>\<open>include/mstring/errno.h\<close>,
  the named collections of simplification rules, and generic facts on lists, options and
  the \<open>option\<close> monad in which a machine fault (a page fault on a milestone pointer, a failed
  \<^verbatim>\<open>ASSERT\<close>, a \<^verbatim>\<open>panic\<close>, a read or write outside of an array) is the value \<open>None\<close>.
\<close>

section \<open>Collections of rules\<close>

named_theorems heap_simps \<open>reads and writes of fields of a modelled heap\<close>
named_theorems seg_simps \<open>linked segments under a write of one field\<close>
named_theorems step_defs \<open>definitions of the operations of a component\<close>

section \<open>Error numbers\<close>

datatype errno =
    EPERM | ENOENT | ESRCH | EINTR | E2BIG | EAGAIN | ENOMEM | EACCES | EFAULT | EBUSY
  | EEXIST | EINVAL | ENOTTY | ENOSPC | ENOSYS | EWOULDBLOCK | EDEADLOCK | ETIMEDOUT

fun errno_val :: "errno \<Rightarrow> int" where
  "errno_val EPERM = 1"
| "errno_val ENOENT = 2"
| "errno_val ESRCH = 3"
| "errno_val EINTR = 4"
| "errno_val E2BIG = 7"
| "errno_val EAGAIN = 11"
| "errno_val ENOMEM = 12"
| "errno_val EACCES = 13"
| "errno_val EFAULT = 14"
| "errno_val EBUSY = 16"
| "errno_val EEXIST = 17"
| "errno_val EINVAL = 22"
| "errno_val ENOTTY = 25"
| "errno_val ENOSPC = 28"
| "errno_val ENOSYS = 35"
| "errno_val EWOULDBLOCK = 36"
| "errno_val EDEADLOCK = 37"
| "errno_val ETIMEDOUT = 110"

abbreviation ERR :: "errno \<Rightarrow> int" where
  "ERR e \<equiv> - errno_val e"

lemma errno_val_pos: "0 < errno_val e"
  by (cases e) auto

lemma ERR_neg [simp]: "ERR e < 0" "ERR e \<noteq> 0"
  using errno_val_pos [of e] by auto

section \<open>The option monad\<close>

lemma bind_eq_Some_conv: "Option.bind x f = Some z \<longleftrightarrow> (\<exists>y. x = Some y \<and> f y = Some z)"
  by (cases x) auto

lemma bind_eq_None_conv: "Option.bind x f = None \<longleftrightarrow> x = None \<or> (\<exists>y. x = Some y \<and> f y = None)"
  by (cases x) auto

section \<open>Lists\<close>

lemma takeWhile_append_stop: "(\<forall>x \<in> set xs. P x) \<Longrightarrow> \<not> P y \<Longrightarrow> takeWhile P (xs @ y # ys) = xs"
  by (induction xs) auto

lemma dropWhile_append_stop: "(\<forall>x \<in> set xs. P x) \<Longrightarrow> \<not> P y \<Longrightarrow> dropWhile P (xs @ y # ys) = y # ys"
  by (induction xs) auto

lemma last_ConsE: "xs \<noteq> [] \<Longrightarrow> \<exists>ys. xs = ys @ [last xs]"
  by (metis append_butlast_last_id)

end
