(* ===== verification/DList.thy ===== *)
theory DList
  imports Prelude
begin

text \<open>
  The kernel's intrusive circular doubly linked list (\<^verbatim>\<open>include/ds/list.h\<close>) at the level
  of its pointers. A heap of list nodes is two fields over the addresses of one object
  family; a pointer is a valid address or one of the two milestones that
  \<^verbatim>\<open>list_del_range\<close> leaves behind, and following a milestone is a fault. The predicate
  \<open>clist\<close> says that a head and a sequence of nodes form a list; every operation of the
  header is shown to be the corresponding operation on the sequence.
\<close>

section \<open>Pointers and the heap of list nodes\<close>

datatype 'a ptr = Ref 'a | MLST_LIST_NEXT | MLST_LIST_PREV

record 'a lheap =
  nxt :: "'a \<Rightarrow> 'a ptr"
  prv :: "'a \<Rightarrow> 'a ptr"

fun get_next :: "'a ptr \<Rightarrow> 'a lheap \<Rightarrow> 'a ptr option" where
  "get_next (Ref a) h = Some (nxt h a)"
| "get_next _ h = None"

fun get_prev :: "'a ptr \<Rightarrow> 'a lheap \<Rightarrow> 'a ptr option" where
  "get_prev (Ref a) h = Some (prv h a)"
| "get_prev _ h = None"

fun set_next :: "'a ptr \<Rightarrow> 'a ptr \<Rightarrow> 'a lheap \<Rightarrow> 'a lheap option" where
  "set_next (Ref a) v h = Some (h\<lparr>nxt := (nxt h)(a := v)\<rparr>)"
| "set_next _ v h = None"

fun set_prev :: "'a ptr \<Rightarrow> 'a ptr \<Rightarrow> 'a lheap \<Rightarrow> 'a lheap option" where
  "set_prev (Ref a) v h = Some (h\<lparr>prv := (prv h)(a := v)\<rparr>)"
| "set_prev _ v h = None"

section \<open>The operations of the header\<close>

definition list_init_head :: "'a \<Rightarrow> 'a lheap \<Rightarrow> 'a lheap" where
  "list_init_head l h = h\<lparr>nxt := (nxt h)(l := Ref l), prv := (prv h)(l := Ref l)\<rparr>"

definition list_init_node :: "'a \<Rightarrow> 'a lheap \<Rightarrow> 'a lheap" where
  "list_init_node n h = h\<lparr>nxt := (nxt h)(n := MLST_LIST_NEXT), prv := (prv h)(n := MLST_LIST_PREV)\<rparr>"

definition list_node_is_bound :: "'a \<Rightarrow> 'a lheap \<Rightarrow> bool" where
  "list_node_is_bound n h \<longleftrightarrow> nxt h n \<noteq> MLST_LIST_NEXT \<and> prv h n \<noteq> MLST_LIST_PREV"

definition list_is_empty :: "'a \<Rightarrow> 'a lheap \<Rightarrow> bool" where
  "list_is_empty l h \<longleftrightarrow> nxt h l = Ref l"

definition list_add_range ::
  "'a ptr \<Rightarrow> 'a ptr \<Rightarrow> 'a ptr \<Rightarrow> 'a ptr \<Rightarrow> 'a lheap \<Rightarrow> 'a lheap option" where
  "list_add_range fn ln prev next h =
     do { h \<leftarrow> set_prev next ln h;
          h \<leftarrow> set_next ln next h;
          h \<leftarrow> set_next prev fn h;
          set_prev fn prev h }"

definition list_del_range_core :: "'a ptr \<Rightarrow> 'a ptr \<Rightarrow> 'a lheap \<Rightarrow> 'a lheap option" where
  "list_del_range_core fn ln h =
     do { p \<leftarrow> get_prev fn h;
          n \<leftarrow> get_next ln h;
          h \<leftarrow> set_next p n h;
          n \<leftarrow> get_next ln h;
          p \<leftarrow> get_prev fn h;
          set_prev n p h }"

definition list_del_range :: "'a ptr \<Rightarrow> 'a ptr \<Rightarrow> 'a lheap \<Rightarrow> 'a lheap option" where
  "list_del_range fn ln h =
     do { h \<leftarrow> list_del_range_core fn ln h;
          h \<leftarrow> set_prev fn MLST_LIST_PREV h;
          set_next ln MLST_LIST_NEXT h }"

definition list_cut_sublist :: "'a ptr \<Rightarrow> 'a ptr \<Rightarrow> 'a lheap \<Rightarrow> 'a lheap option" where
  "list_cut_sublist fn ln h =
     do { h \<leftarrow> list_del_range_core fn ln h;
          h \<leftarrow> set_prev fn ln h;
          set_next ln fn h }"

definition list_add_before :: "'a \<Rightarrow> 'a \<Rightarrow> 'a lheap \<Rightarrow> 'a lheap option" where
  "list_add_before before new h = list_add_range (Ref new) (Ref new) (prv h before) (Ref before) h"

definition list_add_after :: "'a \<Rightarrow> 'a \<Rightarrow> 'a lheap \<Rightarrow> 'a lheap option" where
  "list_add_after after new h = list_add_range (Ref new) (Ref new) (Ref after) (nxt h after) h"

definition list_add2head :: "'a \<Rightarrow> 'a \<Rightarrow> 'a lheap \<Rightarrow> 'a lheap option" where
  "list_add2head l new h =
     (case nxt h l of Ref f \<Rightarrow> list_add_before f new h | _ \<Rightarrow> None)"

definition list_add2tail :: "'a \<Rightarrow> 'a \<Rightarrow> 'a lheap \<Rightarrow> 'a lheap option" where
  "list_add2tail l new h = list_add_before l new h"

definition list_del :: "'a \<Rightarrow> 'a lheap \<Rightarrow> 'a lheap option" where
  "list_del n h = list_del_range (Ref n) (Ref n) h"

definition list_cut_head :: "'a \<Rightarrow> 'a lheap \<Rightarrow> 'a lheap option" where
  "list_cut_head l h = list_cut_sublist (nxt h l) (prv h l) h"

definition list_set_head :: "'a \<Rightarrow> 'a \<Rightarrow> 'a lheap \<Rightarrow> 'a lheap option" where
  "list_set_head new_head cyclist h =
     list_add_range (Ref cyclist) (prv h cyclist) (nxt h new_head) (prv h new_head) h"

definition list_move :: "'a ptr \<Rightarrow> 'a ptr \<Rightarrow> 'a \<Rightarrow> 'a lheap \<Rightarrow> 'a lheap option" where
  "list_move prev next from h =
     (if list_is_empty from h then None
      else do { h \<leftarrow> list_add_range (nxt h from) (prv h from) prev next h;
                Some (list_init_head from h) })"

definition list_move2head :: "'a \<Rightarrow> 'a \<Rightarrow> 'a lheap \<Rightarrow> 'a lheap option" where
  "list_move2head to from h = list_move (Ref to) (nxt h to) from h"

definition list_move2tail :: "'a \<Rightarrow> 'a \<Rightarrow> 'a lheap \<Rightarrow> 'a lheap option" where
  "list_move2tail to from h = list_move (prv h to) (Ref to) from h"

definition list_replace :: "'a \<Rightarrow> 'a \<Rightarrow> 'a lheap \<Rightarrow> 'a lheap option" where
  "list_replace old new h =
     do { h \<leftarrow> set_next (prv h old) (Ref new) h;
          h \<leftarrow> set_prev (Ref new) (prv h old) h;
          h \<leftarrow> set_next (Ref new) (nxt h old) h;
          h \<leftarrow> set_prev (nxt h old) (Ref new) h;
          h \<leftarrow> set_prev (Ref old) MLST_LIST_PREV h;
          set_next (Ref old) MLST_LIST_NEXT h }"

text \<open>
  \<^verbatim>\<open>list_for_each\<close>: the nodes a traversal visits, from the first node up to the head. A
  list that does not come back to its head is a traversal that does not end.
\<close>

partial_function (option) list_walk :: "'a \<Rightarrow> 'a ptr \<Rightarrow> 'a lheap \<Rightarrow> 'a list option" where
  "list_walk l p h =
     (case p of
        Ref a \<Rightarrow> if a = l then Some []
                 else do { xs \<leftarrow> list_walk l (nxt h a) h; Some (a # xs) }
      | _ \<Rightarrow> None)"

definition list_for_each :: "'a \<Rightarrow> 'a lheap \<Rightarrow> 'a list option" where
  "list_for_each l h = list_walk l (nxt h l) h"

section \<open>Linked sequences\<close>

fun links :: "'a lheap \<Rightarrow> 'a list \<Rightarrow> bool" where
  "links h (x # y # zs) \<longleftrightarrow> nxt h x = Ref y \<and> prv h y = Ref x \<and> links h (y # zs)"
| "links h _ \<longleftrightarrow> True"

definition clist :: "'a lheap \<Rightarrow> 'a \<Rightarrow> 'a list \<Rightarrow> bool" where
  "clist h l xs \<longleftrightarrow> distinct (l # xs) \<and> links h ((l # xs) @ [l])"

definition same_outside :: "'a set \<Rightarrow> 'a lheap \<Rightarrow> 'a lheap \<Rightarrow> bool" where
  "same_outside S h h' \<longleftrightarrow> (\<forall>x. x \<notin> S \<longrightarrow> nxt h' x = nxt h x \<and> prv h' x = prv h x)"

lemma links_append:
  "us \<noteq> [] \<Longrightarrow> vs \<noteq> [] \<Longrightarrow>
     links h (us @ vs) \<longleftrightarrow>
       links h us \<and> nxt h (last us) = Ref (hd vs) \<and> prv h (hd vs) = Ref (last us) \<and> links h vs"
proof (induction us)
  case (Cons u us)
  then show ?case by (cases us; cases vs) auto
qed simp

lemma links_cong:
  "links h us \<Longrightarrow> (\<And>x. x \<in> set (butlast us) \<Longrightarrow> nxt h' x = nxt h x) \<Longrightarrow>
     (\<And>x. x \<in> set (tl us) \<Longrightarrow> prv h' x = prv h x) \<Longrightarrow> links h' us"
  by (induction h us rule: links.induct) auto

lemma clist_split:
  "clist h l (xs @ ys) \<longleftrightarrow>
     distinct (l # xs @ ys) \<and> links h (l # xs) \<and> links h (ys @ [l]) \<and>
     nxt h (last (l # xs)) = Ref (hd (ys @ [l])) \<and> prv h (hd (ys @ [l])) = Ref (last (l # xs))"
  using links_append [of "l # xs" "ys @ [l]" h] by (auto simp: clist_def)

lemma clist_frame:
  assumes "clist h l xs" and "same_outside S h h'" and "insert l (set xs) \<inter> S = {}"
  shows "clist h' l xs"
  unfolding clist_def
proof (intro conjI)
  show "distinct (l # xs)" using assms(1) by (simp add: clist_def)
  have "links h ((l # xs) @ [l])" using assms(1) by (simp add: clist_def)
  then show "links h' ((l # xs) @ [l])"
    by (rule links_cong) (use assms(2,3) in \<open>auto simp: same_outside_def\<close>)
qed

lemma same_outside_mono: "same_outside S h h' \<Longrightarrow> S \<subseteq> T \<Longrightarrow> same_outside T h h'"
  by (auto simp: same_outside_def)

lemma same_outside_trans:
  "same_outside S h h' \<Longrightarrow> same_outside S h' h'' \<Longrightarrow> same_outside S h h''"
  by (auto simp: same_outside_def)

lemma last_mem: "last (l # xs) \<in> insert l (set xs)"
  by (induction xs) auto

lemma hd_mem: "hd (ys @ [l]) \<in> insert l (set ys)"
  by (cases ys) auto

lemma last_notin_butlast: "distinct us \<Longrightarrow> last us \<notin> set (butlast us)"
  by (cases us rule: rev_cases) auto

lemma hd_notin_tl: "distinct vs \<Longrightarrow> vs \<noteq> [] \<Longrightarrow> hd vs \<notin> set (tl vs)"
  by (cases vs) auto

lemma clist_Nil [simp]: "clist h l [] \<longleftrightarrow> nxt h l = Ref l \<and> prv h l = Ref l"
  by (simp add: clist_def)

lemma clist_nxt: "clist h l xs \<Longrightarrow> nxt h l = Ref (hd (xs @ [l]))"
  using clist_split [of h l "[]" xs] by simp

lemma clist_prv: "clist h l xs \<Longrightarrow> prv h l = Ref (last (l # xs))"
  using clist_split [of h l xs "[]"] by simp

lemma clist_distinct: "clist h l xs \<Longrightarrow> distinct xs \<and> l \<notin> set xs"
  by (simp add: clist_def)

text \<open>
  One linking lemma serves every operation: a heap links \<open>xs\<close> and \<open>ys\<close> around the head with
  the sequence \<open>zs\<close> between them, when \<open>zs\<close> is linked, its ends are tied to the neighbours and
  nothing else of the two outer parts has changed.
\<close>

lemma clist_relink:
  assumes d: "distinct (l # xs @ zs @ ys)"
    and old: "links h (l # xs)" "links h (ys @ [l])" and new: "links h' zs"
    and nl: "\<And>x. x \<in> insert l (set (xs @ ys)) \<Longrightarrow> x \<noteq> last (l # xs) \<Longrightarrow> nxt h' x = nxt h x"
    and pl: "\<And>x. x \<in> insert l (set (xs @ ys)) \<Longrightarrow> x \<noteq> hd (ys @ [l]) \<Longrightarrow> prv h' x = prv h x"
    and left: "nxt h' (last (l # xs)) = Ref (hd (zs @ ys @ [l]))"
              "prv h' (hd (zs @ ys @ [l])) = Ref (last (l # xs))"
    and right: "zs \<noteq> [] \<Longrightarrow> nxt h' (last zs) = Ref (hd (ys @ [l]))"
               "zs \<noteq> [] \<Longrightarrow> prv h' (hd (ys @ [l])) = Ref (last zs)"
  shows "clist h' l (xs @ zs @ ys)"
proof -
  have dl: "distinct (l # xs)" and dr: "distinct (ys @ [l])" using d by auto
  have hmem: "hd (ys @ [l]) \<in> insert l (set ys)" by (rule hd_mem)
  have lmem: "last (l # xs) \<in> insert l (set xs)" by (rule last_mem)
  have L: "links h' (l # xs)"
  proof (rule links_cong [OF old(1)])
    fix x assume "x \<in> set (butlast (l # xs))"
    moreover from this have "x \<noteq> last (l # xs)" using last_notin_butlast [OF dl] by auto
    ultimately show "nxt h' x = nxt h x" using in_set_butlastD [of x "l # xs"] by (intro nl) auto
  next
    fix x assume "x \<in> set (tl (l # xs))"
    then show "prv h' x = prv h x" using d hmem by (intro pl) auto
  qed
  have R: "links h' (ys @ [l])"
  proof (rule links_cong [OF old(2)])
    fix x assume "x \<in> set (butlast (ys @ [l]))"
    then show "nxt h' x = nxt h x" using d lmem by (intro nl) auto
  next
    fix x assume x: "x \<in> set (tl (ys @ [l]))"
    then have "x \<noteq> hd (ys @ [l])" using hd_notin_tl [OF dr] by auto
    moreover have "x \<in> insert l (set ys)" using x by (cases ys) auto
    ultimately show "prv h' x = prv h x" by (intro pl) auto
  qed
  show ?thesis
  proof (cases "zs = []")
    case True
    then show ?thesis using d L R left by (simp add: clist_split)
  next
    case False
    have "links h' (zs @ ys @ [l])"
      using False new R right by (simp add: links_append)
    then have "links h' ((l # xs) @ zs @ ys @ [l])"
      using False L left by (subst links_append) auto
    then show ?thesis using d by (simp add: clist_def)
  qed
qed

section \<open>The operations on represented lists\<close>

lemma list_init_head_clist: "clist (list_init_head l h) l []"
  by (simp add: list_init_head_def)

lemma list_init_head_frame: "same_outside {l} h (list_init_head l h)"
  by (simp add: list_init_head_def same_outside_def)

lemma list_is_empty_clist: "clist h l xs \<Longrightarrow> list_is_empty l h \<longleftrightarrow> xs = []"
  using clist_nxt [of h l xs] clist_distinct [of h l xs]
  by (cases xs) (auto simp: list_is_empty_def)

lemma list_walk_links:
  "links h (us @ [l]) \<Longrightarrow> l \<notin> set us \<Longrightarrow> list_walk l (Ref (hd (us @ [l]))) h = Some us"
proof (induction us)
  case Nil
  then show ?case by (simp add: list_walk.simps)
next
  case (Cons u us)
  have "nxt h u = Ref (hd (us @ [l]))" and "links h (us @ [l])"
    using Cons.prems(1) by (cases us; simp)+
  then show ?case using Cons by (auto simp: list_walk.simps [of l "Ref u"])
qed

lemma list_for_each_clist: "clist h l xs \<Longrightarrow> list_for_each l h = Some xs"
  using clist_split [of h l "[]" xs] list_walk_links [of h xs l]
  by (auto simp: list_for_each_def)

lemma list_add_before_clist:
  assumes c: "clist h l (xs @ ys)" and n: "n \<notin> insert l (set (xs @ ys))"
  obtains h' where "list_add_before (hd (ys @ [l])) n h = Some h'" "clist h' l (xs @ n # ys)"
    "same_outside (insert n (insert l (set (xs @ ys)))) h h'"
proof -
  let ?p = "last (l # xs)" and ?b = "hd (ys @ [l])"
  let ?h = "h\<lparr>nxt := (nxt h)(n := Ref ?b, ?p := Ref n), prv := (prv h)(?b := Ref n, n := Ref ?p)\<rparr>"
  note s = c [unfolded clist_split]
  have mem: "?p \<in> insert l (set xs)" "?b \<in> insert l (set ys)" by (rule last_mem hd_mem)+
  have eq: "list_add_before ?b n h = Some ?h"
    using s by (simp add: list_add_before_def list_add_range_def)
  have "clist ?h l (xs @ [n] @ ys)"
    by (rule clist_relink [of l xs "[n]" ys h]) (use s n mem in auto)
  moreover have "same_outside (insert n (insert l (set (xs @ ys)))) h ?h"
    using mem by (auto simp: same_outside_def)
  ultimately show thesis using that eq by simp
qed

lemma list_del_clist:
  assumes c: "clist h l (xs @ n # ys)"
  obtains h' where "list_del n h = Some h'" "clist h' l (xs @ ys)"
    "nxt h' n = MLST_LIST_NEXT" "prv h' n = MLST_LIST_PREV"
    "same_outside (insert l (set (xs @ n # ys))) h h'"
proof -
  let ?p = "last (l # xs)" and ?b = "hd (ys @ [l])"
  let ?h = "h\<lparr>nxt := (nxt h)(?p := Ref ?b, n := MLST_LIST_NEXT),
              prv := (prv h)(?b := Ref ?p, n := MLST_LIST_PREV)\<rparr>"
  note s = c [unfolded clist_split]
  note s' = clist_split [of h l "xs @ [n]" ys, simplified, THEN iffD1, OF c]
  have mem: "?p \<in> insert l (set xs)" "?b \<in> insert l (set ys)" by (rule last_mem hd_mem)+
  have ne: "?p \<noteq> n" "?b \<noteq> n" using s mem by auto
  have l1: "nxt h n = Ref ?b" "prv h n = Ref ?p" "links h (ys @ [l])"
    using s s' by (auto simp: links_append [of "[n]" "ys @ [l]", simplified])
  have eq: "list_del n h = Some ?h"
    using l1 ne by (simp add: list_del_def list_del_range_def list_del_range_core_def)
  have "clist ?h l (xs @ [] @ ys)"
    by (rule clist_relink [of l xs "[]" ys h]) (use s l1 ne mem in auto)
  moreover have "same_outside (insert l (set (xs @ n # ys))) h ?h"
    using mem by (auto simp: same_outside_def)
  ultimately show thesis using that eq by simp
qed


lemma list_del_twice_faults:
  assumes "clist h l (xs @ n # ys)" "list_del n h = Some h'"
  shows "list_del n h' = None"
proof -
  have "prv h' n = MLST_LIST_PREV" using assms by (metis list_del_clist option.inject)
  then show ?thesis
    by (cases "nxt h' n") (simp_all add: list_del_def list_del_range_def list_del_range_core_def)
qed

lemma list_add2tail_clist:
  assumes "clist h l xs" and "n \<notin> insert l (set xs)"
  obtains h' where "list_add2tail l n h = Some h'" "clist h' l (xs @ [n])"
    "same_outside (insert n (insert l (set xs))) h h'"
  using list_add_before_clist [of h l xs "[]" n] assms by (auto simp: list_add2tail_def)

lemma list_add2head_clist:
  assumes "clist h l xs" and "n \<notin> insert l (set xs)"
  obtains h' where "list_add2head l n h = Some h'" "clist h' l (n # xs)"
    "same_outside (insert n (insert l (set xs))) h h'"
  using list_add_before_clist [of h l "[]" xs n] assms clist_nxt [of h l xs]
  by (auto simp: list_add2head_def)

lemma list_move_clist:
  assumes c: "clist h l (xs @ ys)" and f: "clist h fr zs" and ne: "zs \<noteq> []"
    and dj: "insert l (set (xs @ ys)) \<inter> insert fr (set zs) = {}"
  obtains h' where "list_move (Ref (last (l # xs))) (Ref (hd (ys @ [l]))) fr h = Some h'"
    "clist h' l (xs @ zs @ ys)" "clist h' fr []"
    "same_outside (insert l (set (xs @ ys)) \<union> insert fr (set zs)) h h'"
proof -
  let ?p = "last (l # xs)" and ?b = "hd (ys @ [l])"
  let ?h = "h\<lparr>nxt := (nxt h)(last zs := Ref ?b, ?p := Ref (hd zs), fr := Ref fr),
              prv := (prv h)(?b := Ref (last zs), hd zs := Ref ?p, fr := Ref fr)\<rparr>"
  note s = c [unfolded clist_split]
  have mem: "?p \<in> insert l (set xs)" "?b \<in> insert l (set ys)" by (rule last_mem hd_mem)+
  have zmem: "hd zs \<in> set zs" "last zs \<in> set zs" using ne by auto
  have zd: "distinct zs" "fr \<notin> set zs" using clist_distinct [OF f] by auto
  have fz: "nxt h fr = Ref (hd zs)" "prv h fr = Ref (last zs)"
    using clist_nxt [OF f] clist_prv [OF f] ne by auto
  have lz: "links h zs"
    using f ne links_append [of "[fr]" "zs @ [fr]" h] links_append [of zs "[fr]" h]
    by (simp add: clist_def)
  have eq: "list_move (Ref ?p) (Ref ?b) fr h = Some ?h"
    using fz zmem zd by (auto simp: list_move_def list_is_empty_def list_add_range_def list_init_head_def)
  have pz: "?p \<notin> set zs" "?b \<notin> set zs" using mem dj by auto
  have ends: "last zs \<noteq> ?p" "hd zs \<noteq> ?b" using pz zmem by metis+
  have "links ?h zs"
    by (rule links_cong [OF lz])
      (use zd pz ne last_notin_butlast [OF zd(1)] hd_notin_tl [OF zd(1) ne] in
        \<open>auto dest: in_set_butlastD list.set_sel(2)\<close>)
  have out: "x \<notin> set zs \<and> x \<noteq> fr" if "x \<in> insert l (set (xs @ ys))" for x using dj that by auto
  have pf: "?p \<noteq> fr" "?b \<noteq> fr" using out mem by auto
  have zne: "x \<noteq> last zs \<and> x \<noteq> hd zs \<and> x \<noteq> fr" if "x \<in> insert l (set (xs @ ys))" for x
    using out [OF that] zmem by blast
  have zf: "last zs \<noteq> fr" "hd zs \<noteq> fr" using zmem zd by metis+
  have "clist ?h l (xs @ zs @ ys)"
  proof (rule clist_relink [of l xs zs ys h])
    show "distinct (l # xs @ zs @ ys)" using s zd out by auto
    show "links h (l # xs)" "links h (ys @ [l])" using s by auto
    show "links ?h zs" by fact
    show "nxt ?h x = nxt h x" if "x \<in> insert l (set (xs @ ys))" "x \<noteq> ?p" for x
      using zne [OF that(1)] that(2) by (simp del: last.simps)
    show "prv ?h x = prv h x" if "x \<in> insert l (set (xs @ ys))" "x \<noteq> ?b" for x
      using zne [OF that(1)] that(2) by (simp del: hd_append)
    show "nxt ?h ?p = Ref (hd (zs @ ys @ [l]))" using ne pf by (simp del: last.simps)
    show "prv ?h (hd (zs @ ys @ [l])) = Ref ?p" using ne zf by simp
    show "nxt ?h (last zs) = Ref ?b" using ends zf by (simp del: last.simps)
    show "prv ?h ?b = Ref (last zs)" using ends pf by (simp del: hd_append)
  qed
  moreover have "clist ?h fr []" by simp
  moreover have "same_outside (insert l (set (xs @ ys)) \<union> insert fr (set zs)) h ?h"
    using mem zmem by (auto simp: same_outside_def)
  ultimately show thesis using that eq by blast
qed

lemma list_move_empty_faults: "clist h fr [] \<Longrightarrow> list_move p n fr h = None"
  by (simp add: list_move_def list_is_empty_def)

lemma list_move2head_clist:
  assumes "clist h l xs" "clist h fr zs" "zs \<noteq> []" "insert l (set xs) \<inter> insert fr (set zs) = {}"
  obtains h' where "list_move2head l fr h = Some h'" "clist h' l (zs @ xs)" "clist h' fr []"
    "same_outside (insert l (set xs) \<union> insert fr (set zs)) h h'"
  using list_move_clist [of h l "[]" xs fr zs] assms clist_nxt [of h l xs]
  by (auto simp: list_move2head_def)

lemma list_move2tail_clist:
  assumes "clist h l xs" "clist h fr zs" "zs \<noteq> []" "insert l (set xs) \<inter> insert fr (set zs) = {}"
  obtains h' where "list_move2tail l fr h = Some h'" "clist h' l (xs @ zs)" "clist h' fr []"
    "same_outside (insert l (set xs) \<union> insert fr (set zs)) h h'"
  using list_move_clist [of h l xs "[]" fr zs] assms clist_prv [of h l xs]
  by (auto simp: list_move2tail_def)

lemma list_replace_clist:
  assumes c: "clist h l (xs @ old # ys)" and n: "new \<notin> insert l (set (xs @ old # ys))"
  obtains h' where "list_replace old new h = Some h'" "clist h' l (xs @ new # ys)"
    "nxt h' old = MLST_LIST_NEXT" "prv h' old = MLST_LIST_PREV"
    "same_outside (insert new (insert l (set (xs @ old # ys)))) h h'"
proof -
  let ?p = "last (l # xs)" and ?b = "hd (ys @ [l])"
  let ?h = "h\<lparr>nxt := (nxt h)(?p := Ref new, new := Ref ?b, old := MLST_LIST_NEXT),
              prv := (prv h)(new := Ref ?p, ?b := Ref new, old := MLST_LIST_PREV)\<rparr>"
  note s = c [unfolded clist_split]
  note s' = clist_split [of h l "xs @ [old]" ys, simplified, THEN iffD1, OF c]
  have mem: "?p \<in> insert l (set xs)" "?b \<in> insert l (set ys)" by (rule last_mem hd_mem)+
  have ne: "?p \<noteq> old" "?b \<noteq> old" "?p \<noteq> new" "?b \<noteq> new" "old \<noteq> new" using s n mem by auto
  have l1: "nxt h old = Ref ?b" "prv h old = Ref ?p" "links h (ys @ [l])"
    using s s' by (auto simp: links_append [of "[old]" "ys @ [l]", simplified])
  have eq: "list_replace old new h = Some ?h"
    using l1 ne by (simp add: list_replace_def)
  have "clist ?h l (xs @ [new] @ ys)"
    by (rule clist_relink [of l xs "[new]" ys h]) (use s n l1 ne mem in auto)
  moreover have "same_outside (insert new (insert l (set (xs @ old # ys)))) h ?h"
    using mem by (auto simp: same_outside_def)
  ultimately show thesis using that eq by simp
qed

lemma list_cut_head_heap:
  assumes c: "clist h l xs" and ne: "xs \<noteq> []"
  shows "list_cut_head l h =
     Some (h\<lparr>nxt := (nxt h)(l := Ref l, last xs := Ref (hd xs)),
             prv := (prv h)(l := Ref l, hd xs := Ref (last xs))\<rparr>)"
proof -
  have l: "nxt h l = Ref (hd xs)" "prv h l = Ref (last xs)"
    using clist_nxt [OF c] clist_prv [OF c] ne by auto
  have e: "prv h (hd xs) = Ref l" "nxt h (last xs) = Ref l"
    using c ne links_append [of "[l]" "xs @ [l]" h] links_append [of "l # xs" "[l]" h]
    by (auto simp: clist_def)
  have d: "hd xs \<noteq> l" "last xs \<noteq> l" using clist_distinct [OF c] ne by auto
  show ?thesis
    using l e d by (simp add: list_cut_head_def list_cut_sublist_def list_del_range_core_def)
qed

lemma list_cut_set_head:
  assumes c: "clist h l xs" and ne: "xs \<noteq> []"
  shows "do { h' \<leftarrow> list_cut_head l h; list_set_head l (hd xs) h' } = Some h"
proof -
  have l: "nxt h l = Ref (hd xs)" "prv h l = Ref (last xs)"
    using clist_nxt [OF c] clist_prv [OF c] ne by auto
  have e: "prv h (hd xs) = Ref l" "nxt h (last xs) = Ref l"
    using c ne links_append [of "[l]" "xs @ [l]" h] links_append [of "l # xs" "[l]" h]
    by (auto simp: clist_def)
  have d: "hd xs \<noteq> l" "last xs \<noteq> l" using clist_distinct [OF c] ne by auto
  show ?thesis
    unfolding list_cut_head_heap [OF c ne]
    using l e d by (cases h) (simp add: list_set_head_def list_add_range_def fun_eq_iff)
qed

section \<open>Properties\<close>

text \<open>
  C26. Insertion in front of any node of a represented list, and removal of any node, do to the
  traversed sequence exactly what they say, leave every disjoint list as it was, and leave
  the removed node poisoned: a second removal of the same node faults instead of corrupting
  a list.
\<close>

theorem list_insert_remove_refines:
  assumes "clist h l (xs @ ys)" and "n \<notin> insert l (set (xs @ ys))"
    and "clist h m zs" and "insert m (set zs) \<inter> insert n (insert l (set (xs @ ys))) = {}"
  shows "\<exists>h' h''. list_add_before (hd (ys @ [l])) n h = Some h' \<and>
           list_for_each l h' = Some (xs @ n # ys) \<and> list_for_each m h' = Some zs \<and>
           list_del n h' = Some h'' \<and>
           list_for_each l h'' = Some (xs @ ys) \<and> list_for_each m h'' = Some zs \<and>
           \<not> list_node_is_bound n h'' \<and> list_del n h'' = None"
proof -
  let ?S = "insert n (insert l (set (xs @ ys)))"
  obtain h' where h': "list_add_before (hd (ys @ [l])) n h = Some h'" "clist h' l (xs @ n # ys)"
    and f': "same_outside ?S h h'"
    using list_add_before_clist [OF assms(1,2)] .
  obtain h'' where h'': "list_del n h' = Some h''" "clist h'' l (xs @ ys)" "nxt h'' n = MLST_LIST_NEXT"
    and f'': "same_outside (insert l (set (xs @ n # ys))) h' h''"
    using list_del_clist [OF h'(2)] by metis
  have m': "clist h' m zs" by (rule clist_frame [OF assms(3) f']) (use assms(4) in auto)
  have "clist h'' m zs" by (rule clist_frame [OF m' f'']) (use assms(4) in auto)
  then show ?thesis
    using h' h'' m' list_del_twice_faults [OF h'(2) h''(1)]
    by (auto simp: list_for_each_clist list_node_is_bound_def)
qed

definition wit_heap :: "nat lheap" where
  "wit_heap = list_init_head 0 (list_init_head 1
     \<lparr>nxt = \<lambda>_. MLST_LIST_NEXT, prv = \<lambda>_. MLST_LIST_PREV\<rparr>)"

theorem list_insert_remove_refines_witness:
  "\<exists>h' h''. list_add_before (0::nat) 7 wit_heap = Some h' \<and> list_for_each 0 h' = Some [7] \<and>
     list_for_each 1 h' = Some [] \<and> list_del 7 h' = Some h'' \<and> list_for_each 0 h'' = Some [] \<and>
     list_for_each 1 h'' = Some [] \<and> \<not> list_node_is_bound 7 h'' \<and> list_del 7 h'' = None"
  using list_insert_remove_refines [of wit_heap 0 "[]" "[]" 7 1 "[]"]
  by (simp add: wit_heap_def list_init_head_def)

text \<open>
  C27. Moving a non-empty list to the tail of another appends its nodes in order, leaves the
  source an empty, usable list and disturbs no third list; moving an empty list trips the
  assertion of \<^verbatim>\<open>list_move\<close>.
\<close>

theorem list_move2tail_appends:
  assumes "clist h l xs" "clist h fr zs" "insert l (set xs) \<inter> insert fr (set zs) = {}"
    and "clist h m ws" "insert m (set ws) \<inter> (insert l (set xs) \<union> insert fr (set zs)) = {}"
  shows "if zs = [] then list_move2tail l fr h = None
         else \<exists>h'. list_move2tail l fr h = Some h' \<and> list_for_each l h' = Some (xs @ zs) \<and>
                   list_for_each fr h' = Some [] \<and> list_for_each m h' = Some ws"
proof (cases "zs = []")
  case True
  then show ?thesis using assms(2) list_move_empty_faults by (simp add: list_move2tail_def)
next
  case False
  obtain h' where h': "list_move2tail l fr h = Some h'" "clist h' l (xs @ zs)" "clist h' fr []"
    and f: "same_outside (insert l (set xs) \<union> insert fr (set zs)) h h'"
    using list_move2tail_clist [OF assms(1,2) False assms(3)] .
  have "clist h' m ws" by (rule clist_frame [OF assms(4) f assms(5)])
  then show ?thesis using False h' list_for_each_clist by metis
qed

theorem list_move2tail_appends_witness:
  "let h = the (list_add2tail (1::nat) 8 wit_heap) in
     \<exists>h'. list_move2tail 0 1 (list_init_head 2 h) = Some h' \<and> list_for_each 0 h' = Some [8] \<and>
          list_for_each 1 h' = Some [] \<and> list_for_each 2 h' = Some []"
  using list_move2tail_appends [of "list_init_head 2 (the (list_add2tail 1 8 wit_heap))" 0 "[]" 1 "[8]" 2 "[]"]
  by (simp add: wit_heap_def list_init_head_def list_add2tail_def list_add_before_def
      list_add_range_def clist_def)

text \<open>
  C28. Cutting the head off a list and attaching it again to the cyclic sublist gives back the
  very same heap: the two operations are inverse to each other.
\<close>

theorem list_cut_set_head_roundtrip:
  assumes "clist h l xs" and "xs \<noteq> []"
  shows "\<exists>h'. list_cut_head l h = Some h' \<and> list_for_each l h' = Some [] \<and>
              nxt h' (last xs) = Ref (hd xs) \<and> prv h' (hd xs) = Ref (last xs) \<and>
              list_set_head l (hd xs) h' = Some h"
proof -
  have "last xs \<noteq> l" "hd xs \<noteq> l" using clist_distinct [OF assms(1)] assms(2) by auto
  then show ?thesis
    using list_cut_head_heap [OF assms] list_cut_set_head [OF assms]
    by (auto intro!: list_for_each_clist)
qed

theorem list_cut_set_head_roundtrip_witness:
  "let h = the (list_add2tail (1::nat) 8 wit_heap) in
     \<exists>h'. list_cut_head 1 h = Some h' \<and> list_for_each 1 h' = Some [] \<and> list_set_head 1 8 h' = Some h"
  using list_cut_set_head_roundtrip [of "the (list_add2tail 1 8 wit_heap)" 1 "[8]"]
  by (auto simp: wit_heap_def list_init_head_def list_add2tail_def list_add_before_def
      list_add_range_def clist_def)

end
