(* ===== verification/Pqueue.thy ===== *)
theory Pqueue
  imports DList "HOL-Library.Multiset"
begin

text \<open>
  The priority queue of \<^verbatim>\<open>kernel/ds/pqueue.c\<close> and \<^verbatim>\<open>include/ds/pqueue.h\<close>: a list of group
  leaders sorted by priority, each leader carrying the list of the nodes of its own
  priority. The operations are the pointer operations of the source on the heap of
  \<open>DList\<close>; \<open>pq_rep\<close> relates a heap to a list of groups, and the interface the rest of the
  kernel relies on is the locale \<open>stable_pqueue\<close>: the queue is one sequence, sorted by
  priority, first in first out among equal priorities.
\<close>

section \<open>Nodes and queues\<close>

text \<open>
  A \<^verbatim>\<open>pqueue_node_t\<close> embeds two list nodes, \<^verbatim>\<open>head\<close> and \<^verbatim>\<open>node\<close>; the queue embeds one. Their
  addresses are kept apart by constructors, and \<^verbatim>\<open>list_entry\<close> is the match on \<open>PNode\<close>.
\<close>

datatype pq_addr = Queue | PHead nat | PNode nat

record pqueue =
  pq_lists :: "pq_addr lheap"
  pq_prio :: "nat \<Rightarrow> int"

definition pqueue_initialize :: "pqueue \<Rightarrow> pqueue" where
  "pqueue_initialize pq = pq\<lparr>pq_lists := list_init_head Queue (pq_lists pq)\<rparr>"

definition pqueue_is_empty :: "pqueue \<Rightarrow> bool" where
  "pqueue_is_empty pq \<longleftrightarrow> list_is_empty Queue (pq_lists pq)"

fun list_entry :: "pq_addr ptr \<Rightarrow> nat option" where
  "list_entry (Ref (PNode n)) = Some n"
| "list_entry _ = None"

definition pqueue_pick_min_core :: "pqueue \<Rightarrow> nat option option" where
  "pqueue_pick_min_core pq =
     (if pqueue_is_empty pq then Some None
      else do { m \<leftarrow> list_entry (nxt (pq_lists pq) Queue); Some (Some m) })"

text \<open>
  The loop of \<^verbatim>\<open>pqueue_insert_core\<close>: the list node the new node is put in front of.
\<close>

partial_function (option) insert_point :: "pqueue \<Rightarrow> int \<Rightarrow> pq_addr ptr \<Rightarrow> pq_addr option" where
  "insert_point pq prio p =
     (if p = Ref Queue then Some Queue
      else do { n \<leftarrow> list_entry p;
                if pq_prio pq n > prio then Some (PNode n)
                else if pq_prio pq n = prio then Some (PHead n)
                else insert_point pq prio (nxt (pq_lists pq) (PNode n)) })"

definition pqueue_insert_core :: "pqueue \<Rightarrow> nat \<Rightarrow> int \<Rightarrow> pqueue option" where
  "pqueue_insert_core pq n prio =
     (let pq = pq\<lparr>pq_prio := (pq_prio pq)(n := prio),
                  pq_lists := list_init_head (PHead n) (pq_lists pq)\<rparr>
      in do { next \<leftarrow> (if list_is_empty Queue (pq_lists pq) then Some Queue
                       else insert_point pq prio (nxt (pq_lists pq) Queue));
              h \<leftarrow> list_add_before next (PNode n) (pq_lists pq);
              if list_is_empty (PHead n) h then Some (pq\<lparr>pq_lists := h\<rparr>) else None })"

definition pqueue_delete_core :: "pqueue \<Rightarrow> nat \<Rightarrow> pqueue option" where
  "pqueue_delete_core pq n =
     (let h = pq_lists pq
      in do { h \<leftarrow> (if list_is_empty (PHead n) h then Some h
                    else do { m \<leftarrow> list_entry (nxt h (PHead n));
                              h \<leftarrow> list_del (PNode m) h;
                              h \<leftarrow> list_add_before (PNode n) (PNode m) h;
                              if list_is_empty (PHead n) h then Some h
                              else list_move (Ref (PHead m)) (Ref (PHead m)) (PHead n) h });
              h \<leftarrow> list_del (PNode n) h;
              Some (pq\<lparr>pq_lists := list_init_head (PHead n) h\<rparr>) })"

definition pqueue_delete_min_core :: "pqueue \<Rightarrow> (nat option \<times> pqueue) option" where
  "pqueue_delete_min_core pq =
     do { m \<leftarrow> pqueue_pick_min_core pq;
          case m of
            None \<Rightarrow> Some (None, pq)
          | Some n \<Rightarrow> do { pq \<leftarrow> pqueue_delete_core pq n; Some (Some n, pq) } }"

text \<open>The locked entry points; the spin lock makes each of them one step.\<close>

definition pqueue_insert :: "pqueue \<Rightarrow> nat \<Rightarrow> int \<Rightarrow> pqueue option" where
  "pqueue_insert pq n prio = pqueue_insert_core pq n prio"

definition pqueue_delete :: "pqueue \<Rightarrow> nat \<Rightarrow> pqueue option" where
  "pqueue_delete pq n = (if pqueue_is_empty pq then Some pq else pqueue_delete_core pq n)"

definition pqueue_pick_min :: "pqueue \<Rightarrow> nat option option" where
  "pqueue_pick_min pq = (if pqueue_is_empty pq then Some None else pqueue_pick_min_core pq)"

definition pqueue_delete_min :: "pqueue \<Rightarrow> (nat option \<times> pqueue) option" where
  "pqueue_delete_min pq = (if pqueue_is_empty pq then Some (None, pq) else pqueue_delete_min_core pq)"

section \<open>Groups\<close>

type_synonym groups = "(nat \<times> nat list) list"

definition flat :: "groups \<Rightarrow> nat list" where
  "flat gs = concat (map (\<lambda>(l, fs). l # fs) gs)"

fun subs :: "groups \<Rightarrow> nat \<Rightarrow> nat list" where
  "subs [] x = []"
| "subs ((l, fs) # gs) x = (if x = l then fs else subs gs x)"

definition leaders :: "groups \<Rightarrow> nat list" where
  "leaders gs = map fst gs"

definition heap_rep :: "pq_addr lheap \<Rightarrow> groups \<Rightarrow> bool" where
  "heap_rep h gs \<longleftrightarrow> distinct (flat gs) \<and> clist h Queue (map PNode (leaders gs)) \<and>
     (\<forall>x \<in> set (flat gs). clist h (PHead x) (map PNode (subs gs x)))"

fun prio_ok :: "(nat \<Rightarrow> int) \<Rightarrow> groups \<Rightarrow> bool" where
  "prio_ok prio [] = True"
| "prio_ok prio ((l, fs) # gs) = ((\<forall>f \<in> set fs. prio f = prio l) \<and>
     (\<forall>x \<in> set (flat gs). prio l < prio x) \<and> prio_ok prio gs)"

definition pq_rep :: "pqueue \<Rightarrow> groups \<Rightarrow> bool" where
  "pq_rep pq gs \<longleftrightarrow> heap_rep (pq_lists pq) gs \<and> prio_ok (pq_prio pq) gs"

lemma flat_simps [simp]:
  "flat [] = []" "flat ((l, fs) # gs) = l # fs @ flat gs" "flat (gs @ gs') = flat gs @ flat gs'"
  by (auto simp: flat_def)

lemma leaders_simps [simp]:
  "leaders [] = []" "leaders ((l, fs) # gs) = l # leaders gs"
  "leaders (gs @ gs') = leaders gs @ leaders gs'"
  by (auto simp: leaders_def)

lemma leader_in_flat: "x \<in> set (leaders gs) \<Longrightarrow> x \<in> set (flat gs)"
  by (induction gs) auto

lemma subs_subset: "y \<in> set (subs gs x) \<Longrightarrow> y \<in> set (flat gs)"
  by (induction gs x rule: subs.induct) (auto split: if_splits)

lemma subs_notin: "x \<notin> set (leaders gs) \<Longrightarrow> subs gs x = []"
  by (induction gs x rule: subs.induct) auto

lemma subs_append: "subs (gs1 @ gs2) x = (if x \<in> set (leaders gs1) then subs gs1 x else subs gs2 x)"
  by (induction gs1 x rule: subs.induct) auto

lemma sub_not_leader: "distinct (flat gs) \<Longrightarrow> y \<in> set (subs gs x) \<Longrightarrow> y \<notin> set (leaders gs)"
  by (induction gs x rule: subs.induct) (auto split: if_splits dest: leader_in_flat subs_subset)

lemma sub_other: "distinct (flat gs) \<Longrightarrow> y \<in> set (subs gs x) \<Longrightarrow> y \<in> set (subs gs x') \<Longrightarrow> x = x'"
  by (induction gs x rule: subs.induct) (auto split: if_splits dest: subs_subset)

lemmas subs_facts = subs_append subs_notin

lemmas flat_dests = leader_in_flat subs_subset sub_not_leader sub_other

section \<open>Representation and frames\<close>

definition footprint :: "groups \<Rightarrow> pq_addr set" where
  "footprint gs = insert Queue (PHead ` set (flat gs) \<union> PNode ` set (flat gs))"

lemma heap_rep_frame:
  assumes "heap_rep h gs" "same_outside S h h'" "S \<inter> footprint gs = {}"
  shows "heap_rep h' gs"
  using assms(1) unfolding heap_rep_def
proof (elim conjE, intro conjI ballI)
  assume "clist h Queue (map PNode (leaders gs))"
  then show "clist h' Queue (map PNode (leaders gs))"
    by (rule clist_frame [OF _ assms(2)])
      (use assms(3) in \<open>auto simp: footprint_def dest: leader_in_flat\<close>)
next
  fix x assume "\<forall>x \<in> set (flat gs). clist h (PHead x) (map PNode (subs gs x))" "x \<in> set (flat gs)"
  then have "clist h (PHead x) (map PNode (subs gs x))" by blast
  then show "clist h' (PHead x) (map PNode (subs gs x))"
    by (rule clist_frame [OF _ assms(2)])
      (use assms(3) \<open>x \<in> set (flat gs)\<close> in \<open>auto simp: footprint_def dest: subs_subset\<close>)
qed

lemma heap_rep_subs:
  assumes "heap_rep h (gs1 @ (l, fs) # gs2)"
  shows "clist h (PHead l) (map PNode fs)"
proof -
  have "l \<notin> set (leaders gs1)" using assms by (auto simp: heap_rep_def dest: leader_in_flat)
  then show ?thesis using assms by (auto simp: heap_rep_def subs_append)
qed

lemma heap_rep_follower_head:
  assumes "heap_rep h (gs1 @ (l, fs) # gs2)" "x \<in> set fs"
  shows "clist h (PHead x) []"
proof -
  have "subs (gs1 @ (l, fs) # gs2) x = []"
    using assms by (subst subs_notin) (auto simp: heap_rep_def dest: leader_in_flat)
  moreover have "x \<in> set (flat (gs1 @ (l, fs) # gs2))" using assms(2) by simp
  ultimately show ?thesis using assms(1) unfolding heap_rep_def by fastforce
qed

text \<open>
  A representation whose leader list has been replaced: the group lists are carried over by
  the frame.
\<close>

lemma heap_rep_queue:
  assumes rep: "heap_rep h gs" and d: "distinct (flat gs')"
    and q: "clist h' Queue (map PNode (leaders gs'))"
    and fr: "same_outside (insert Queue (PNode ` (set (leaders gs) \<union> set (leaders gs')))) h h'"
    and old: "\<And>x. x \<in> set (flat gs') \<Longrightarrow> x \<in> set (flat gs) \<Longrightarrow> subs gs' x = subs gs x"
    and new: "\<And>x. x \<in> set (flat gs') \<Longrightarrow> x \<notin> set (flat gs) \<Longrightarrow>
                subs gs' x = [] \<and> clist h (PHead x) []"
  shows "heap_rep h' gs'"
  unfolding heap_rep_def
proof (intro conjI d q ballI)
  have dg: "distinct (flat gs)" using rep by (simp add: heap_rep_def)
  fix x assume x: "x \<in> set (flat gs')"
  show "clist h' (PHead x) (map PNode (subs gs' x))"
  proof (cases "x \<in> set (flat gs)")
    case True
    then have "clist h (PHead x) (map PNode (subs gs x))" using rep by (simp add: heap_rep_def)
    moreover have "y \<notin> set (leaders gs')" if "y \<in> set (subs gs x)" for y
      using sub_not_leader [OF d] old [OF x True] that by metis
    ultimately show ?thesis unfolding old [OF x True]
      by (intro clist_frame [OF _ fr]) (auto dest: sub_not_leader [OF dg])
  next
    case False
    then have "clist h (PHead x) []" "subs gs' x = []" using new [OF x] by auto
    then show ?thesis
      using clist_frame [OF _ fr, of "PHead x" "[]"] by auto
  qed
qed

lemma heap_rep_insert_leader:
  assumes rep: "heap_rep h (gs1 @ gs2)" and n: "n \<notin> set (flat (gs1 @ gs2))" and e: "clist h (PHead n) []"
  obtains h' where "list_add_before (hd (map PNode (leaders gs2) @ [Queue])) (PNode n) h = Some h'"
    "heap_rep h' (gs1 @ (n, []) # gs2)"
    "same_outside (insert Queue (insert (PNode n) (PNode ` set (flat (gs1 @ gs2))))) h h'"
proof -
  have d: "distinct (flat (gs1 @ gs2))" using rep by (auto simp: heap_rep_def)
  have c: "clist h Queue (map PNode (leaders gs1) @ map PNode (leaders gs2))"
    using rep by (auto simp: heap_rep_def)
  have fresh: "PNode n \<notin> insert Queue (set (map PNode (leaders gs1) @ map PNode (leaders gs2)))"
    using n by (auto dest: leader_in_flat)
  obtain h' where h': "list_add_before (hd (map PNode (leaders gs2) @ [Queue])) (PNode n) h = Some h'"
    "clist h' Queue (map PNode (leaders gs1) @ PNode n # map PNode (leaders gs2))"
    and fr: "same_outside (insert (PNode n) (insert Queue
               (set (map PNode (leaders gs1) @ map PNode (leaders gs2))))) h h'"
    using list_add_before_clist [OF c fresh] .
  have "heap_rep h' (gs1 @ (n, []) # gs2)"
  proof (rule heap_rep_queue [OF rep])
    show "same_outside (insert Queue (PNode ` (set (leaders (gs1 @ gs2)) \<union>
            set (leaders (gs1 @ (n, []) # gs2))))) h h'"
      by (rule same_outside_mono [OF fr]) auto
  qed (use d n h' e in \<open>auto simp: subs_facts dest: leader_in_flat\<close>)
  moreover have "same_outside (insert Queue (insert (PNode n) (PNode ` set (flat (gs1 @ gs2))))) h h'"
    by (rule same_outside_mono [OF fr]) (auto dest: leader_in_flat)
  ultimately show thesis using that h' by blast
qed

text \<open>A representation in which the list of one group has been replaced.\<close>

lemma heap_rep_group:
  assumes rep: "heap_rep h (gs1 @ (l, fs) # gs2)" and d: "distinct (flat (gs1 @ (l, fs') # gs2))"
    and g: "clist h' (PHead l) (map PNode fs')"
    and fr: "same_outside (insert (PHead l) (PNode ` (set fs \<union> set fs'))) h h'"
    and new: "\<And>x. x \<in> set fs' \<Longrightarrow> x \<notin> set fs \<Longrightarrow> clist h (PHead x) []"
  shows "heap_rep h' (gs1 @ (l, fs') # gs2)"
  unfolding heap_rep_def
proof (intro conjI d ballI)
  let ?gs = "gs1 @ (l, fs) # gs2"
  have dg: "distinct (flat ?gs)" using rep by (simp add: heap_rep_def)
  have "clist h Queue (map PNode (leaders ?gs))" using rep by (simp add: heap_rep_def)
  then have "clist h' Queue (map PNode (leaders ?gs))"
    by (rule clist_frame [OF _ fr]) (use d dg in \<open>auto dest: leader_in_flat\<close>)
  then show "clist h' Queue (map PNode (leaders (gs1 @ (l, fs') # gs2)))" by simp
next
  let ?gs = "gs1 @ (l, fs) # gs2"
  have dg: "distinct (flat ?gs)" using rep by (simp add: heap_rep_def)
  have l1: "l \<notin> set (leaders gs1)" using dg by (auto dest: leader_in_flat)
  fix x assume x: "x \<in> set (flat (gs1 @ (l, fs') # gs2))"
  show "clist h' (PHead x) (map PNode (subs (gs1 @ (l, fs') # gs2) x))"
  proof (cases "x = l")
    case True
    then show ?thesis using g l1 by (simp add: subs_append)
  next
    case False
    then have eq: "subs (gs1 @ (l, fs') # gs2) x = subs ?gs x" by (simp add: subs_append)
    have "clist h (PHead x) (map PNode (subs ?gs x))"
    proof (cases "x \<in> set (flat ?gs)")
      case True
      then show ?thesis using rep unfolding heap_rep_def by blast
    next
      case nin: False
      then have "x \<in> set fs'" "x \<notin> set fs" using x False by auto
      moreover have "subs ?gs x = []"
        using nin False by (subst subs_notin) (auto dest: leader_in_flat)
      ultimately show ?thesis using new by simp
    qed
    then show ?thesis unfolding eq
    proof (rule clist_frame [OF _ fr], goal_cases)
      case 1
      have "y \<notin> set fs \<and> y \<notin> set fs'" if "y \<in> set (subs ?gs x)" for y
        using that False d dg by (auto simp: subs_append split: if_splits dest: subs_subset)
      then show ?case using False by auto
    qed
  qed
qed

lemma heap_rep_insert_follower:
  assumes rep: "heap_rep h (gs1 @ (l, fs) # gs2)" and n: "n \<notin> set (flat (gs1 @ (l, fs) # gs2))"
    and e: "clist h (PHead n) []"
  obtains h' where "list_add_before (PHead l) (PNode n) h = Some h'"
    "heap_rep h' (gs1 @ (l, fs @ [n]) # gs2)"
    "same_outside (insert (PHead l) (insert (PNode n) (PNode ` set fs))) h h'"
proof -
  have d: "distinct (flat (gs1 @ (l, fs) # gs2))" using rep by (simp add: heap_rep_def)
  have c: "clist h (PHead l) (map PNode fs @ [])" using heap_rep_subs [OF rep] by simp
  have "PNode n \<notin> insert (PHead l) (set (map PNode fs @ []))" using n by auto
  from list_add_before_clist [OF c this] obtain h' where
    h': "list_add_before (PHead l) (PNode n) h = Some h'" "clist h' (PHead l) (map PNode fs @ [PNode n])"
    and fr: "same_outside (insert (PNode n) (insert (PHead l) (set (map PNode fs @ [])))) h h'"
    by auto
  have fr': "same_outside (insert (PHead l) (PNode ` (set fs \<union> set (fs @ [n])))) h h'"
    by (rule same_outside_mono [OF fr]) auto
  have "heap_rep h' (gs1 @ (l, fs @ [n]) # gs2)"
    by (rule heap_rep_group [OF rep _ _ fr']) (use h' d n e in auto)
  moreover have "same_outside (insert (PHead l) (insert (PNode n) (PNode ` set fs))) h h'"
    by (rule same_outside_mono [OF fr]) auto
  ultimately show thesis using that h' by blast
qed

lemma heap_rep_delete_follower:
  assumes rep: "heap_rep h (gs1 @ (l, fs1 @ m # fs2) # gs2)"
  obtains h' where "list_del (PNode m) h = Some h'" "heap_rep h' (gs1 @ (l, fs1 @ fs2) # gs2)"
    "clist h' (PHead m) []"
    "same_outside (insert (PHead l) (PNode ` set (fs1 @ m # fs2))) h h'"
proof -
  have d: "distinct (flat (gs1 @ (l, fs1 @ m # fs2) # gs2))" using rep by (simp add: heap_rep_def)
  have c: "clist h (PHead l) (map PNode fs1 @ PNode m # map PNode fs2)"
    using heap_rep_subs [OF rep] by simp
  from list_del_clist [OF c] obtain h' where
    h': "list_del (PNode m) h = Some h'" "clist h' (PHead l) (map PNode fs1 @ map PNode fs2)"
    and fr: "same_outside (insert (PHead l) (set (map PNode fs1 @ PNode m # map PNode fs2))) h h'"
    by metis
  have fr': "same_outside (insert (PHead l) (PNode ` (set (fs1 @ m # fs2) \<union> set (fs1 @ fs2)))) h h'"
    by (rule same_outside_mono [OF fr]) auto
  have "heap_rep h' (gs1 @ (l, fs1 @ fs2) # gs2)"
    by (rule heap_rep_group [OF rep _ _ fr']) (use h' d in auto)
  moreover have "clist h' (PHead m) []"
    by (rule clist_frame [OF heap_rep_follower_head [OF rep] fr]) (use d in auto)
  moreover have "same_outside (insert (PHead l) (PNode ` set (fs1 @ m # fs2))) h h'"
    by (rule same_outside_mono [OF fr]) auto
  ultimately show thesis using that h' by blast
qed

lemma heap_rep_delete_leader:
  assumes rep: "heap_rep h (gs1 @ (n, []) # gs2)"
  obtains h' where "list_del (PNode n) h = Some h'" "heap_rep h' (gs1 @ gs2)"
    "same_outside (insert Queue (PNode ` set (flat (gs1 @ (n, []) # gs2)))) h h'"
proof -
  have d: "distinct (flat (gs1 @ (n, []) # gs2))" using rep by (simp add: heap_rep_def)
  have c: "clist h Queue (map PNode (leaders gs1) @ PNode n # map PNode (leaders gs2))"
    using rep by (auto simp: heap_rep_def)
  from list_del_clist [OF c] obtain h' where
    h': "list_del (PNode n) h = Some h'" "clist h' Queue (map PNode (leaders gs1) @ map PNode (leaders gs2))"
    and fr: "same_outside (insert Queue (set (map PNode (leaders gs1) @ PNode n # map PNode (leaders gs2)))) h h'"
    by metis
  have "heap_rep h' (gs1 @ gs2)"
  proof (rule heap_rep_queue [OF rep])
    show "same_outside (insert Queue (PNode ` (set (leaders (gs1 @ (n, []) # gs2)) \<union>
            set (leaders (gs1 @ gs2))))) h h'"
      by (rule same_outside_mono [OF fr]) auto
  qed (use d h' in \<open>auto simp: subs_facts dest: leader_in_flat\<close>)
  moreover have "same_outside (insert Queue (PNode ` set (flat (gs1 @ (n, []) # gs2)))) h h'"
    by (rule same_outside_mono [OF fr]) (auto dest: leader_in_flat)
  ultimately show thesis using that h' by blast
qed

lemma heap_rep_move_group:
  assumes rep: "heap_rep h (gs1 @ (m, []) # (n, ms) # gs2)" and ne: "ms \<noteq> []"
  obtains h' where "list_move (Ref (PHead m)) (Ref (PHead m)) (PHead n) h = Some h'"
    "heap_rep h' (gs1 @ (m, ms) # (n, []) # gs2)"
    "same_outside (insert (PHead m) (insert (PHead n) (PNode ` set ms))) h h'"
proof -
  let ?gs = "gs1 @ (m, []) # (n, ms) # gs2" and ?gs' = "gs1 @ (m, ms) # (n, []) # gs2"
  have d: "distinct (flat ?gs)" using rep by (simp add: heap_rep_def)
  have c: "clist h (PHead m) ([] @ [])" "clist h (PHead n) (map PNode ms)"
    using heap_rep_subs [of h gs1 m "[]"] heap_rep_subs [of h "gs1 @ [(m, [])]" n ms] rep by auto
  obtain h' where h': "list_move (Ref (PHead m)) (Ref (PHead m)) (PHead n) h = Some h'"
    "clist h' (PHead m) (map PNode ms)" "clist h' (PHead n) []"
    and fr: "same_outside (insert (PHead m) (insert (PHead n) (PNode ` set ms))) h h'"
    by (rule list_move_clist [OF c]) (use ne d in \<open>auto simp: insert_commute\<close>)
  have "heap_rep h' ?gs'" unfolding heap_rep_def
  proof (intro conjI ballI)
    show "distinct (flat ?gs')" using d by auto
    have "clist h Queue (map PNode (leaders ?gs))" using rep by (simp add: heap_rep_def)
    then have "clist h' Queue (map PNode (leaders ?gs))"
      by (rule clist_frame [OF _ fr]) (use d in \<open>auto dest: leader_in_flat\<close>)
    then show "clist h' Queue (map PNode (leaders ?gs'))" by simp
  next
    fix x assume x: "x \<in> set (flat ?gs')"
    show "clist h' (PHead x) (map PNode (subs ?gs' x))"
    proof (cases "x = m \<or> x = n")
      case True
      then show ?thesis using h' d by (auto simp: subs_append dest: leader_in_flat)
    next
      case False
      then have eq: "subs ?gs' x = subs ?gs x" by (auto simp: subs_append)
      have "clist h (PHead x) (map PNode (subs ?gs x))" using rep x unfolding heap_rep_def by auto
      moreover have "y \<notin> set ms" if "y \<in> set (subs ?gs x)" for y
        using that False d by (auto simp: subs_append split: if_splits dest: subs_subset)
      ultimately show ?thesis unfolding eq
        by (intro clist_frame [OF _ fr]) (use False in auto)
    qed
  qed
  then show thesis using that h' fr by blast
qed

section \<open>The operations on groups\<close>

lemma heap_rep_init_head:
  assumes "heap_rep h gs" "n \<notin> set (flat gs)"
  shows "heap_rep (list_init_head (PHead n) h) gs"
  by (rule heap_rep_frame [OF assms(1) list_init_head_frame]) (use assms(2) in \<open>auto simp: footprint_def\<close>)

definition insert_target :: "(nat \<Rightarrow> int) \<Rightarrow> int \<Rightarrow> nat list \<Rightarrow> pq_addr" where
  "insert_target prio p ls = (case ls of [] \<Rightarrow> Queue
     | x # _ \<Rightarrow> if prio x = p then PHead x else PNode x)"

lemma insert_target_upd: "n \<notin> set ls \<Longrightarrow> insert_target (prio(n := q)) p ls = insert_target prio p ls"
  by (auto simp: insert_target_def split: list.splits)

lemma insert_point_links:
  assumes "links (pq_lists pq) (map PNode ls @ [Queue])"
  shows "insert_point pq p (Ref (hd (map PNode ls @ [Queue]))) =
     Some (insert_target (pq_prio pq) p (dropWhile (\<lambda>x. pq_prio pq x < p) ls))"
  using assms
proof (induction ls)
  case Nil
  then show ?case by (simp add: insert_point.simps insert_target_def)
next
  case (Cons u ls)
  have "nxt (pq_lists pq) (PNode u) = Ref (hd (map PNode ls @ [Queue]))"
    and "links (pq_lists pq) (map PNode ls @ [Queue])"
    using Cons.prems links_append [of "[PNode u]" "map PNode ls @ [Queue]" "pq_lists pq"] by auto
  then show ?case using Cons.IH by (auto simp: insert_target_def insert_point.simps [of pq p "Ref (PNode u)"])
qed

lemma insert_point_rep:
  assumes "clist (pq_lists pq) Queue (map PNode ls)"
  shows "(if list_is_empty Queue (pq_lists pq) then Some Queue
          else insert_point pq p (nxt (pq_lists pq) Queue)) =
     Some (insert_target (pq_prio pq) p (dropWhile (\<lambda>x. pq_prio pq x < p) ls))"
  using assms list_is_empty_clist [OF assms] clist_nxt [OF assms] insert_point_links [of pq ls p]
    clist_split [of "pq_lists pq" Queue "[]" "map PNode ls"]
  by (auto simp: insert_target_def)

text \<open>Deletion of a member of the queue: the first follower takes over a leader's group.\<close>

lemma delete_leader:
  assumes rep: "heap_rep (pq_lists pq) (gs1 @ (n, fs) # gs2)"
  obtains h' where "pqueue_delete_core pq n = Some (pq\<lparr>pq_lists := h'\<rparr>)"
    "heap_rep h' (gs1 @ (case fs of [] \<Rightarrow> [] | m # ms \<Rightarrow> [(m, ms)]) @ gs2)"
proof -
  note out = that
  let ?h = "pq_lists pq"
  have d: "distinct (flat (gs1 @ (n, fs) # gs2))" using rep by (simp add: heap_rep_def)
  have fin: thesis
    if pre: "(if list_is_empty (PHead n) ?h then Some ?h
              else do { m \<leftarrow> list_entry (nxt ?h (PHead n)); h \<leftarrow> list_del (PNode m) ?h;
                        h \<leftarrow> list_add_before (PNode n) (PNode m) h;
                        if list_is_empty (PHead n) h then Some h
                        else list_move (Ref (PHead m)) (Ref (PHead m)) (PHead n) h }) = Some h1"
      and r: "heap_rep h1 (gs1 @ (case fs of [] \<Rightarrow> [] | m # ms \<Rightarrow> [(m, ms)]) @ (n, []) # gs2)" for h1
  proof -
    have r': "heap_rep h1 ((gs1 @ (case fs of [] \<Rightarrow> [] | m # ms \<Rightarrow> [(m, ms)])) @ (n, []) # gs2)"
      using r by simp
    obtain h2 where h2: "list_del (PNode n) h1 = Some h2"
      "heap_rep h2 ((gs1 @ (case fs of [] \<Rightarrow> [] | m # ms \<Rightarrow> [(m, ms)])) @ gs2)"
      using heap_rep_delete_leader [OF r'] by metis
    show thesis
      by (rule out [of "list_init_head (PHead n) h2"])
        (use pre h2 d heap_rep_init_head [OF h2(2), of n] in
          \<open>auto simp: pqueue_delete_core_def split: list.splits\<close>)
  qed
  have c: "clist ?h (PHead n) (map PNode fs)" by (rule heap_rep_subs [OF rep])
  show thesis
  proof (cases fs)
    case Nil
    then show thesis using fin [of ?h] rep list_is_empty_clist [OF c] by simp
  next
    case (Cons m ms)
    have r0: "heap_rep ?h (gs1 @ (n, [] @ m # ms) # gs2)" using rep Cons by simp
    obtain h1 where h1: "list_del (PNode m) ?h = Some h1" "heap_rep h1 (gs1 @ (n, ms) # gs2)"
      "clist h1 (PHead m) []" using heap_rep_delete_follower [OF r0] by auto
    have "m \<notin> set (flat (gs1 @ (n, ms) # gs2))" using d Cons by auto
    then obtain h2 where h2: "list_add_before (PNode n) (PNode m) h1 = Some h2"
      "heap_rep h2 (gs1 @ (m, []) # (n, ms) # gs2)"
      using heap_rep_insert_leader [OF h1(2) _ h1(3)] by auto
    have n2: "clist h2 (PHead n) (map PNode ms)"
      using h2(2) heap_rep_subs [of h2 "gs1 @ [(m, [])]" n ms] by simp
    obtain h3 where h3: "(if list_is_empty (PHead n) h2 then Some h2
        else list_move (Ref (PHead m)) (Ref (PHead m)) (PHead n) h2) = Some h3"
      "heap_rep h3 (gs1 @ (m, ms) # (n, []) # gs2)"
      using h2(2) heap_rep_move_group [OF h2(2)] list_is_empty_clist [OF n2] by (cases ms) auto
    show thesis
      using fin [of h3] h1 h2 h3 Cons list_is_empty_clist [OF c] clist_nxt [OF c] by simp
  qed
qed

lemma delete_follower:
  assumes rep: "heap_rep (pq_lists pq) (gs1 @ (l, fs1 @ n # fs2) # gs2)"
  obtains h' where "pqueue_delete_core pq n = Some (pq\<lparr>pq_lists := h'\<rparr>)"
    "heap_rep h' (gs1 @ (l, fs1 @ fs2) # gs2)"
proof -
  have d: "distinct (flat (gs1 @ (l, fs1 @ n # fs2) # gs2))" using rep by (simp add: heap_rep_def)
  have "list_is_empty (PHead n) (pq_lists pq)"
    using list_is_empty_clist [OF heap_rep_follower_head [OF rep, of n]] by simp
  moreover obtain h1 where h1: "list_del (PNode n) (pq_lists pq) = Some h1"
    "heap_rep h1 (gs1 @ (l, fs1 @ fs2) # gs2)" using heap_rep_delete_follower [OF rep] by metis
  ultimately show thesis
    using that [of "list_init_head (PHead n) h1"] heap_rep_init_head [OF h1(2), of n] d
    by (auto simp: pqueue_delete_core_def)
qed

section \<open>The queue as one sequence\<close>

definition pq_seq :: "pqueue \<Rightarrow> nat list \<Rightarrow> bool" where
  "pq_seq pq xs \<longleftrightarrow> (\<exists>gs. pq_rep pq gs \<and> flat gs = xs)"

definition seq_insert :: "('a \<Rightarrow> int) \<Rightarrow> int \<Rightarrow> 'a \<Rightarrow> 'a list \<Rightarrow> 'a list" where
  "seq_insert prio p n xs = takeWhile (\<lambda>m. prio m \<le> p) xs @ n # dropWhile (\<lambda>m. prio m \<le> p) xs"

lemma prio_ok_append [simp]:
  "prio_ok prio (gs1 @ gs2) \<longleftrightarrow> prio_ok prio gs1 \<and> prio_ok prio gs2 \<and>
     (\<forall>x \<in> set (flat gs1). \<forall>y \<in> set (flat gs2). prio x < prio y)"
  by (induction prio gs1 rule: prio_ok.induct) auto

lemma prio_ok_cong:
  "(\<And>x. x \<in> set (flat gs) \<Longrightarrow> prio' x = prio x) \<Longrightarrow> prio_ok prio' gs = prio_ok prio gs"
proof (induction gs)
  case (Cons g gs)
  obtain l fs where g: "g = (l, fs)" by (cases g)
  have "prio_ok prio' gs = prio_ok prio gs" using Cons.prems by (intro Cons.IH) (simp add: g)
  moreover have "\<And>x. x \<in> insert l (set fs \<union> set (flat gs)) \<Longrightarrow> prio' x = prio x"
    using Cons.prems by (simp add: g)
  ultimately show ?case by (simp add: g)
qed simp

lemma prio_ok_upd [simp]: "n \<notin> set (flat gs) \<Longrightarrow> prio_ok (prio(n := p)) gs = prio_ok prio gs"
  by (rule prio_ok_cong) auto

lemma prio_ok_sorted: "prio_ok prio gs \<Longrightarrow> sorted (map prio (flat gs))"
proof (induction prio gs rule: prio_ok.induct)
  case (2 prio l fs gs)
  then have "sorted (map prio fs)" by (auto simp: sorted_iff_nth_mono)
  moreover have "sorted (map prio (flat gs))" using 2 by simp
  moreover have "prio l < prio x" if "x \<in> set (flat gs)" for x using 2 that by simp
  moreover have "prio f = prio l" if "f \<in> set fs" for f using 2 that by simp
  ultimately show ?case by (auto simp: sorted_append less_imp_le)
qed simp

lemma prio_ok_takeWhile:
  "prio_ok prio gs \<Longrightarrow> x \<in> set (flat (takeWhile (\<lambda>g. prio (fst g) < p) gs)) \<Longrightarrow> prio x < p"
  by (induction prio gs rule: prio_ok.induct) (auto split: if_splits)

lemma seq_insert_at:
  assumes "\<And>x. x \<in> set xs \<Longrightarrow> prio x \<le> p" "\<And>y. y \<in> set ys \<Longrightarrow> p < prio y"
  shows "seq_insert prio p n (xs @ ys) = xs @ n # ys"
proof (cases ys)
  case Nil
  then show ?thesis using assms by (simp add: seq_insert_def)
next
  case (Cons y zs)
  then have "\<not> prio y \<le> p" using assms(2) [of y] by simp
  then show ?thesis
    using assms(1) takeWhile_append_stop [of xs "\<lambda>m. prio m \<le> p" y zs]
      dropWhile_append_stop [of xs "\<lambda>m. prio m \<le> p" y zs] by (simp add: seq_insert_def Cons)
qed

lemma insert_groups:
  assumes r: "heap_rep h (gs1 @ gs2)" and n: "n \<notin> set (flat (gs1 @ gs2))" and e: "clist h (PHead n) []"
    and ok: "prio_ok prio (gs1 @ gs2)" and lt: "\<And>x. x \<in> set (flat gs1) \<Longrightarrow> prio x < p"
    and ge: "\<And>l fs gs3. gs2 = (l, fs) # gs3 \<Longrightarrow> p \<le> prio l"
  obtains h' gs' where "list_add_before (insert_target prio p (leaders gs2)) (PNode n) h = Some h'"
    "heap_rep h' gs'" "prio_ok (prio(n := p)) gs'" "flat gs' = seq_insert prio p n (flat (gs1 @ gs2))"
    "clist h' (PHead n) []"
proof (cases "gs2 \<noteq> [] \<and> prio (hd (leaders gs2)) = p")
  case True
  then obtain l fs gs3 where g2: "gs2 = (l, fs) # gs3" and l: "prio l = p" by (cases gs2) auto
  obtain h' where h': "list_add_before (PHead l) (PNode n) h = Some h'"
    "heap_rep h' (gs1 @ (l, fs @ [n]) # gs3)"
    "same_outside (insert (PHead l) (insert (PNode n) (PNode ` set fs))) h h'"
    using heap_rep_insert_follower [OF r [unfolded g2] n [unfolded g2] e] .
  show thesis
  proof (rule that [OF _ h'(2)])
    show "list_add_before (insert_target prio p (leaders gs2)) (PNode n) h = Some h'"
      using h'(1) g2 l by (simp add: insert_target_def)
    show "prio_ok (prio(n := p)) (gs1 @ (l, fs @ [n]) # gs3)"
      using ok n lt l g2 by auto
    show "clist h' (PHead n) []"
      by (rule clist_frame [OF e h'(3)]) (use n g2 in auto)
    have "flat (gs1 @ gs2) = (flat gs1 @ l # fs) @ flat gs3" by (simp add: g2)
    moreover have "seq_insert prio p n \<dots> = (flat gs1 @ l # fs) @ n # flat gs3"
      by (rule seq_insert_at) (use lt ok l g2 in \<open>auto intro: less_imp_le\<close>)
    ultimately show "flat (gs1 @ (l, fs @ [n]) # gs3) = seq_insert prio p n (flat (gs1 @ gs2))" by simp
  qed
next
  case False
  have gt: "\<And>x. x \<in> set (flat gs2) \<Longrightarrow> p < prio x"
  proof (cases gs2)
    case (Cons g gs3)
    fix x assume "x \<in> set (flat gs2)"
    moreover obtain l fs where "g = (l, fs)" by (cases g)
    ultimately show "p < prio x" using ge [of l fs gs3] ok False Cons by force
  qed simp
  obtain h' where h': "list_add_before (hd (map PNode (leaders gs2) @ [Queue])) (PNode n) h = Some h'"
    "heap_rep h' (gs1 @ (n, []) # gs2)"
    "same_outside (insert Queue (insert (PNode n) (PNode ` set (flat (gs1 @ gs2))))) h h'"
    using heap_rep_insert_leader [OF r n e] .
  show thesis
  proof (rule that [OF _ h'(2)])
    have "insert_target prio p (leaders gs2) = hd (map PNode (leaders gs2) @ [Queue])"
      using False by (auto simp: insert_target_def leaders_def split: list.splits)
    then show "list_add_before (insert_target prio p (leaders gs2)) (PNode n) h = Some h'"
      using h'(1) by simp
    show "prio_ok (prio(n := p)) (gs1 @ (n, []) # gs2)"
      using ok n lt gt by auto
    show "clist h' (PHead n) []"
      by (rule clist_frame [OF e h'(3)]) auto
    show "flat (gs1 @ (n, []) # gs2) = seq_insert prio p n (flat (gs1 @ gs2))"
      using seq_insert_at [of "flat gs1" prio p "flat gs2" n, OF less_imp_le [OF lt] gt] by simp
  qed
qed

lemma insert_core_rep:
  assumes rep: "pq_rep pq gs" and n: "n \<notin> set (flat gs)"
  obtains pq' where "pqueue_insert_core pq n p = Some pq'" "pq_prio pq' = (pq_prio pq)(n := p)"
    "pq_seq pq' (seq_insert (pq_prio pq) p n (flat gs))"
proof -
  let ?prio = "pq_prio pq" and ?prio' = "(pq_prio pq)(n := p)"
  let ?pq = "pq\<lparr>pq_prio := ?prio', pq_lists := list_init_head (PHead n) (pq_lists pq)\<rparr>"
  define gs1 where "gs1 = takeWhile (\<lambda>g. ?prio (fst g) < p) gs"
  define gs2 where "gs2 = dropWhile (\<lambda>g. ?prio (fst g) < p) gs"
  have gs: "gs = gs1 @ gs2" by (simp add: gs1_def gs2_def)
  have ok: "prio_ok ?prio (gs1 @ gs2)" using rep gs by (simp add: pq_rep_def)
  have r: "heap_rep (pq_lists ?pq) (gs1 @ gs2)"
    using rep n gs heap_rep_init_head [of "pq_lists pq" gs n] by (simp add: pq_rep_def)
  have lt: "\<And>x. x \<in> set (flat gs1) \<Longrightarrow> ?prio x < p"
    using rep prio_ok_takeWhile [of ?prio gs _ p] unfolding gs1_def pq_rep_def by blast
  have ge: "p \<le> ?prio l" if "gs2 = (l, fs) # gs3" for l fs gs3
    using hd_dropWhile [of "\<lambda>g. ?prio (fst g) < p" gs] that unfolding gs2_def
    by (metis fst_conv list.sel(1) list.distinct(1) not_le)
  have "dropWhile (\<lambda>x. ?prio' x < p) (leaders gs) = dropWhile (\<lambda>x. ?prio x < p) (leaders gs)"
    by (rule dropWhile_cong) (use n in \<open>auto dest: leader_in_flat\<close>)
  then have dw: "dropWhile (\<lambda>x. ?prio' x < p) (leaders gs) = leaders gs2"
    by (simp add: leaders_def gs2_def dropWhile_map o_def)
  have "n \<notin> set (leaders gs2)" using n gs by (auto dest: leader_in_flat)
  moreover have "clist (pq_lists ?pq) Queue (map PNode (leaders gs))"
    using r gs by (simp add: heap_rep_def)
  ultimately have pt: "(if list_is_empty Queue (pq_lists ?pq) then Some Queue
      else insert_point ?pq p (nxt (pq_lists ?pq) Queue)) = Some (insert_target ?prio p (leaders gs2))"
    using insert_point_rep [of ?pq "leaders gs" p] dw insert_target_upd [of n "leaders gs2" ?prio p p] by simp
  have e: "clist (pq_lists ?pq) (PHead n) []" by (simp add: list_init_head_def)
  obtain h' gs' where h': "list_add_before (insert_target ?prio p (leaders gs2)) (PNode n) (pq_lists ?pq) = Some h'"
    "heap_rep h' gs'" "prio_ok ?prio' gs'" "flat gs' = seq_insert ?prio p n (flat gs)" "clist h' (PHead n) []"
    by (rule insert_groups [OF r _ e ok lt ge]) (use n gs in auto)
  show thesis
    by (rule that [of "?pq\<lparr>pq_lists := h'\<rparr>"])
      (use h' pt list_is_empty_clist [OF h'(5)] in
        \<open>auto simp: pqueue_insert_core_def Let_def pq_seq_def pq_rep_def\<close>)
qed

lemma flat_split:
  "n \<in> set (flat gs) \<Longrightarrow> \<exists>gs1 l fs gs2. gs = gs1 @ (l, fs) # gs2 \<and> (n = l \<or> n \<in> set fs)"
proof (induction gs)
  case (Cons g gs)
  obtain l fs where g: "g = (l, fs)" by (cases g)
  show ?case
  proof (cases "n = l \<or> n \<in> set fs")
    case True
    then show ?thesis using g by (metis append_Nil)
  next
    case False
    then obtain gs1 l' fs' gs2 where "gs = gs1 @ (l', fs') # gs2 \<and> (n = l' \<or> n \<in> set fs')"
      using Cons g by auto
    then show ?thesis by (metis append_Cons)
  qed
qed simp

lemma prio_ok_shrink:
  assumes ok: "prio_ok prio (gs1 @ (l, fs) # gs2)" and sub: "set (m # ms) \<subseteq> set (l # fs)"
  shows "prio_ok prio (gs1 @ (m, ms) # gs2)"
proof -
  have "prio x = prio l" if "x \<in> set (m # ms)" for x using ok sub that by auto
  then have m: "prio m = prio l" "\<forall>x \<in> set ms. prio x = prio m" by simp_all
  moreover have "\<forall>x \<in> set (flat gs2). prio l < prio x"
    and "\<forall>x \<in> set (flat gs1). prio x < prio l \<and> (\<forall>y \<in> set (flat gs2). prio x < prio y)"
    and "prio_ok prio gs1" "prio_ok prio gs2" using ok by simp_all
  ultimately show ?thesis by (simp add: ball_Un)
qed

lemma delete_core_rep:
  assumes rep: "pq_rep pq gs" and n: "n \<in> set (flat gs)"
  obtains pq' where "pqueue_delete_core pq n = Some pq'" "pq_prio pq' = pq_prio pq"
    "pq_seq pq' (remove1 n (flat gs))"
proof -
  obtain gs1 l fs gs2 where gs: "gs = gs1 @ (l, fs) # gs2" "n = l \<or> n \<in> set fs"
    using flat_split [OF n] by metis
  have d: "distinct (flat gs)" and ok: "prio_ok (pq_prio pq) gs"
    and h: "heap_rep (pq_lists pq) gs" using rep by (auto simp: pq_rep_def heap_rep_def)
  show thesis
  proof (cases "n = l")
    case True
    obtain h' where h': "pqueue_delete_core pq n = Some (pq\<lparr>pq_lists := h'\<rparr>)"
      "heap_rep h' (gs1 @ (case fs of [] \<Rightarrow> [] | m # ms \<Rightarrow> [(m, ms)]) @ gs2)"
      by (rule delete_leader [of pq gs1 n fs gs2]) (use h gs True in simp)
    moreover have "prio_ok (pq_prio pq) (gs1 @ (case fs of [] \<Rightarrow> [] | m # ms \<Rightarrow> [(m, ms)]) @ gs2)"
      using ok gs prio_ok_shrink [of "pq_prio pq" gs1 l fs gs2] by (cases fs) auto
    moreover have "flat (gs1 @ (case fs of [] \<Rightarrow> [] | m # ms \<Rightarrow> [(m, ms)]) @ gs2) = remove1 n (flat gs)"
      using d gs True by (auto simp: remove1_append split: list.splits)
    ultimately show thesis
      by (intro that [of "pq\<lparr>pq_lists := h'\<rparr>"]) (auto simp: pq_seq_def pq_rep_def)
  next
    case False
    then obtain fs1 fs2 where fs: "fs = fs1 @ n # fs2" using gs by (meson split_list)
    obtain h' where h': "pqueue_delete_core pq n = Some (pq\<lparr>pq_lists := h'\<rparr>)"
      "heap_rep h' (gs1 @ (l, fs1 @ fs2) # gs2)"
      by (rule delete_follower [of pq gs1 l fs1 n fs2 gs2]) (use h gs fs in simp)
    moreover have "prio_ok (pq_prio pq) (gs1 @ (l, fs1 @ fs2) # gs2)"
      by (rule prio_ok_shrink [of _ gs1 l fs gs2]) (use ok gs fs in auto)
    moreover have "flat (gs1 @ (l, fs1 @ fs2) # gs2) = remove1 n (flat gs)"
      using d gs fs False by (auto simp: remove1_append)
    ultimately show thesis
      by (intro that [of "pq\<lparr>pq_lists := h'\<rparr>"]) (auto simp: pq_seq_def pq_rep_def)
  qed
qed

lemma pqueue_is_empty_seq:
  assumes "pq_seq pq xs"
  shows "pqueue_is_empty pq \<longleftrightarrow> xs = []"
proof -
  obtain gs where gs: "clist (pq_lists pq) Queue (map PNode (leaders gs))" "flat gs = xs"
    using assms by (auto simp: pq_seq_def pq_rep_def heap_rep_def)
  show ?thesis using list_is_empty_clist [OF gs(1)] gs(2)
    by (cases gs) (auto simp: pqueue_is_empty_def)
qed

lemma pick_min_core_seq:
  assumes "pq_seq pq xs"
  shows "pqueue_pick_min_core pq = Some (case xs of [] \<Rightarrow> None | x # _ \<Rightarrow> Some x)"
proof -
  obtain gs where gs: "clist (pq_lists pq) Queue (map PNode (leaders gs))" "flat gs = xs"
    using assms by (auto simp: pq_seq_def pq_rep_def heap_rep_def)
  show ?thesis using clist_nxt [OF gs(1)] gs(2) pqueue_is_empty_seq [OF assms]
    by (cases gs) (auto simp: pqueue_pick_min_core_def)
qed

lemma pq_seq_initialize: "pq_seq (pqueue_initialize pq) []"
  unfolding pq_seq_def pq_rep_def heap_rep_def pqueue_initialize_def
  by (intro exI [of _ "[]"]) (simp add: list_init_head_def)

section \<open>The interface\<close>

text \<open>
  What the clients of the queue (wait queues, mutexes) rely on: the queue is a sequence sorted
  by priority, insertion goes behind every node of the same or a smaller priority value,
  deletion removes one node, and the minimum is the head of the sequence.
\<close>

locale stable_pqueue =
  fixes sq :: "'q \<Rightarrow> 'n list \<Rightarrow> bool" and prio :: "'q \<Rightarrow> 'n \<Rightarrow> int"
    and ins :: "'q \<Rightarrow> 'n \<Rightarrow> int \<Rightarrow> 'q option" and del :: "'q \<Rightarrow> 'n \<Rightarrow> 'q option"
    and pick :: "'q \<Rightarrow> 'n option option"
  assumes sq_distinct: "sq q xs \<Longrightarrow> distinct xs"
    and sq_sorted: "sq q xs \<Longrightarrow> sorted (map (prio q) xs)"
    and sq_ins: "sq q xs \<Longrightarrow> n \<notin> set xs \<Longrightarrow>
      \<exists>q'. ins q n p = Some q' \<and> prio q' = (prio q)(n := p) \<and> sq q' (seq_insert (prio q) p n xs)"
    and sq_del: "sq q xs \<Longrightarrow> n \<in> set xs \<Longrightarrow>
      \<exists>q'. del q n = Some q' \<and> prio q' = prio q \<and> sq q' (remove1 n xs)"
    and sq_pick: "sq q xs \<Longrightarrow> pick q = Some (case xs of [] \<Rightarrow> None | x # _ \<Rightarrow> Some x)"
begin

lemma pick_least:
  assumes "sq q xs" "pick q = Some (Some n)"
  shows "n \<in> set xs \<and> (\<forall>m \<in> set xs. prio q n \<le> prio q m)"
  using sq_sorted [OF assms(1)] sq_pick [OF assms(1)] assms(2) by (cases xs) auto

lemma pick_empty: "sq q xs \<Longrightarrow> pick q = Some None \<longleftrightarrow> xs = []"
  using sq_pick [of q xs] by (cases xs) auto

lemma del_head: "sq q (n # xs) \<Longrightarrow> \<exists>q'. del q n = Some q' \<and> prio q' = prio q \<and> sq q' xs"
  using sq_del [of q "n # xs" n] by simp

lemma ins_then_del:
  assumes s: "sq q xs" and n: "n \<notin> set xs"
  shows "\<exists>q' q''. ins q n p = Some q' \<and> del q' n = Some q'' \<and> sq q'' xs"
proof -
  obtain q' where q': "ins q n p = Some q'" "sq q' (seq_insert (prio q) p n xs)"
    using sq_ins [OF s n] by blast
  have "n \<notin> set (takeWhile (\<lambda>m. prio q m \<le> p) xs)" using n by (auto dest: set_takeWhileD)
  then have r: "remove1 n (seq_insert (prio q) p n xs) = xs"
    by (simp add: seq_insert_def remove1_append)
  have "n \<in> set (seq_insert (prio q) p n xs)" by (simp add: seq_insert_def)
  from sq_del [OF q'(2) this] show ?thesis using q'(1) r by auto
qed

end

interpretation kq: stable_pqueue pq_seq pq_prio pqueue_insert_core pqueue_delete_core pqueue_pick_min_core
proof
  fix q xs n p assume "pq_seq q xs"
  then obtain gs where gs: "pq_rep q gs" "flat gs = xs" by (auto simp: pq_seq_def)
  show "distinct xs" using gs by (auto simp: pq_rep_def heap_rep_def)
  show "sorted (map (pq_prio q) xs)" using gs prio_ok_sorted by (auto simp: pq_rep_def)
  show "\<exists>q'. pqueue_insert_core q n p = Some q' \<and> pq_prio q' = (pq_prio q)(n := p) \<and>
      pq_seq q' (seq_insert (pq_prio q) p n xs)" if "n \<notin> set xs"
    using insert_core_rep [OF gs(1), of n p] gs(2) that by metis
  show "\<exists>q'. pqueue_delete_core q n = Some q' \<and> pq_prio q' = pq_prio q \<and> pq_seq q' (remove1 n xs)"
    if "n \<in> set xs"
    using delete_core_rep [OF gs(1), of n] gs(2) that by metis
  show "pqueue_pick_min_core q = Some (case xs of [] \<Rightarrow> None | x # _ \<Rightarrow> Some x)"
    by (rule pick_min_core_seq) fact
qed

section \<open>Workloads\<close>

text \<open>
  A client that queues a sequence of nodes and takes the minimum until the queue is empty.
\<close>

fun pq_insert_all :: "pqueue \<Rightarrow> (nat \<times> int) list \<Rightarrow> pqueue option" where
  "pq_insert_all pq [] = Some pq"
| "pq_insert_all pq ((n, p) # ns) = do { pq \<leftarrow> pqueue_insert pq n p; pq_insert_all pq ns }"

fun pq_drain :: "nat \<Rightarrow> pqueue \<Rightarrow> (nat list \<times> pqueue) option" where
  "pq_drain 0 pq = Some ([], pq)"
| "pq_drain (Suc k) pq =
     do { (m, pq) \<leftarrow> pqueue_delete_min pq;
          case m of None \<Rightarrow> Some ([], pq)
          | Some n \<Rightarrow> do { (ns, pq) \<leftarrow> pq_drain k pq; Some (n # ns, pq) } }"

lemma pqueue_delete_min_seq:
  assumes "pq_seq pq xs"
  shows "case xs of [] \<Rightarrow> pqueue_delete_min pq = Some (None, pq)
    | x # ys \<Rightarrow> \<exists>pq'. pqueue_delete_min pq = Some (Some x, pq') \<and> pq_seq pq' ys \<and> pq_prio pq' = pq_prio pq"
proof (cases xs)
  case Nil
  then show ?thesis using pqueue_is_empty_seq [OF assms] by (simp add: pqueue_delete_min_def)
next
  case (Cons x ys)
  then obtain pq' where "pqueue_delete_core pq x = Some pq'" "pq_prio pq' = pq_prio pq" "pq_seq pq' ys"
    using kq.del_head assms by blast
  then show ?thesis using Cons pqueue_is_empty_seq [OF assms] kq.sq_pick [OF assms]
    by (simp add: pqueue_delete_min_def pqueue_delete_min_core_def)
qed

lemma pq_drain_seq:
  "pq_seq pq xs \<Longrightarrow> length xs \<le> k \<Longrightarrow> \<exists>pq'. pq_drain k pq = Some (xs, pq') \<and> pq_seq pq' []"
proof (induction k arbitrary: pq xs)
  case (Suc k)
  show ?case
  proof (cases xs)
    case Nil
    then show ?thesis using Suc.prems pqueue_delete_min_seq [OF Suc.prems(1)] by simp
  next
    case (Cons x ys)
    then obtain pq1 where "pqueue_delete_min pq = Some (Some x, pq1)" "pq_seq pq1 ys"
      using pqueue_delete_min_seq [OF Suc.prems(1)] by auto
    then show ?thesis using Suc.IH [of pq1 ys] Suc.prems(2) Cons by auto
  qed
qed auto

text \<open>Inserting into a sorted sequence of pairs keeps, for every key, the order of arrival.\<close>

lemma sorted_dropWhile_le:
  "sorted (map f xs) \<Longrightarrow> x \<in> set (dropWhile (\<lambda>m. f m \<le> p) xs) \<Longrightarrow> (p::int) < f x"
  by (induction xs) (auto split: if_splits)

lemma seq_insert_sorted:
  assumes "sorted (map f xs)" "f n = p"
  shows "sorted (map f (seq_insert f p n xs))"
proof -
  have "sorted (map f (takeWhile (\<lambda>m. f m \<le> p) xs))" "sorted (map f (dropWhile (\<lambda>m. f m \<le> p) xs))"
    using assms(1) by (metis map_append sorted_append takeWhile_dropWhile_id)+
  then show ?thesis
    using assms(2) sorted_dropWhile_le [OF assms(1), of _ p]
    by (fastforce simp: seq_insert_def sorted_append dest: set_takeWhileD)
qed

lemma seq_insert_filter:
  assumes "sorted (map f xs)" "f n = p"
  shows "filter (\<lambda>x. k = f x) (seq_insert f p n xs) = filter (\<lambda>x. k = f x) (xs @ [n])"
proof -
  have "filter (\<lambda>x. k = f x) (dropWhile (\<lambda>m. f m \<le> p) xs) = []" if "k = p"
    using sorted_dropWhile_le [OF assms(1), of _ p] that by (force simp: filter_empty_conv)
  then show ?thesis
    using assms(2) filter_append [of "\<lambda>x. k = f x" "takeWhile (\<lambda>m. f m \<le> p) xs" "dropWhile (\<lambda>m. f m \<le> p) xs"]
    by (auto simp: seq_insert_def)
qed

lemma seq_insert_mset: "mset (seq_insert f p n xs) = mset (xs @ [n])"
  by (simp add: seq_insert_def) (metis mset_append takeWhile_dropWhile_id)

lemma sort_key_snoc: "sort_key f (xs @ [n]) = seq_insert f (f n) n (sort_key (f :: _ \<Rightarrow> int) xs)"
proof (rule properties_for_sort_key)
  show "mset (seq_insert f (f n) n (sort_key f xs)) = mset (xs @ [n])"
    by (simp add: seq_insert_mset)
  show "filter (\<lambda>x. f k = f x) (seq_insert f (f n) n (sort_key f xs)) = filter (\<lambda>x. f k = f x) (xs @ [n])" for k
    using sort_key_stable [of f "f k" xs] by (subst seq_insert_filter) (auto simp: eq_commute)
  show "sorted (map f (seq_insert f (f n) n (sort_key f xs)))"
    by (rule seq_insert_sorted) auto
qed

lemma seq_insert_map:
  "(\<And>y. y \<in> set ys \<Longrightarrow> g (f y) = h y) \<Longrightarrow> seq_insert g p (f n) (map f ys) = map f (seq_insert h p n ys)"
proof -
  assume a: "\<And>y. y \<in> set ys \<Longrightarrow> g (f y) = h y"
  have "takeWhile (\<lambda>m. g m \<le> p) (map f ys) = map f (takeWhile (\<lambda>m. h m \<le> p) ys)"
    unfolding takeWhile_map o_def by (intro arg_cong [where f = "map f"] takeWhile_cong) (simp_all add: a)
  moreover have "dropWhile (\<lambda>m. g m \<le> p) (map f ys) = map f (dropWhile (\<lambda>m. h m \<le> p) ys)"
    unfolding dropWhile_map o_def by (intro arg_cong [where f = "map f"] dropWhile_cong) (simp_all add: a)
  ultimately show ?thesis by (simp add: seq_insert_def)
qed

lemma pq_insert_all_sorts:
  assumes "pq_seq pq (map fst (sort_key snd done))" "\<And>y. y \<in> set done \<Longrightarrow> pq_prio pq (fst y) = snd y"
    and "distinct (map fst (done @ ns))"
  shows "\<exists>pq'. pq_insert_all pq ns = Some pq' \<and> pq_seq pq' (map fst (sort_key snd (done @ ns)))"
  using assms
proof (induction ns arbitrary: pq "done")
  case (Cons y ns)
  obtain n p where y: "y = (n, p)" by (cases y)
  have "n \<notin> set (map fst (sort_key snd done))" using Cons.prems(3) y by auto
  from kq.sq_ins [OF Cons.prems(1) this, of p] obtain pq1 where
    pq1: "pqueue_insert pq n p = Some pq1" "pq_prio pq1 = (pq_prio pq)(n := p)"
    "pq_seq pq1 (seq_insert (pq_prio pq) p n (map fst (sort_key snd done)))"
    by (auto simp: pqueue_insert_def)
  moreover have "seq_insert (pq_prio pq) p n (map fst (sort_key snd done)) = map fst (sort_key snd (done @ [y]))"
    using seq_insert_map [of "sort_key snd done" "pq_prio pq" fst snd p y] Cons.prems(2)
      sort_key_snoc [of snd "done" y] by (simp add: y)
  moreover have "pq_prio pq1 (fst z) = snd z" if "z \<in> set (done @ [y])" for z
    using that Cons.prems(2,3) pq1(2) y by (auto simp: image_iff)
  ultimately have "\<exists>pq'. pq_insert_all pq1 ns = Some pq' \<and>
      pq_seq pq' (map fst (sort_key snd ((done @ [y]) @ ns)))"
    by (intro Cons.IH) (use Cons.prems(3) in auto)
  then show ?case using pq1(1) y by simp
qed auto

section \<open>Properties\<close>

text \<open>
  C1. Every operation of the queue refines the sequence: on a queue that represents the
  sequence \<open>xs\<close>, inserting a node that is not queued puts it behind every node of the same
  or a smaller priority value, deleting a queued node removes exactly that node (whether it
  leads a group or follows), and taking the minimum returns and removes the head; no
  operation faults.
\<close>

theorem pqueue_refines_sequence:
  assumes "pq_seq pq xs"
  shows "(n \<notin> set xs \<longrightarrow> (\<exists>pq'. pqueue_insert pq n p = Some pq' \<and>
            pq_seq pq' (seq_insert (pq_prio pq) p n xs) \<and> pq_prio pq' = (pq_prio pq)(n := p))) \<and>
         (n \<in> set xs \<longrightarrow> (\<exists>pq'. pqueue_delete pq n = Some pq' \<and> pq_seq pq' (remove1 n xs) \<and>
            pq_prio pq' = pq_prio pq)) \<and>
         pqueue_pick_min pq = Some (if xs = [] then None else Some (hd xs)) \<and>
         (\<exists>pq'. pqueue_delete_min pq = Some (if xs = [] then None else Some (hd xs), pq') \<and>
            pq_seq pq' (tl xs) \<and> pq_prio pq' = pq_prio pq)"
proof (intro conjI impI)
  show "\<exists>pq'. pqueue_insert pq n p = Some pq' \<and>
      pq_seq pq' (seq_insert (pq_prio pq) p n xs) \<and> pq_prio pq' = (pq_prio pq)(n := p)" if "n \<notin> set xs"
    using kq.sq_ins [OF assms that, of p] by (auto simp: pqueue_insert_def)
  show "\<exists>pq'. pqueue_delete pq n = Some pq' \<and> pq_seq pq' (remove1 n xs) \<and> pq_prio pq' = pq_prio pq"
    if "n \<in> set xs"
    using kq.sq_del [OF assms that] pqueue_is_empty_seq [OF assms] that by (auto simp: pqueue_delete_def)
  show "pqueue_pick_min pq = Some (if xs = [] then None else Some (hd xs))"
    using kq.sq_pick [OF assms] pqueue_is_empty_seq [OF assms]
    by (cases xs) (auto simp: pqueue_pick_min_def)
  show "\<exists>pq'. pqueue_delete_min pq = Some (if xs = [] then None else Some (hd xs), pq') \<and>
      pq_seq pq' (tl xs) \<and> pq_prio pq' = pq_prio pq"
    using pqueue_delete_min_seq [OF assms] assms by (cases xs) auto
qed

definition wit_pq :: pqueue where
  "wit_pq = pqueue_initialize \<lparr>pq_lists = \<lparr>nxt = (\<lambda>_. MLST_LIST_NEXT), prv = (\<lambda>_. MLST_LIST_PREV)\<rparr>,
                               pq_prio = (\<lambda>_. 0)\<rparr>"

theorem pqueue_refines_sequence_witness:
  "pq_seq wit_pq [] \<and> (\<exists>pq'. pqueue_insert wit_pq 3 10 = Some pq' \<and> pq_seq pq' [3])"
  using pqueue_refines_sequence [of wit_pq "[]" 3 10] pq_seq_initialize
  by (simp add: wit_pq_def seq_insert_def) blast

text \<open>
  C11. The queue is a stable priority queue: queueing distinct nodes into a fresh queue and
  then taking the minimum as often as there are nodes hands them out sorted by priority,
  nodes of equal priority in the order of their arrival, and leaves the queue empty.
\<close>

theorem pqueue_sorts_stably:
  assumes "distinct (map fst ns)"
  shows "\<exists>pq1 pq2. pq_insert_all (pqueue_initialize pq) ns = Some pq1 \<and>
           pq_drain (length ns) pq1 = Some (map fst (sort_key snd ns), pq2) \<and> pqueue_is_empty pq2"
proof -
  obtain pq1 where pq1: "pq_insert_all (pqueue_initialize pq) ns = Some pq1"
    "pq_seq pq1 (map fst (sort_key snd ns))"
    using pq_insert_all_sorts [of "pqueue_initialize pq" "[]" ns] pq_seq_initialize assms by auto
  moreover obtain pq2 where "pq_drain (length ns) pq1 = Some (map fst (sort_key snd ns), pq2)" "pq_seq pq2 []"
    using pq_drain_seq [OF pq1(2), of "length ns"] by auto
  ultimately show ?thesis using pqueue_is_empty_seq by blast
qed

theorem pqueue_sorts_stably_witness:
  "\<exists>pq1 pq2. pq_insert_all wit_pq [(1, 5), (2, 3), (4, 5), (3, 5)] = Some pq1 \<and>
     pq_drain 4 pq1 = Some ([2, 1, 4, 3], pq2) \<and> pqueue_is_empty pq2"
  using pqueue_sorts_stably [of "[(1, 5), (2, 3), (4, 5), (3, 5)]"]
  unfolding wit_pq_def by (simp add: numeral_eq_Suc)

end
