(* ===== verification/Bitwise.thy ===== *)
theory Bitwise
  imports Prelude "HOL-Library.Word"
begin

text \<open>
  The bit operations of \<^verbatim>\<open>include/mstring/bitwise.h\<close>, \<^verbatim>\<open>kernel/arch/amd64/include/bitwise.h\<close>
  and \<^verbatim>\<open>kernel/arch/amd64/include/bits.h\<close> on 64-bit words and on bitmaps in memory (lists of
  words). The instructions \<^verbatim>\<open>bsf\<close>, \<^verbatim>\<open>bsr\<close>, \<^verbatim>\<open>bts\<close>, \<^verbatim>\<open>btr\<close> and \<^verbatim>\<open>btc\<close> are modelled by what they
  do to their operands; a destination register that \<^verbatim>\<open>bsf\<close> or \<^verbatim>\<open>bsr\<close> leaves alone on a zero
  source keeps its initial value. The locale \<open>bitmap\<close> is the interface the scheduler uses.
\<close>

unbundle bit_operations_syntax

section \<open>Instructions and the amd64 operations\<close>

definition bsf :: "64 word \<Rightarrow> nat option" where
  "bsf w = List.find (bit w) [0..<64]"

definition bsr :: "64 word \<Rightarrow> nat option" where
  "bsr w = List.find (bit w) (rev [0..<64])"

definition arch_bit_set :: "64 word \<Rightarrow> nat \<Rightarrow> 64 word" where
  "arch_bit_set w b = set_bit b w"

definition arch_bit_clear :: "64 word \<Rightarrow> nat \<Rightarrow> 64 word" where
  "arch_bit_clear w b = unset_bit b w"

definition arch_bit_toggle :: "64 word \<Rightarrow> nat \<Rightarrow> 64 word" where
  "arch_bit_toggle w b = flip_bit b w"

text \<open>The carry of the bit test is spread over the register by \<^verbatim>\<open>sbb\<close>: 0 or \<open>-1\<close>.\<close>

definition arch_bit_test :: "64 word \<Rightarrow> nat \<Rightarrow> int" where
  "arch_bit_test w b = (if bit w b then - 1 else 0)"

definition arch_bit_test_and_set :: "64 word \<Rightarrow> nat \<Rightarrow> int \<times> 64 word" where
  "arch_bit_test_and_set w b = (if bit w b then - 1 else 0, set_bit b w)"

text \<open>The source uses \<^verbatim>\<open>btc\<close>, which complements the bit, not \<^verbatim>\<open>btr\<close>.\<close>

definition arch_bit_test_and_clear :: "64 word \<Rightarrow> nat \<Rightarrow> int \<times> 64 word" where
  "arch_bit_test_and_clear w b = (if bit w b then - 1 else 0, flip_bit b w)"

definition arch_bit_find_lsf :: "64 word \<Rightarrow> int" where
  "arch_bit_find_lsf w = (case bsf w of None \<Rightarrow> - 1 | Some n \<Rightarrow> int n)"

definition arch_zero_bit_find_lsf :: "64 word \<Rightarrow> int" where
  "arch_zero_bit_find_lsf w = (case bsf (NOT w) of None \<Rightarrow> - 1 | Some n \<Rightarrow> int n)"

definition arch_bit_find_msf :: "64 word \<Rightarrow> int" where
  "arch_bit_find_msf w = (case bsr w of None \<Rightarrow> - 1 | Some n \<Rightarrow> int n)"

definition arch_zero_bit_find_msf :: "64 word \<Rightarrow> int" where
  "arch_zero_bit_find_msf w = (case bsr (NOT w) of None \<Rightarrow> - 1 | Some n \<Rightarrow> int n)"

definition arch_bits_or :: "64 word \<Rightarrow> 64 word \<Rightarrow> 64 word" where
  "arch_bits_or w flags = w OR flags"

definition arch_bits_and :: "64 word \<Rightarrow> 64 word \<Rightarrow> 64 word" where
  "arch_bits_and w m = w AND m"

section \<open>The portable loops\<close>

lemma drop_bit_less: "(w::64 word) \<noteq> 0 \<Longrightarrow> unat (drop_bit (Suc 0) w) < unat w"
  unfolding unat_drop_bit_eq by (simp add: drop_bit_eq_div unat_gt_0)

function bit_find_lsf_loop :: "int \<Rightarrow> 64 word \<Rightarrow> int" where
  "bit_find_lsf_loop c w =
     (if w = 0 then c else if w AND 1 \<noteq> 0 then c + 1 else bit_find_lsf_loop (c + 1) (drop_bit 1 w))"
  by auto
termination
  by (relation "measure (\<lambda>(c, w). unat w)") (auto intro: drop_bit_less)

definition bit_find_lsf :: "64 word \<Rightarrow> int" where
  "bit_find_lsf w = bit_find_lsf_loop (- 1) w"

function bit_find_msf_loop :: "int \<Rightarrow> 64 word \<Rightarrow> int" where
  "bit_find_msf_loop c w = (if w = 0 then c else bit_find_msf_loop (c + 1) (drop_bit 1 w))"
  by auto
termination
  by (relation "measure (\<lambda>(c, w). unat w)") (auto intro: drop_bit_less)

definition bit_find_msf :: "64 word \<Rightarrow> int" where
  "bit_find_msf w = bit_find_msf_loop (- 1) w"

function count_active_bits_loop :: "int \<Rightarrow> 64 word \<Rightarrow> int" where
  "count_active_bits_loop bits p =
     (if p = 0 then bits
      else count_active_bits_loop (if p AND 1 \<noteq> 0 then bits + 1 else bits) (drop_bit 1 p))"
  by auto
termination
  by (relation "measure (\<lambda>(c, w). unat w)") (auto intro: drop_bit_less)

definition count_active_bits :: "64 word \<Rightarrow> int" where
  "count_active_bits p = count_active_bits_loop 0 p"

declare bit_find_lsf_loop.simps [simp del] bit_find_msf_loop.simps [simp del]
  count_active_bits_loop.simps [simp del]

section \<open>Bitmaps in memory\<close>

text \<open>
  \<^verbatim>\<open>find_first_bit_mem\<close> scans \<open>count\<close> words; the outer option is an access outside the bitmap
  (or a zero count, which the loop would wrap), the inner one \<^verbatim>\<open>INVALID_BIT_INDEX\<close>.
\<close>

fun find_first_bit_mem_loop :: "64 word list \<Rightarrow> nat \<Rightarrow> nat \<Rightarrow> nat option option" where
  "find_first_bit_mem_loop (w # ws) (Suc count) rax =
     (case bsf w of
        Some n \<Rightarrow> Some (Some (rax + n))
      | None \<Rightarrow> if count = 0 then Some None else find_first_bit_mem_loop ws count (rax + 64))"
| "find_first_bit_mem_loop _ _ rax = None"

definition find_first_bit_mem :: "64 word list \<Rightarrow> nat \<Rightarrow> nat option option" where
  "find_first_bit_mem ws count = find_first_bit_mem_loop ws count 0"

definition bm_test :: "64 word list \<Rightarrow> nat \<Rightarrow> bool" where
  "bm_test ws n = bit (ws ! (n div 64)) (n mod 64)"

definition set_and_test_bit_mem :: "64 word list \<Rightarrow> nat \<Rightarrow> (nat \<times> 64 word list) option" where
  "set_and_test_bit_mem ws b =
     (if b div 64 < length ws
      then Some (of_bool (bm_test ws b), ws[b div 64 := set_bit (b mod 64) (ws ! (b div 64))])
      else None)"

definition reset_and_test_bit_mem :: "64 word list \<Rightarrow> nat \<Rightarrow> (nat \<times> 64 word list) option" where
  "reset_and_test_bit_mem ws b =
     (if b div 64 < length ws
      then Some (of_bool (bm_test ws b), ws[b div 64 := unset_bit (b mod 64) (ws ! (b div 64))])
      else None)"

section \<open>Lemmas\<close>

lemma bit_word64_less: "bit (w::64 word) n \<Longrightarrow> n < 64"
  using bit_imp_le_length [of w n] by simp

lemma bsf_Some: "bsf w = Some n \<longleftrightarrow> bit w n \<and> (\<forall>m < n. \<not> bit w m)"
  using bit_word64_less [of w n] by (auto simp: bsf_def find_Some_iff)

lemma bsf_None: "bsf w = None \<longleftrightarrow> w = 0"
  by (auto simp: bsf_def find_None_iff intro!: bit_word_eqI dest: bit_word64_less)

lemma bsr_Some: "bsr w = Some n \<longleftrightarrow> bit w n \<and> (\<forall>m > n. \<not> bit w m)"
proof
  assume "bsr w = Some n"
  then obtain i where i: "i < 64" "bit w (63 - i)" "n = 63 - i" "\<forall>j < i. \<not> bit w (63 - j)"
    by (auto simp: bsr_def find_Some_iff rev_nth)
  have "\<not> bit w m" if "n < m" for m
  proof
    assume b: "bit w m"
    then have "m < 64" by (rule bit_word64_less)
    with i(3) that have "63 - m < i" "63 - (63 - m) = m" by auto
    then show False using i(4) b by metis
  qed
  then show "bit w n \<and> (\<forall>m > n. \<not> bit w m)" using i by simp
next
  assume a: "bit w n \<and> (\<forall>m > n. \<not> bit w m)"
  then have n: "n < 64" using bit_word64_less by blast
  show "bsr w = Some n" unfolding bsr_def find_Some_iff
    by (rule exI [of _ "63 - n"]) (use a n in \<open>auto simp: rev_nth\<close>)
qed

lemma bsr_None: "bsr w = None \<longleftrightarrow> w = 0"
  by (auto simp: bsr_def find_None_iff intro!: bit_word_eqI dest: bit_word64_less)

lemma bit_drop1: "bit (drop_bit (Suc 0) (w::64 word)) n \<longleftrightarrow> bit w (Suc n)"
  by (simp add: bit_drop_bit_eq)

lemma and_one_bit: "(w::64 word) AND 1 \<noteq> 0 \<longleftrightarrow> bit w 0"
  by (simp add: and_one_eq odd_iff_mod_2_eq_one bit_0)

lemma bsf_shift: "\<not> bit w 0 \<Longrightarrow> bsf w = map_option Suc (bsf (drop_bit (Suc 0) w))"
proof (cases "bsf (drop_bit (Suc 0) w)")
  case None
  assume "\<not> bit w 0"
  then have "w = 0" using None unfolding bsf_None
    by (intro bit_word_eqI) (metis bit_0_eq bit_drop1 bot_nat_0.not_eq_extremum gr0_implies_Suc bot_apply bot_bool_def)
  then show ?thesis by (simp add: bsf_None [THEN iffD2])
next
  case (Some n)
  assume "\<not> bit w 0"
  then have "bsf w = Some (Suc n)"
    using Some unfolding bsf_Some by (auto simp: bit_drop1 less_Suc_eq_0_disj)
  then show ?thesis using Some by simp
qed

lemma bsr_shift: "bsr w = (if w = 0 then None else if drop_bit (Suc 0) w = 0 then Some 0 else map_option Suc (bsr (drop_bit (Suc 0) w)))"
proof (cases "bsr (drop_bit (Suc 0) w)")
  case None
  then have d: "drop_bit (Suc 0) w = 0" by (simp add: bsr_None)
  then have z: "\<not> bit w (Suc m)" for m by (metis bit_drop1 bit_0_eq bot_apply bot_bool_def)
  show ?thesis
  proof (cases "w = 0")
    case False
    then have "bit w 0" using z by (metis bit_word_eqI bit_0_eq bot_apply bot_bool_def not0_implies_Suc)
    then have "bsr w = Some 0" unfolding bsr_Some using z by (metis gr0_implies_Suc)
    then show ?thesis using d False by simp
  qed (simp add: bsr_None)
next
  case (Some n)
  then have "bsr w = Some (Suc n)" unfolding bsr_Some bit_drop1 by (metis Suc_less_eq2)
  moreover have "drop_bit (Suc 0) w \<noteq> 0" "w \<noteq> 0" using Some calculation by (auto simp: bsr_None [THEN iffD2])
  ultimately show ?thesis using Some by simp
qed

lemma bit_find_lsf_loop_bsf:
  "bit_find_lsf_loop c w = (case bsf w of None \<Rightarrow> c | Some n \<Rightarrow> c + 1 + int n)"
proof (induction c w rule: bit_find_lsf_loop.induct)
  case (1 c w)
  consider "w = 0" | "w \<noteq> 0" "bit w 0" | "w \<noteq> 0" "\<not> bit w 0" by blast
  then show ?case
  proof cases
    case 1
    then show ?thesis by (simp add: bit_find_lsf_loop.simps bsf_None [THEN iffD2])
  next
    case 2
    then have "bsf w = Some 0" by (simp add: bsf_Some)
    then show ?thesis using 2 by (simp add: bit_find_lsf_loop.simps [of c w] and_one_bit)
  next
    case 3
    then have "bit_find_lsf_loop c w = bit_find_lsf_loop (c + 1) (drop_bit (Suc 0) w)"
      by (simp add: bit_find_lsf_loop.simps [of c w] and_one_bit)
    moreover have "bsf (drop_bit (Suc 0) w) \<noteq> None" using 3 bsf_shift [of w] bsf_None [of w] by auto
    ultimately show ?thesis using 1 3 bsf_shift [of w] by (auto simp: and_one_bit)
  qed
qed

lemma bit_find_msf_loop_bsr:
  "bit_find_msf_loop c w = (case bsr w of None \<Rightarrow> c | Some n \<Rightarrow> c + 1 + int n)"
proof (induction c w rule: bit_find_msf_loop.induct)
  case (1 c w)
  show ?case
  proof (cases "w = 0")
    case True
    then show ?thesis by (simp add: bit_find_msf_loop.simps bsr_None [THEN iffD2])
  next
    case False
    have "bit_find_msf_loop c w = (case bsr (drop_bit (Suc 0) w) of None \<Rightarrow> c + 1 | Some n \<Rightarrow> c + 1 + 1 + int n)"
      using 1 False by (simp add: bit_find_msf_loop.simps [of c w])
    then show ?thesis using False bsr_shift [of w] bsr_None [of "drop_bit (Suc 0) w"]
      by (auto split: option.splits)
  qed
qed

lemma count_active_bits_loop_card:
  "count_active_bits_loop bits p = bits + int (card {n. bit p n})"
proof (induction bits p rule: count_active_bits_loop.induct)
  case (1 bits p)
  show ?case
  proof (cases "p = 0")
    case True
    then show ?thesis by (simp add: count_active_bits_loop.simps)
  next
    case False
    have fin: "finite {n. bit (drop_bit (Suc 0) p) n}"
      by (rule finite_subset [of _ "{..<64}"]) (auto dest: bit_word64_less)
    have "n \<in> {n. bit p n} \<longleftrightarrow> n \<in> (if bit p 0 then {0} else {}) \<union> Suc ` {n. bit (drop_bit (Suc 0) p) n}" for n
      by (cases n) (simp_all add: bit_drop1 inj_image_mem_iff image_iff)
    then have "{n. bit p n} = (if bit p 0 then {0} else {}) \<union> Suc ` {n. bit (drop_bit (Suc 0) p) n}"
      by blast
    then have "card {n. bit p n} = of_bool (bit p 0) + card {n. bit (drop_bit (Suc 0) p) n}"
      using fin by (auto simp: card_image card_insert_if)
    then show ?thesis using 1 False
      by (simp add: count_active_bits_loop.simps [of bits p] and_one_bit)
  qed
qed

section \<open>The bitmap interface\<close>

text \<open>
  A bitmap of \<open>n\<close> bits: test, set and reset of one bit, and the search for the lowest set bit.
\<close>

locale bitmap =
  fixes wf :: "'b \<Rightarrow> nat \<Rightarrow> bool" and tst :: "'b \<Rightarrow> nat \<Rightarrow> bool"
    and sets :: "'b \<Rightarrow> nat \<Rightarrow> (nat \<times> 'b) option" and resets :: "'b \<Rightarrow> nat \<Rightarrow> (nat \<times> 'b) option"
    and ffs :: "'b \<Rightarrow> nat \<Rightarrow> nat option option"
  assumes sets_law: "wf b n \<Longrightarrow> k < n \<Longrightarrow>
      \<exists>b'. sets b k = Some (of_bool (tst b k), b') \<and> wf b' n \<and> (\<forall>j < n. tst b' j \<longleftrightarrow> j = k \<or> tst b j)"
    and resets_law: "wf b n \<Longrightarrow> k < n \<Longrightarrow>
      \<exists>b'. resets b k = Some (of_bool (tst b k), b') \<and> wf b' n \<and> (\<forall>j < n. tst b' j \<longleftrightarrow> j \<noteq> k \<and> tst b j)"
    and ffs_law: "wf b n \<Longrightarrow> \<exists>r. ffs b n = Some r \<and>
      (case r of None \<Rightarrow> \<forall>j < n. \<not> tst b j | Some k \<Rightarrow> k < n \<and> tst b k \<and> (\<forall>j < k. \<not> tst b j))"
begin

lemma ffs_least:
  assumes "wf b n" "k < n" "tst b k" "\<And>j. j < k \<Longrightarrow> \<not> tst b j"
  shows "ffs b n = Some (Some k)"
proof -
  obtain r where r: "ffs b n = Some r" "case r of None \<Rightarrow> \<forall>j < n. \<not> tst b j
      | Some k \<Rightarrow> k < n \<and> tst b k \<and> (\<forall>j < k. \<not> tst b j)"
    using ffs_law [OF assms(1)] by blast
  then obtain m where "r = Some m" "tst b m" "\<forall>j < m. \<not> tst b j" using assms(2,3) by (cases r) auto
  moreover from this have "m = k" using assms(3,4) by (metis linorder_neqE_nat)
  ultimately show ?thesis using r by simp
qed

lemma ffs_none: "wf b n \<Longrightarrow> (\<And>j. j < n \<Longrightarrow> \<not> tst b j) \<Longrightarrow> ffs b n = Some None"
proof -
  assume a: "wf b n" "\<And>j. j < n \<Longrightarrow> \<not> tst b j"
  obtain r where "ffs b n = Some r" "case r of None \<Rightarrow> \<forall>j < n. \<not> tst b j
      | Some k \<Rightarrow> k < n \<and> tst b k \<and> (\<forall>j < k. \<not> tst b j)"
    using ffs_law [OF a(1)] by blast
  then show ?thesis using a(2) by (cases r) auto
qed

lemma ffs_after_set:
  assumes "wf b n" "k < n"
  shows "\<exists>p b' m. sets b k = Some (p, b') \<and> ffs b' n = Some (Some m) \<and> m \<le> k"
proof -
  obtain b' where b': "sets b k = Some (of_bool (tst b k), b')" "wf b' n" "tst b' k"
    using sets_law [OF assms] assms(2) by auto
  obtain r where r: "ffs b' n = Some r" "case r of None \<Rightarrow> \<forall>j < n. \<not> tst b' j
      | Some k \<Rightarrow> k < n \<and> tst b' k \<and> (\<forall>j < k. \<not> tst b' j)"
    using ffs_law [OF b'(2)] by blast
  then obtain m where "r = Some m" "\<forall>j < m. \<not> tst b' j" using b'(3) assms(2) by (cases r) auto
  then show ?thesis using b' r by (metis not_less)
qed

end

definition bm_wf :: "64 word list \<Rightarrow> nat \<Rightarrow> bool" where
  "bm_wf ws n \<longleftrightarrow> ws \<noteq> [] \<and> n = 64 * length ws"

definition find_first_bit :: "64 word list \<Rightarrow> nat \<Rightarrow> nat option option" where
  "find_first_bit ws n = find_first_bit_mem ws (n div 64)"

lemma find_first_bit_mem_loop_law:
  assumes "ws \<noteq> []"
  shows "\<exists>r. find_first_bit_mem_loop ws (length ws) rax = Some r \<and>
     (case r of None \<Rightarrow> \<forall>j < 64 * length ws. \<not> bm_test ws j
      | Some k \<Rightarrow> rax \<le> k \<and> k - rax < 64 * length ws \<and> bm_test ws (k - rax) \<and> (\<forall>j < k - rax. \<not> bm_test ws j))"
  using assms
proof (induction ws arbitrary: rax)
  case (Cons w ws)
  have hd: "bm_test (w # ws) j \<longleftrightarrow> bit w j" if "j < 64" for j using that by (simp add: bm_test_def)
  have tl: "bm_test (w # ws) j \<longleftrightarrow> bm_test ws (j - 64)" if "\<not> j < 64" for j
    using that by (simp add: bm_test_def le_div_geq le_mod_geq)
  show ?case
  proof (cases "bsf w")
    case (Some n)
    then have "n < 64" "bit w n" "\<forall>m < n. \<not> bit w m" using bit_word64_less by (auto simp: bsf_Some)
    then show ?thesis using Some hd by simp
  next
    case None
    then have w: "w = 0" by (simp add: bsf_None)
    then have low: "\<not> bm_test (w # ws) j" if "j < 64" for j using hd that by simp
    show ?thesis
    proof (cases "ws = []")
      case True
      then show ?thesis using None low by simp
    next
      case False
      from Cons.IH [OF this, of "rax + 64"] obtain r where
        r: "find_first_bit_mem_loop ws (length ws) (rax + 64) = Some r"
        and rr: "case r of None \<Rightarrow> \<forall>j < 64 * length ws. \<not> bm_test ws j
          | Some k \<Rightarrow> rax + 64 \<le> k \<and> k - (rax + 64) < 64 * length ws \<and> bm_test ws (k - (rax + 64)) \<and>
              (\<forall>j < k - (rax + 64). \<not> bm_test ws j)" by blast
      have "find_first_bit_mem_loop (w # ws) (length (w # ws)) rax = Some r"
        using None r False by simp
      moreover have "\<not> bm_test (w # ws) j" if "j < 64 * length (w # ws)" "r = None" for j
        using low tl rr that by (cases "j < 64") auto
      moreover have "rax \<le> k \<and> k - rax < 64 * length (w # ws) \<and> bm_test (w # ws) (k - rax) \<and>
          (\<forall>j < k - rax. \<not> bm_test (w # ws) j)" if "r = Some k" for k
      proof -
        have k: "rax + 64 \<le> k" "k - (rax + 64) < 64 * length ws" "bm_test ws (k - (rax + 64))"
          "\<forall>j < k - (rax + 64). \<not> bm_test ws j" using rr that by auto
        have "\<not> bm_test (w # ws) j" if "j < k - rax" for j
          using low tl k(4) that by (cases "j < 64") auto
        moreover have "bm_test (w # ws) (k - rax)" using tl [of "k - rax"] k by (simp add: diff_diff_add)
        ultimately show ?thesis using k by auto
      qed
      ultimately show ?thesis by (cases r) auto
    qed
  qed
qed simp

lemma bm_test_update:
  assumes "k div 64 < length ws"
  shows "bm_test (ws[k div 64 := f (ws ! (k div 64))]) j \<longleftrightarrow>
     (if j div 64 = k div 64 then bit (f (ws ! (k div 64))) (j mod 64) else bm_test ws j)"
  using assms by (auto simp: bm_test_def)

lemma divmod_eq: "(j::nat) div 64 = k div 64 \<Longrightarrow> j mod 64 = k mod 64 \<longleftrightarrow> j = k"
  by (metis div_mult_mod_eq)

interpretation wbm: bitmap bm_wf bm_test set_and_test_bit_mem reset_and_test_bit_mem find_first_bit
proof
  fix b :: "64 word list" and n k :: nat
  assume wf: "bm_wf b n"
  show "\<exists>r. find_first_bit b n = Some r \<and>
      (case r of None \<Rightarrow> \<forall>j < n. \<not> bm_test b j | Some k \<Rightarrow> k < n \<and> bm_test b k \<and> (\<forall>j < k. \<not> bm_test b j))"
    using find_first_bit_mem_loop_law [of b 0] wf
    by (simp add: find_first_bit_def find_first_bit_mem_def bm_wf_def cong: option.case_cong)
  assume "k < n"
  then have k: "k div 64 < length b" using wf by (auto simp: bm_wf_def)
  show "\<exists>b'. set_and_test_bit_mem b k = Some (of_bool (bm_test b k), b') \<and> bm_wf b' n \<and>
      (\<forall>j < n. bm_test b' j \<longleftrightarrow> j = k \<or> bm_test b j)"
    using wf k divmod_eq by (auto simp: set_and_test_bit_mem_def bm_wf_def bm_test_update bit_simps)
      (auto simp: bm_test_def)
  show "\<exists>b'. reset_and_test_bit_mem b k = Some (of_bool (bm_test b k), b') \<and> bm_wf b' n \<and>
      (\<forall>j < n. bm_test b' j \<longleftrightarrow> j \<noteq> k \<and> bm_test b j)"
    using wf k divmod_eq by (auto simp: reset_and_test_bit_mem_def bm_wf_def bm_test_update bit_simps)
      (auto simp: bm_test_def)
qed

section \<open>Properties\<close>

text \<open>
  C29. The portable bit searches and the amd64 instructions agree on every word: the loops of
  the generic header return what \<^verbatim>\<open>bsf\<close> and \<^verbatim>\<open>bsr\<close> leave in the register, including \<open>-1\<close> for the
  zero word, and the counting loop returns the number of set bits.
\<close>

theorem bit_scan_loops_match_instructions:
  "bit_find_lsf w = arch_bit_find_lsf w \<and> bit_find_msf w = arch_bit_find_msf w \<and>
   bit_find_lsf (NOT w) = arch_zero_bit_find_lsf w \<and> bit_find_msf (NOT w) = arch_zero_bit_find_msf w \<and>
   count_active_bits w = int (card {n. bit w n})"
  by (simp add: bit_find_lsf_def bit_find_msf_def bit_find_lsf_loop_bsf bit_find_msf_loop_bsr
      arch_bit_find_lsf_def arch_bit_find_msf_def arch_zero_bit_find_lsf_def arch_zero_bit_find_msf_def
      count_active_bits_def count_active_bits_loop_card split: option.splits)

text \<open>
  The test-and-clear operation complements: on a bit that is already clear it returns 0 and
  sets the bit.
\<close>

lemma test_and_clear_sets_clear_bit:
  "b < 64 \<Longrightarrow> \<not> bit w b \<Longrightarrow>
     fst (arch_bit_test_and_clear w b) = 0 \<and> bit (snd (arch_bit_test_and_clear w b)) b"
  by (simp add: arch_bit_test_and_clear_def bit_simps)

end
