(* ===== verification/Idx_Allocator.thy ===== *)
theory Idx_Allocator
  imports Bitwise
begin

text \<open>
  The index allocator of \<^verbatim>\<open>kernel/ds/idx_allocator.c\<close>: a bitmap of identifiers with an optional
  first-level bitmap that marks groups of \<open>WORDS_PER_ITEM\<close> words without a free identifier.
  A null \<^verbatim>\<open>ids_bmap\<close> is the single-level mode for small sets. An access outside a bitmap and a
  failed assertion are the fault \<open>None\<close>.
\<close>

section \<open>State and operations\<close>

record idx_allocator =
  ida_size :: nat
  max_id :: nat
  main_bmap :: "64 word list"
  ids_bmap :: "64 word list option"

definition BYTES_PER_ITEM :: nat where "BYTES_PER_ITEM = 64"

definition WORDS_PER_ITEM :: nat where "WORDS_PER_ITEM = BYTES_PER_ITEM div 8"

definition IDX_INVAL :: nat where "IDX_INVAL = 2 ^ 64 - 1"

definition MIN_IDA_SIZE :: nat where "MIN_IDA_SIZE = WORDS_PER_ITEM * 8"

definition PAGE_SIZE :: nat where "PAGE_SIZE = 4096"

definition SLAB_OBJECT_MAX_SIZE :: nat where "SLAB_OBJECT_MAX_SIZE = 2 ^ 10"

definition is_powerof2 :: "64 word \<Rightarrow> bool" where
  "is_powerof2 num \<longleftrightarrow> num AND NOT (num - 1) = num"

text \<open>The constant shifted is an \<^verbatim>\<open>int\<close>: a shift into its sign bit is undefined.\<close>

definition round_up_pow2 :: "nat \<Rightarrow> nat option" where
  "round_up_pow2 x =
     (if is_powerof2 (of_nat x) then Some x
      else let k = nat (bit_find_msf (of_nat x) + 1) in if k < 31 then Some (2 ^ k) else None)"

definition get_main_bmap_size :: "idx_allocator \<Rightarrow> nat option" where
  "get_main_bmap_size ida =
     (if ids_bmap ida \<noteq> None then round_up_pow2 (ida_size ida * 8 div BYTES_PER_ITEM)
      else Some (ida_size ida))"

definition word_at :: "64 word list \<Rightarrow> nat \<Rightarrow> 64 word option" where
  "word_at ws i = (if i < length ws then Some (ws ! i) else None)"

text \<open>The \<^verbatim>\<open>while\<close> loop over the first-level bitmap: the new \<open>i\<close>, \<open>fnfi\<close> and \<open>main_offs\<close>.\<close>

function scan_main :: "64 word list \<Rightarrow> nat \<Rightarrow> nat \<Rightarrow> int \<Rightarrow> nat \<Rightarrow> (nat \<times> int \<times> nat) option" where
  "scan_main bm main_sz i fnfi main_offs =
     (if i < main_sz
      then do { w \<leftarrow> word_at bm i;
                let fnfi = arch_zero_bit_find_lsf w
                in if 0 \<le> fnfi
                   then Some (i, fnfi * int WORDS_PER_ITEM + int (i * WORDS_PER_ITEM * 64), i)
                   else scan_main bm main_sz (i + 1) fnfi main_offs }
      else Some (i, fnfi, main_offs))"
  by auto
termination
  by (relation "measure (\<lambda>(bm, main_sz, i, _). main_sz - i)") auto

text \<open>The \<^verbatim>\<open>for\<close> loop over the words of one group: the word and the bit found.\<close>

fun scan_group :: "64 word list \<Rightarrow> nat \<Rightarrow> nat \<Rightarrow> (nat \<times> nat) option option" where
  "scan_group ids j 0 = Some None"
| "scan_group ids j (Suc n) =
     do { w \<leftarrow> word_at ids j;
          let res_id = arch_zero_bit_find_lsf w
          in if res_id < 0 then scan_group ids (j + 1) n else Some (Some (j, nat res_id)) }"

text \<open>Taking the bit that was found, unless it is past the last identifier.\<close>

definition take_id :: "idx_allocator \<Rightarrow> 64 word list \<Rightarrow> nat \<Rightarrow> nat \<Rightarrow> nat \<times> idx_allocator" where
  "take_id ida ids j res_id =
     (let ids' = ids[j := arch_bit_set (ids ! j) res_id];
          id = res_id + j * 64
      in if id \<ge> max_id ida
         then (IDX_INVAL, ida\<lparr>ids_bmap := Some (ids'[j := arch_bit_clear (ids' ! j) res_id])\<rparr>)
         else (id, ida\<lparr>ids_bmap := Some ids'\<rparr>))"

definition mark_group :: "64 word list \<Rightarrow> int \<Rightarrow> nat \<Rightarrow> 64 word list option" where
  "mark_group bm fnfi main_offs =
     do { m \<leftarrow> word_at bm main_offs;
          Some (bm[main_offs := arch_bit_set m
            (nat ((fnfi - int (main_offs * WORDS_PER_ITEM * 64)) div int WORDS_PER_ITEM))]) }"

partial_function (option) idx_allocate_loop ::
  "idx_allocator \<Rightarrow> 64 word list \<Rightarrow> nat \<Rightarrow> nat \<Rightarrow> int \<Rightarrow> nat \<Rightarrow> (nat \<times> idx_allocator) option" where
  "idx_allocate_loop ida ids main_sz i fnfi main_offs =
     do { (i, fnfi, main_offs) \<leftarrow> scan_main (main_bmap ida) main_sz i fnfi main_offs;
          if 0 \<le> fnfi \<and> fnfi < int (ida_size ida)
          then do { r \<leftarrow> scan_group ids (nat fnfi) WORDS_PER_ITEM;
                    case r of
                      Some (j, res_id) \<Rightarrow> Some (take_id ida ids j res_id)
                    | None \<Rightarrow>
                        do { main' \<leftarrow> mark_group (main_bmap ida) fnfi main_offs;
                             m \<leftarrow> word_at main' i;
                             idx_allocate_loop (ida\<lparr>main_bmap := main'\<rparr>) ids main_sz
                               (if m = - 1 then i + 1 else i) fnfi main_offs } }
          else Some (IDX_INVAL, ida) }"

text \<open>The single-level loop.\<close>

function idx_allocate_single :: "idx_allocator \<Rightarrow> nat \<Rightarrow> nat \<Rightarrow> (nat \<times> idx_allocator) option" where
  "idx_allocate_single ida main_sz i =
     (if i < main_sz
      then do { w \<leftarrow> word_at (main_bmap ida) i;
                let fnfi = arch_zero_bit_find_lsf w
                in if 0 \<le> fnfi
                   then (let bm = (main_bmap ida)[i := arch_bit_set w (nat fnfi)];
                             id = nat fnfi + i * 64
                         in if id \<ge> max_id ida
                            then Some (IDX_INVAL, ida\<lparr>main_bmap := bm[i := arch_bit_clear (bm ! i) (nat fnfi)]\<rparr>)
                            else Some (id, ida\<lparr>main_bmap := bm\<rparr>))
                   else idx_allocate_single ida main_sz (i + 1) }
      else Some (IDX_INVAL, ida))"
  by auto
termination
  by (relation "measure (\<lambda>(ida, main_sz, i). main_sz - i)") auto

declare scan_main.simps [simp del] idx_allocate_single.simps [simp del]

definition idx_allocate :: "idx_allocator \<Rightarrow> (nat \<times> idx_allocator) option" where
  "idx_allocate ida =
     do { sz \<leftarrow> get_main_bmap_size ida;
          let main_sz = sz div 8;
          case ids_bmap ida of
            Some ids \<Rightarrow> idx_allocate_loop ida ids main_sz 0 0 0
          | None \<Rightarrow> idx_allocate_single ida main_sz 0 }"

definition idx_reserve :: "idx_allocator \<Rightarrow> nat \<Rightarrow> idx_allocator option" where
  "idx_reserve ida idx =
     (if idx < max_id ida
      then (let start_id = idx div 64; bitno = idx - start_id * 64
            in case ids_bmap ida of
                 Some ids \<Rightarrow> do { w \<leftarrow> word_at ids start_id;
                                  Some (ida\<lparr>ids_bmap := Some (ids[start_id := snd (arch_bit_test_and_set w bitno)])\<rparr>) }
               | None \<Rightarrow> do { w \<leftarrow> word_at (main_bmap ida) start_id;
                              Some (ida\<lparr>main_bmap := (main_bmap ida)[start_id := snd (arch_bit_test_and_set w bitno)]\<rparr>) })
      else None)"

definition idx_free :: "idx_allocator \<Rightarrow> nat \<Rightarrow> idx_allocator option" where
  "idx_free ida idx =
     (if idx < max_id ida
      then (let start_id = idx div 64; bitno = idx - start_id * 64
            in case ids_bmap ida of
                 Some ids \<Rightarrow>
                   (let main_id = start_id div WORDS_PER_ITEM;
                        main_bitno = start_id - main_id * WORDS_PER_ITEM
                    in do { m \<leftarrow> word_at (main_bmap ida) main_id;
                            w \<leftarrow> word_at ids start_id;
                            Some (ida\<lparr>main_bmap := (main_bmap ida)[main_id := arch_bit_clear m main_bitno],
                                      ids_bmap := Some (ids[start_id := snd (arch_bit_test_and_clear w bitno)])\<rparr>) })
               | None \<Rightarrow> do { w \<leftarrow> word_at (main_bmap ida) start_id;
                              Some (ida\<lparr>main_bmap := (main_bmap ida)[start_id := snd (arch_bit_test_and_clear w bitno)]\<rparr>) })
      else None)"

text \<open>
  Initialisation. The allocators of pages and of slab memory are outside this component: the
  arguments \<open>pages\<close> and \<open>mem\<close> say whether a request for so many pages or bytes succeeds. The
  memory is cleared by \<^verbatim>\<open>AF_ZERO\<close> or \<^verbatim>\<open>memset\<close>.
\<close>

definition idx_allocator_init ::
  "(nat \<Rightarrow> bool) \<Rightarrow> (nat \<Rightarrow> bool) \<Rightarrow> nat \<Rightarrow> (int \<times> idx_allocator) option" where
  "idx_allocator_init pages mem idx_max =
     do { sz \<leftarrow> round_up_pow2 idx_max;
          let bmap_sz = sz div 8;
          let size = bmap_sz div 8;
          let ida = \<lparr>ida_size = size, max_id = 0, main_bmap = [], ids_bmap = None\<rparr>;
          r \<leftarrow> (if size \<ge> MIN_IDA_SIZE
                then if bmap_sz \<ge> PAGE_SIZE \<or> bmap_sz > SLAB_OBJECT_MAX_SIZE
                     then Some (if pages (bmap_sz div PAGE_SIZE)
                                then Inr (ida\<lparr>ids_bmap := Some (replicate (bmap_sz div PAGE_SIZE * 512) 0)\<rparr>)
                                else Inl (ERR ENOMEM, ida))
                     else if bmap_sz < SLAB_OBJECT_MAX_SIZE
                          then Some (if mem bmap_sz
                                     then Inr (ida\<lparr>ids_bmap := Some (replicate (bmap_sz div 8) 0)\<rparr>)
                                     else Inl (ERR ENOMEM, ida))
                          else None
                else Some (Inr (ida\<lparr>ida_size := (if size > 0 then size * 8 else 8)\<rparr>)));
          case r of
            Inl e \<Rightarrow> Some e
          | Inr ida \<Rightarrow>
              do { msz \<leftarrow> get_main_bmap_size ida;
                   Some (if mem msz
                         then (0, ida\<lparr>main_bmap := replicate (msz div 8) 0, max_id := idx_max\<rparr>)
                         else (ERR ENOMEM, ida)) } }"

section \<open>Searching the bitmaps\<close>

lemma zero_lsf_cases:
  obtains "arch_zero_bit_find_lsf w = - 1" "w = - 1"
  | n where "arch_zero_bit_find_lsf w = int n" "n < 64" "\<not> bit w n" "\<And>m. m < n \<Longrightarrow> bit w m"
proof (cases "bsf (NOT w)")
  case None
  then have "NOT w = 0" by (simp add: bsf_None)
  then have "w = - 1" by (metis bit.double_compl bit.compl_zero)
  then show thesis using that(1) None by (simp add: arch_zero_bit_find_lsf_def)
next
  case (Some n)
  then have n: "bit (NOT w) n" "\<And>m. m < n \<Longrightarrow> \<not> bit (NOT w) m" by (auto simp: bsf_Some)
  then have "n < 64" by (simp add: bit_word64_less)
  moreover have "bit w m" if "m < n" for m using n(2) [OF that] \<open>n < 64\<close> that by (simp add: bit_simps)
  ultimately show thesis using that(2) [of n] Some n(1) by (simp add: arch_zero_bit_find_lsf_def bit_simps)
qed

lemma bm_test_at: "b < 64 \<Longrightarrow> bm_test ws (64 * j + b) = bit (ws ! j) b"
  by (simp add: bm_test_def)

lemma bm_test_word: "bm_test ws n \<longleftrightarrow> bit (ws ! (n div 64)) (n mod 64)"
  by (simp add: bm_test_def)

lemma bm_test_set:
  assumes "j < length ws" "b < 64"
  shows "bm_test (ws[j := arch_bit_set (ws ! j) b]) n \<longleftrightarrow> n = 64 * j + b \<or> bm_test ws n"
proof -
  have "n div 64 = j \<and> n mod 64 = b \<longleftrightarrow> n = 64 * j + b" using assms(2) by auto
  then show ?thesis using assms
    by (cases "n div 64 = j") (auto simp: bm_test_def arch_bit_set_def bit_simps)
qed

lemma set_clear_id:
  assumes "j < length ws" "\<not> bit (ws ! j) b"
  shows "ws[j := arch_bit_set (ws ! j) b, j := arch_bit_clear (ws[j := arch_bit_set (ws ! j) b] ! j) b] = ws"
proof -
  have "unset_bit b (set_bit b (ws ! j)) = ws ! j"
    using assms(2) by (intro bit_word_eqI) (auto simp: bit_simps)
  then show ?thesis using assms(1) by (simp add: arch_bit_set_def arch_bit_clear_def)
qed

lemma within_word:
  assumes "64 * i \<le> (h::nat)" "h < 64 * i + n" "n \<le> 64"
  shows "h div 64 = i \<and> h mod 64 < n"
proof -
  obtain d where "h = 64 * i + d" using assms(1) by (metis le_Suc_ex)
  then show ?thesis using assms by simp
qed

lemma scan_main_spec:
  assumes "i * 64 \<le> g0" "g0 < 64 * length bm" "\<not> bm_test bm g0"
  obtains g where "scan_main bm (length bm) i f mo = Some (g div 64, 8 * int g, g div 64)"
    "i * 64 \<le> g" "g \<le> g0" "\<not> bm_test bm g" "\<And>h. i * 64 \<le> h \<Longrightarrow> h < g \<Longrightarrow> bm_test bm h"
  using assms
proof (induction bm "length bm" i f mo arbitrary: thesis rule: scan_main.induct)
  case (1 bm i f mo)
  have i: "i < length bm" using "1.prems" by auto
  show ?case
  proof (cases rule: zero_lsf_cases [of "bm ! i"])
    case 1
    have up: "Suc i * 64 \<le> g0"
    proof (rule ccontr)
      assume "\<not> Suc i * 64 \<le> g0"
      then have "g0 div 64 = i" using "1.prems"(2) by auto
      then show False using "1.prems"(4) \<open>bm ! i = - 1\<close> by (simp add: bm_test_def)
    qed
    obtain g where g: "scan_main bm (length bm) (i + 1) (- 1) mo = Some (g div 64, 8 * int g, g div 64)"
      "(i + 1) * 64 \<le> g" "g \<le> g0" "\<not> bm_test bm g" "\<And>h. (i + 1) * 64 \<le> h \<Longrightarrow> h < g \<Longrightarrow> bm_test bm h"
      using "1.hyps" [of "bm ! i" "- 1"] i 1 up "1.prems"(3,4) by (auto simp: word_at_def)
    have "bm_test bm h" if "i * 64 \<le> h" "h < g" for h
    proof (cases "(i + 1) * 64 \<le> h")
      case False
      then have "h div 64 = i" using that by auto
      then show ?thesis using \<open>bm ! i = - 1\<close> by (simp add: bm_test_def)
    qed (use g(5) that in blast)
    then show ?thesis using "1.prems"(1) [of g] g i 1
      by (auto simp: scan_main.simps [of bm "length bm" i] word_at_def)
  next
    case (2 n)
    have g: "\<not> bm_test bm (64 * i + n)" using 2 by (simp add: bm_test_at)
    have low: "bm_test bm h" if "i * 64 \<le> h" "h < 64 * i + n" for h
    proof -
      have "h div 64 = i" "h mod 64 < n" using within_word [of i h n] that 2(2) by auto
      then show ?thesis using 2(4) by (simp add: bm_test_def)
    qed
    have "64 * i + n \<le> g0" using low "1.prems"(2,4) by (meson not_le)
    then show ?thesis using "1.prems"(1) [of "64 * i + n"] g low i 2
      by (simp add: scan_main.simps [of bm "length bm" i] word_at_def WORDS_PER_ITEM_def BYTES_PER_ITEM_def algebra_simps)
  qed
qed

lemma scan_group_spec:
  assumes "j + n \<le> length ids"
  obtains "scan_group ids j n = Some None" "\<And>m. 64 * j \<le> m \<Longrightarrow> m < 64 * (j + n) \<Longrightarrow> bm_test ids m"
  | j' b where "scan_group ids j n = Some (Some (j', b))" "j \<le> j'" "j' < j + n" "b < 64"
      "\<not> bit (ids ! j') b" "\<And>m. 64 * j \<le> m \<Longrightarrow> m < 64 * j' + b \<Longrightarrow> bm_test ids m"
  using assms
proof (induction n arbitrary: j thesis)
  case 0
  then show ?case by simp
next
  case (Suc n)
  show ?case
  proof (cases rule: zero_lsf_cases [of "ids ! j"])
    case 1
    have full: "bm_test ids m" if "64 * j \<le> m" "m < 64 * (j + 1)" for m
    proof -
      have "m div 64 = j" using that by auto
      then show ?thesis using 1 by (simp add: bm_test_def)
    qed
    have eq: "scan_group ids j (Suc n) = scan_group ids (j + 1) n"
      using 1 Suc.prems(3) by (simp add: word_at_def)
    show ?thesis
    proof (rule Suc.IH [of "j + 1"])
      assume "scan_group ids (j + 1) n = Some None"
        "\<And>m. 64 * (j + 1) \<le> m \<Longrightarrow> m < 64 * (j + 1 + n) \<Longrightarrow> bm_test ids m"
      then show ?thesis using Suc.prems(1) eq full by (metis add.assoc add_Suc_right not_less plus_1_eq_Suc)
    next
      fix j' b assume a: "scan_group ids (j + 1) n = Some (Some (j', b))" "j + 1 \<le> j'" "j' < j + 1 + n" "b < 64"
        "\<not> bit (ids ! j') b" "\<And>m. 64 * (j + 1) \<le> m \<Longrightarrow> m < 64 * j' + b \<Longrightarrow> bm_test ids m"
      have "bm_test ids m" if "64 * j \<le> m" "m < 64 * j' + b" for m
        using full [OF that(1)] a(6) [of m] that(2) by (meson not_less)
      then show ?thesis using Suc.prems(2) [of j' b] a eq by simp
    qed (use Suc.prems(3) in simp)
  next
    case (2 b)
    have "bm_test ids m" if "64 * j \<le> m" "m < 64 * j + b" for m
    proof -
      have "m div 64 = j" "m mod 64 < b" using within_word [of j m b] that 2(2) by auto
      then show ?thesis using 2(4) by (simp add: bm_test_def)
    qed
    then show ?thesis using Suc.prems(2) [of j b] 2 Suc.prems(3) by (simp add: word_at_def)
  qed
qed

section \<open>The set of identifiers in use\<close>

definition idx_used :: "idx_allocator \<Rightarrow> nat \<Rightarrow> bool" where
  "idx_used ida n = (case ids_bmap ida of Some ids \<Rightarrow> bm_test ids n | None \<Rightarrow> bm_test (main_bmap ida) n)"

text \<open>
  The two-level representation: a set bit of the first-level bitmap belongs to a group, and
  that group has no free identifier. There are eight times as many first-level bits as groups.
\<close>

definition groups_ok :: "64 word list \<Rightarrow> 64 word list \<Rightarrow> nat \<Rightarrow> bool" where
  "groups_ok bm ids sz \<longleftrightarrow> length ids = sz \<and> 64 * length bm = sz \<and> 0 < sz \<and>
     (\<forall>g < 64 * length bm. bm_test bm g \<longrightarrow>
        g < sz div 8 \<and> (\<forall>n. 512 * g \<le> n \<longrightarrow> n < 512 * (g + 1) \<longrightarrow> bm_test ids n))"

definition ida_ok :: "idx_allocator \<Rightarrow> bool" where
  "ida_ok ida \<longleftrightarrow> max_id ida < IDX_INVAL \<and> max_id ida \<le> 64 * ida_size ida \<and>
     (case ids_bmap ida of
        Some ids \<Rightarrow> groups_ok (main_bmap ida) ids (ida_size ida) \<and> (\<exists>k. 6 \<le> k \<and> k \<le> 30 \<and> ida_size ida = 2 ^ k)
      | None \<Rightarrow> ida_size ida = 8 * length (main_bmap ida) \<and> max_id ida \<le> 64 * length (main_bmap ida))"

text \<open>What an allocation promises: the least free identifier, or none when all are in use.\<close>

definition alloc_least :: "idx_allocator \<Rightarrow> nat \<Rightarrow> idx_allocator \<Rightarrow> bool" where
  "alloc_least ida r ida' \<longleftrightarrow>
     (if r = IDX_INVAL then (\<forall>n < max_id ida. idx_used ida n) \<and> (\<forall>n. idx_used ida' n = idx_used ida n)
      else r < max_id ida \<and> \<not> idx_used ida r \<and> (\<forall>n < r. idx_used ida n) \<and>
           (\<forall>n. idx_used ida' n \<longleftrightarrow> n = r \<or> idx_used ida n))"

lemma groups_ok_mark:
  assumes "groups_ok bm ids sz" "g < sz div 8"
    and "\<And>n. 512 * g \<le> n \<Longrightarrow> n < 512 * (g + 1) \<Longrightarrow> bm_test ids n"
  shows "groups_ok (bm[g div 64 := arch_bit_set (bm ! (g div 64)) (g mod 64)]) ids sz"
proof -
  have "g div 64 < length bm" using assms(1,2) by (auto simp: groups_ok_def)
  then show ?thesis using assms by (auto simp: groups_ok_def bm_test_set mult_div_mod_eq)
qed

lemma groups_ok_set:
  assumes "groups_ok bm ids sz" "j < sz" "b < 64"
  shows "groups_ok bm (ids[j := arch_bit_set (ids ! j) b]) sz"
  using assms by (auto simp: groups_ok_def bm_test_set)

definition alloc_result :: "idx_allocator \<Rightarrow> nat \<Rightarrow> idx_allocator \<Rightarrow> bool" where
  "alloc_result ida r ida' \<longleftrightarrow> alloc_least ida r ida' \<and>
     (\<exists>ids'. ids_bmap ida' = Some ids' \<and> groups_ok (main_bmap ida') ids' (ida_size ida')) \<and>
     ida_size ida' = ida_size ida \<and> max_id ida' = max_id ida"

lemma alloc_result_main:
  "ids_bmap ida = Some ids \<Longrightarrow> alloc_result (ida\<lparr>main_bmap := bm\<rparr>) r ida' = alloc_result ida r ida'"
  by (simp add: alloc_result_def alloc_least_def idx_used_def)

lemma take_id_spec:
  assumes ok: "groups_ok (main_bmap ida) ids (ida_size ida)" "ids_bmap ida = Some ids"
    and m: "max_id ida < IDX_INVAL" and j: "j < ida_size ida" "b < 64" "\<not> bit (ids ! j) b"
    and low: "\<And>m. m < 64 * j + b \<Longrightarrow> bm_test ids m"
  shows "\<exists>r ida'. take_id ida ids j b = (r, ida') \<and> alloc_result ida r ida'"
proof (cases "max_id ida \<le> b + j * 64")
  case True
  have jl: "j < length ids" using ok j by (simp add: groups_ok_def)
  have "take_id ida ids j b = (IDX_INVAL, ida\<lparr>ids_bmap := Some ids\<rparr>)"
    using True set_clear_id [OF jl j(3)] by (simp add: take_id_def Let_def)
  moreover have "bm_test ids n" if "n < max_id ida" for n using low [of n] True that by simp
  ultimately show ?thesis using ok
    by (auto simp: alloc_result_def alloc_least_def idx_used_def)
next
  case False
  have jl: "j < length ids" using ok j by (simp add: groups_ok_def)
  let ?r = "64 * j + b" and ?ida = "ida\<lparr>ids_bmap := Some (ids[j := arch_bit_set (ids ! j) b])\<rparr>"
  have "take_id ida ids j b = (?r, ?ida)" using False by (simp add: take_id_def Let_def)
  moreover have "alloc_least ida ?r ?ida"
    using False m low ok(2) bm_test_at [OF j(2), of ids j] j(3)
    by (simp add: alloc_least_def idx_used_def bm_test_set [OF jl j(2)])
  ultimately show ?thesis using groups_ok_set [OF ok(1) j(1,2)] by (simp add: alloc_result_def)
qed

lemma mark_group_eq:
  assumes "g div 64 < length bm"
  shows "mark_group bm (8 * int g) (g div 64) = Some (bm[g div 64 := arch_bit_set (bm ! (g div 64)) (g mod 64)])"
proof -
  have "g = 64 * (g div 64) + g mod 64" by simp
  then have "int g = 64 * int (g div 64) + int (g mod 64)" by (metis of_nat_add of_nat_mult of_nat_numeral)
  then have "(8 * int g - int (g div 64 * 8 * 64)) div 8 = int (g mod 64)" by simp
  then show ?thesis using assms
    by (simp add: mark_group_def word_at_def WORDS_PER_ITEM_def BYTES_PER_ITEM_def)
qed

text \<open>The first-level search: the first group that is not marked, with all earlier groups full.\<close>

lemma scan_main_group:
  assumes ok: "groups_ok bm ids sz" and low: "\<And>h. h < 64 * i \<Longrightarrow> bm_test bm h"
  obtains g where "scan_main bm (length bm) i f mo = Some (g div 64, 8 * int g, g div 64)"
    "g \<le> sz div 8" "\<not> bm_test bm g" "\<And>h. h < g \<Longrightarrow> bm_test bm h" "\<And>n. n < 512 * g \<Longrightarrow> bm_test ids n"
proof -
  have len: "64 * length bm = sz" "0 < sz" "sz div 8 < sz" using ok by (auto simp: groups_ok_def)
  have "\<not> bm_test bm (sz div 8)" using ok len unfolding groups_ok_def by (metis less_irrefl)
  moreover from this have "i * 64 \<le> sz div 8" using low [of "sz div 8"] by (metis mult.commute not_le)
  ultimately obtain g where g: "scan_main bm (length bm) i f mo = Some (g div 64, 8 * int g, g div 64)"
    "i * 64 \<le> g" "g \<le> sz div 8" "\<not> bm_test bm g" "\<And>h. i * 64 \<le> h \<Longrightarrow> h < g \<Longrightarrow> bm_test bm h"
    using scan_main_spec [of i "sz div 8" bm f mo] len by (metis (no_types))
  have below: "bm_test bm h" if "h < g" for h
    using g(5) low that by (metis mult.commute not_le)
  have "bm_test ids n" if "n < 512 * g" for n
  proof -
    have "n div 512 < g" using that by auto
    then have "bm_test bm (n div 512)" "n div 512 < 64 * length bm" using below g(3) len by auto
    moreover have "512 * (n div 512) \<le> n" "n < 512 * (n div 512 + 1)" by auto
    ultimately show ?thesis using ok unfolding groups_ok_def by blast
  qed
  then show thesis using that g below by blast
qed

lemma words_full_upto:
  assumes "\<And>h. h < 64 * i \<Longrightarrow> bm_test bm h" "bm ! i = - 1" "h < 64 * (i + 1)"
  shows "bm_test bm h"
proof (cases "h < 64 * i")
  case False
  then have "h div 64 = i" using assms(3) by auto
  then show ?thesis using assms(2) by (simp add: bm_test_def)
qed (use assms(1) in blast)

lemma idx_allocate_loop_spec:
  assumes "groups_ok (main_bmap ida) ids (ida_size ida)" "ids_bmap ida = Some ids"
    and "max_id ida < IDX_INVAL" "max_id ida \<le> 64 * ida_size ida"
    and "\<And>h. h < 64 * i \<Longrightarrow> bm_test (main_bmap ida) h"
  shows "\<exists>r ida'. idx_allocate_loop ida ids (length (main_bmap ida)) i f mo = Some (r, ida') \<and>
     alloc_result ida r ida'"
  using assms
proof (induction "card {g. g < ida_size ida \<and> \<not> bm_test (main_bmap ida) g}" arbitrary: ida i f mo rule: less_induct)
  case less
  let ?bm = "main_bmap ida" and ?sz = "ida_size ida"
  note ok = less.prems(1)
  have len: "length ids = ?sz" "64 * length ?bm = ?sz" using ok by (auto simp: groups_ok_def)
  obtain g where g: "scan_main ?bm (length ?bm) i f mo = Some (g div 64, 8 * int g, g div 64)"
    "g \<le> ?sz div 8" "\<not> bm_test ?bm g" "\<And>h. h < g \<Longrightarrow> bm_test ?bm h"
    and used: "\<And>n. n < 512 * g \<Longrightarrow> bm_test ids n"
    using scan_main_group [OF ok less.prems(5)] by (metis (no_types))
  note step = idx_allocate_loop.simps [of ida ids "length ?bm" i f mo]
  show ?case
  proof (cases "g < ?sz div 8")
    case False
    moreover have e8: "8 * (?sz div 8) = ?sz" using len(2) by presburger
    ultimately have "\<forall>n < max_id ida. bm_test ids n" using used g(2) less.prems(4) by auto
    moreover have "\<not> 8 * int g < int ?sz" using False e8 by linarith
    then have "idx_allocate_loop ida ids (length ?bm) i f mo = Some (IDX_INVAL, ida)"
      using step g by simp
    ultimately show ?thesis using less.prems by (auto simp: alloc_result_def alloc_least_def idx_used_def)
  next
    case True
    have sz8: "8 * g + 8 \<le> length ids" and gl: "g div 64 < length ?bm" using True len by auto
    have in_sz: "8 * int g < int ?sz" "nat (8 * int g) = 8 * g" using True by linarith+
    note eqs = step g(1) in_sz WORDS_PER_ITEM_def BYTES_PER_ITEM_def
    let ?bm' = "?bm[g div 64 := arch_bit_set (?bm ! (g div 64)) (g mod 64)]"
    let ?i = "if ?bm' ! (g div 64) = - 1 then g div 64 + 1 else g div 64"
    have bm': "bm_test ?bm' h \<longleftrightarrow> h = g \<or> bm_test ?bm h" for h using bm_test_set [OF gl, of "g mod 64"] by simp
    show ?thesis
    proof (rule scan_group_spec [OF sz8])
      fix j b assume "scan_group ids (8 * g) 8 = Some (Some (j, b))" and jb: "8 * g \<le> j" "j < 8 * g + 8" "b < 64"
        "\<not> bit (ids ! j) b" and low: "\<And>m. 64 * (8 * g) \<le> m \<Longrightarrow> m < 64 * j + b \<Longrightarrow> bm_test ids m"
      then have "idx_allocate_loop ida ids (length ?bm) i f mo = Some (take_id ida ids j b)"
        by (simp add: eqs)
      moreover have "bm_test ids m" if "m < 64 * j + b" for m
        using used [of m] low [of m] that by (cases "m < 512 * g") auto
      ultimately show ?thesis using take_id_spec [OF ok less.prems(2,3) _ jb(3,4)] jb(2) sz8 len by auto
    next
      assume "scan_group ids (8 * g) 8 = Some None"
        and full: "\<And>m. 64 * (8 * g) \<le> m \<Longrightarrow> m < 64 * (8 * g + 8) \<Longrightarrow> bm_test ids m"
      then have loop: "idx_allocate_loop ida ids (length ?bm) i f mo =
          idx_allocate_loop (ida\<lparr>main_bmap := ?bm'\<rparr>) ids (length ?bm) ?i (8 * int g) (g div 64)"
        using gl mark_group_eq [OF gl] by (simp add: eqs word_at_def)
      have ok': "groups_ok ?bm' ids ?sz" by (rule groups_ok_mark [OF ok True]) (use full in auto)
      have "{h. h < ?sz \<and> \<not> bm_test ?bm' h} \<subset> {h. h < ?sz \<and> \<not> bm_test ?bm h}"
        using bm' g(3) True by (auto simp: psubset_eq)
      then have "card {h. h < ?sz \<and> \<not> bm_test ?bm' h} < card {h. h < ?sz \<and> \<not> bm_test ?bm h}"
        by (intro psubset_card_mono) auto
      moreover have "bm_test ?bm' h" if "h < 64 * ?i" for h
      proof (cases "?bm' ! (g div 64) = - 1")
        case True
        show ?thesis
          by (rule words_full_upto [of "g div 64"]) (use g(4) bm' True that in auto)
      qed (use g(4) bm' that in auto)
      ultimately have "\<exists>r ida'. idx_allocate_loop (ida\<lparr>main_bmap := ?bm'\<rparr>) ids
            (length ?bm') ?i (8 * int g) (g div 64) = Some (r, ida') \<and> alloc_result (ida\<lparr>main_bmap := ?bm'\<rparr>) r ida'"
        using less.hyps [of "ida\<lparr>main_bmap := ?bm'\<rparr>" ?i "8 * int g" "g div 64"] less.prems ok' by simp
      then show ?thesis using loop alloc_result_main [OF less.prems(2)] by simp
    qed
  qed
qed

section \<open>Rounding up to a power of two\<close>

lemma is_powerof2_exp: "k < 64 \<Longrightarrow> is_powerof2 (2 ^ k)"
  unfolding is_powerof2_def mask_eq_exp_minus_1 [symmetric] by (rule bit_word_eqI) (auto simp: bit_simps)

lemma bsr_bounds:
  assumes "bsr (w :: 64 word) = Some n"
  shows "2 ^ n \<le> unat w \<and> unat w < 2 ^ Suc n"
proof -
  have n: "bit w n" "\<And>m. n < m \<Longrightarrow> \<not> bit w m" using assms by (auto simp: bsr_Some)
  have "bit (unat w) n" using n(1) by (simp add: bit_unsigned_iff)
  then have "odd (unat w div 2 ^ n)" by (simp add: bit_iff_odd)
  then have "2 ^ n \<le> unat w" by (metis div_less even_zero not_le)
  moreover have "take_bit (Suc n) w = w"
    using n(2) by (intro bit_word_eqI) (auto simp: bit_take_bit_iff less_Suc_eq intro: linorder_neqE_nat)
  then have "unat w < 2 ^ Suc n" by (metis take_bit_nat_less_exp unsigned_take_bit_eq)
  ultimately show ?thesis by simp
qed

lemma round_up_pow2_spec:
  assumes "0 < x" "x < 2 ^ 30"
  obtains k where "round_up_pow2 x = Some (2 ^ k)" "x \<le> 2 ^ k" "2 ^ k < 2 * x" "k \<le> 30"
proof -
  let ?w = "of_nat x :: 64 word"
  have ux: "unat ?w = x" using assms(2) by (simp add: unat_of_nat take_bit_nat_eq_self)
  then have "?w \<noteq> 0" using assms(1) by (metis less_irrefl unat_0)
  then obtain n where n: "bsr ?w = Some n" by (metis bsr_None option.exhaust)
  then have b: "2 ^ n \<le> x" "x < 2 ^ Suc n" using bsr_bounds [OF n] ux by auto
  then have n30: "n < 30" using assms(2) by (meson le_less_trans nat_power_less_imp_less zero_less_numeral)
  show thesis
  proof (cases "is_powerof2 ?w")
    case False
    have "nat (bit_find_msf ?w + 1) = Suc n" using n by (simp add: bit_find_msf_def bit_find_msf_loop_bsr)
    moreover have "x \<noteq> 2 ^ n" using False is_powerof2_exp [of n] n30 by auto
    ultimately show thesis using that [of "Suc n"] False b n30 by (simp add: round_up_pow2_def)
  next
    case True
    have "x = 2 ^ n"
    proof (rule ccontr)
      assume "x \<noteq> 2 ^ n"
      then have y: "2 ^ n \<le> x - 1" "x - 1 < 2 ^ Suc n" using b by auto
      then have "(x - 1) div 2 ^ n = 1" by (simp add: div_nat_eqI)
      then have "bit (x - 1) n" by (simp add: bit_iff_odd)
      moreover have "?w - 1 = of_nat (x - 1)" using assms(1) by (simp add: of_nat_diff)
      ultimately have "bit (?w - 1) n" using n30 by (simp add: bit_of_nat_iff)
      then have "\<not> bit (?w AND NOT (?w - 1)) n" by (simp add: bit_simps)
      moreover have "bit ?w n" using n by (simp add: bsr_Some)
      ultimately show False using True by (simp add: is_powerof2_def)
    qed
    then show thesis using that [of n] True n30 by (simp add: round_up_pow2_def)
  qed
qed

lemma round_up_pow2_exp: "k \<le> 30 \<Longrightarrow> round_up_pow2 (2 ^ k) = Some (2 ^ k)"
  using is_powerof2_exp [of k] by (simp add: round_up_pow2_def)

section \<open>The operations against the set of identifiers\<close>

lemma main_size_two_level:
  assumes "ids_bmap ida = Some ids" "groups_ok (main_bmap ida) ids (ida_size ida)"
    and "6 \<le> k" "k \<le> 30" "ida_size ida = 2 ^ k"
  shows "\<exists>msz. get_main_bmap_size ida = Some msz \<and> msz div 8 = length (main_bmap ida)"
proof -
  obtain j where j: "k = 6 + j" using assms(3) by (metis le_Suc_ex)
  then have "64 * length (main_bmap ida) = 64 * 2 ^ j" using assms by (simp add: groups_ok_def power_add)
  then show ?thesis using assms j round_up_pow2_exp [of "3 + j"]
    by (simp add: get_main_bmap_size_def BYTES_PER_ITEM_def power_add)
qed

lemma idx_allocate_single_spec:
  assumes "ids_bmap ida = None" "max_id ida < IDX_INVAL" "max_id ida \<le> 64 * length (main_bmap ida)"
    and "\<And>h. h < 64 * i \<Longrightarrow> bm_test (main_bmap ida) h"
  shows "\<exists>r ida'. idx_allocate_single ida (length (main_bmap ida)) i = Some (r, ida') \<and>
     alloc_least ida r ida' \<and> ida' = ida\<lparr>main_bmap := main_bmap ida'\<rparr> \<and>
     length (main_bmap ida') = length (main_bmap ida)"
  using assms
proof (induction ida "length (main_bmap ida)" i rule: idx_allocate_single.induct)
  case (1 ida i)
  let ?bm = "main_bmap ida"
  note step = idx_allocate_single.simps [of ida "length ?bm" i]
  show ?case
  proof (cases "i < length ?bm")
    case False
    then have "\<forall>n < max_id ida. bm_test ?bm n" using "1.prems"(3,4) by auto
    then show ?thesis using False "1.prems"(1) by (simp add: step alloc_least_def idx_used_def)
  next
    case i: True
    show ?thesis
    proof (cases rule: zero_lsf_cases [of "?bm ! i"])
      case full: 1
      then have "\<And>h. h < 64 * (i + 1) \<Longrightarrow> bm_test ?bm h"
        using words_full_upto "1.prems"(4) by blast
      then show ?thesis
        using "1.hyps" [OF i, of "?bm ! i" "- 1"] "1.prems" full i by (simp add: step word_at_def)
    next
      case (2 b)
      have low: "bm_test ?bm m" if "m < 64 * i + b" for m
      proof (cases "m < 64 * i")
        case False
        then have "m div 64 = i" "m mod 64 < b" using within_word [of i m b] that 2(2) by auto
        then show ?thesis using 2(4) by (simp add: bm_test_def)
      qed (use "1.prems"(4) in blast)
      show ?thesis
      proof (cases "max_id ida \<le> b + i * 64")
        case True
        then have "idx_allocate_single ida (length ?bm) i = Some (IDX_INVAL, ida)"
          using step i 2 set_clear_id [OF i 2(3)] by (simp add: word_at_def Let_def)
        moreover have "bm_test ?bm n" if "n < max_id ida" for n using low [of n] True that by simp
        ultimately show ?thesis using "1.prems"(1) by (simp add: alloc_least_def idx_used_def)
      next
        case False
        let ?ida = "ida\<lparr>main_bmap := ?bm[i := arch_bit_set (?bm ! i) b]\<rparr>"
        have "idx_allocate_single ida (length ?bm) i = Some (64 * i + b, ?ida)"
          using step i 2 False by (simp add: word_at_def Let_def)
        moreover have "alloc_least ida (64 * i + b) ?ida"
          using False "1.prems"(1,2) low bm_test_at [OF 2(2), of ?bm i] 2(3)
          by (simp add: alloc_least_def idx_used_def bm_test_set [OF i 2(2)])
        ultimately show ?thesis by simp
      qed
    qed
  qed
qed

lemma idx_allocate_spec:
  assumes "ida_ok ida"
  shows "\<exists>r ida'. idx_allocate ida = Some (r, ida') \<and> alloc_least ida r ida' \<and> ida_ok ida' \<and> max_id ida' = max_id ida"
proof (cases "ids_bmap ida")
  case None
  then have a: "max_id ida < IDX_INVAL" "max_id ida \<le> 64 * length (main_bmap ida)"
    "get_main_bmap_size ida = Some (8 * length (main_bmap ida))"
    using assms by (auto simp: ida_ok_def get_main_bmap_size_def)
  obtain r ida' where r: "idx_allocate_single ida (length (main_bmap ida)) 0 = Some (r, ida')" "alloc_least ida r ida'"
    and ida': "ida' = ida\<lparr>main_bmap := main_bmap ida'\<rparr>" "length (main_bmap ida') = length (main_bmap ida)"
    using idx_allocate_single_spec [OF None a(1,2), of 0] by auto
  have "ids_bmap ida' = None" "max_id ida' = max_id ida" "ida_size ida' = ida_size ida"
    using None ida'(1) by (metis idx_allocator.simps idx_allocator.select_convs idx_allocator.update_convs idx_allocator.surjective)+
  then show ?thesis using assms None a r ida'(2) by (auto simp: idx_allocate_def ida_ok_def)
next
  case (Some ids)
  then obtain k where ok: "groups_ok (main_bmap ida) ids (ida_size ida)" "6 \<le> k" "k \<le> 30" "ida_size ida = 2 ^ k"
    and m: "max_id ida < IDX_INVAL" "max_id ida \<le> 64 * ida_size ida" using assms by (auto simp: ida_ok_def)
  obtain msz where "get_main_bmap_size ida = Some msz" "msz div 8 = length (main_bmap ida)"
    using main_size_two_level [OF Some ok] by blast
  moreover obtain r ida' where "idx_allocate_loop ida ids (length (main_bmap ida)) 0 0 0 = Some (r, ida')"
    "alloc_result ida r ida'" using idx_allocate_loop_spec [OF ok(1) Some m, of 0 0 0] by auto
  ultimately show ?thesis using Some ok m by (auto simp: idx_allocate_def alloc_result_def ida_ok_def)
qed

lemma bm_test_zero: "\<not> bm_test (replicate k 0) n" if "n < 64 * k"
  using that by (auto simp: bm_test_def)

lemma groups_ok_fresh: "64 * l = sz \<Longrightarrow> 0 < sz \<Longrightarrow> groups_ok (replicate l 0) (replicate sz 0) sz"
  by (auto simp: groups_ok_def bm_test_zero)

text \<open>A client that allocates \<open>k\<close> identifiers in a row.\<close>

fun idx_allocate_n :: "nat \<Rightarrow> idx_allocator \<Rightarrow> (nat list \<times> idx_allocator) option" where
  "idx_allocate_n 0 ida = Some ([], ida)"
| "idx_allocate_n (Suc k) ida =
     do { (r, ida) \<leftarrow> idx_allocate ida; (rs, ida) \<leftarrow> idx_allocate_n k ida; Some (r # rs, ida) }"

lemma idx_allocate_n_upt:
  assumes "ida_ok ida" "a + k \<le> max_id ida" "\<And>n. n < max_id ida \<Longrightarrow> idx_used ida n \<longleftrightarrow> n < a"
  shows "\<exists>ida'. idx_allocate_n k ida = Some ([a..<a + k], ida') \<and> ida_ok ida' \<and> max_id ida' = max_id ida \<and>
     (\<forall>n < max_id ida. idx_used ida' n \<longleftrightarrow> n < a + k)"
  using assms
proof (induction k arbitrary: a ida)
  case (Suc k)
  obtain r ida1 where r: "idx_allocate ida = Some (r, ida1)" "alloc_least ida r ida1" "ida_ok ida1"
    "max_id ida1 = max_id ida" using idx_allocate_spec [OF Suc.prems(1)] by blast
  have a: "a < max_id ida" "\<not> idx_used ida a" using Suc.prems(2,3) by auto
  have "r = a"
    using r(2) a Suc.prems(3) unfolding alloc_least_def
    by (metis (full_types) linorder_neqE_nat less_trans)
  moreover have "r \<noteq> IDX_INVAL" using calculation a Suc.prems(1) by (auto simp: ida_ok_def)
  ultimately have "\<And>n. n < max_id ida1 \<Longrightarrow> idx_used ida1 n \<longleftrightarrow> n < Suc a"
    using r(2,4) Suc.prems(3) by (auto simp: alloc_least_def)
  from Suc.IH [OF r(3) _ this] show ?case
    using Suc.prems(2) r \<open>r = a\<close> by (auto simp: upt_conv_Cons)
qed auto

definition fresh_ida :: "idx_allocator \<Rightarrow> nat \<Rightarrow> bool" where
  "fresh_ida ida idx_max \<longleftrightarrow> ida_ok ida \<and> max_id ida = idx_max \<and> (\<forall>n < idx_max. \<not> idx_used ida n)"

lemma idx_init_single:
  assumes "round_up_pow2 idx_max = Some (2 ^ k)" "idx_max \<le> 2 ^ k" "k < 12"
  shows "\<exists>ida. idx_allocator_init (\<lambda>_. True) (\<lambda>_. True) idx_max = Some (0, ida) \<and> fresh_ida ida idx_max"
proof -
  let ?sz = "2 ^ k div 8 div 8 :: nat"
  let ?words = "if 0 < ?sz then ?sz else 1"
  have small: "\<not> MIN_IDA_SIZE \<le> ?sz"
  proof -
    have "(2::nat) ^ k \<le> 2 ^ 11" using assms(3) by (intro power_increasing) auto
    then show ?thesis by (simp add: MIN_IDA_SIZE_def WORDS_PER_ITEM_def BYTES_PER_ITEM_def)
  qed
  have fits: "2 ^ k \<le> 64 * ?words"
  proof (cases "6 \<le> k")
    case True
    then obtain j where "k = 6 + j" by (metis le_Suc_ex)
    then show ?thesis by (simp add: power_add)
  next
    case False
    then have "(2::nat) ^ k \<le> 2 ^ 6" by (intro power_increasing) auto
    then show ?thesis by simp
  qed
  let ?ida = "\<lparr>ida_size = 8 * ?words, max_id = idx_max, main_bmap = replicate ?words 0, ids_bmap = None\<rparr>"
  have "idx_allocator_init (\<lambda>_. True) (\<lambda>_. True) idx_max = Some (0, ?ida)"
    using assms(1) small by (simp add: idx_allocator_init_def Let_def get_main_bmap_size_def mult.commute)
  moreover have "(2::nat) ^ k < 2 ^ 12" using assms(3) by (intro power_strict_increasing) auto
  then have "fresh_ida ?ida idx_max"
    using assms(2) fits bm_test_zero [of _ ?words] by (auto simp: fresh_ida_def ida_ok_def idx_used_def IDX_INVAL_def)
  ultimately show ?thesis by blast
qed

lemma idx_init_two_level:
  assumes r: "round_up_pow2 idx_max = Some (2 ^ (12 + j))" "idx_max \<le> 2 ^ (12 + j)" and j: "j = 0 \<or> 3 \<le> j" "j \<le> 18"
  shows "\<exists>ida. idx_allocator_init (\<lambda>_. True) (\<lambda>_. True) idx_max = Some (0, ida) \<and> fresh_ida ida idx_max"
proof -
  let ?ida = "\<lparr>ida_size = 64 * 2 ^ j, max_id = idx_max, main_bmap = replicate (2 ^ j) 0,
               ids_bmap = Some (replicate (64 * 2 ^ j) 0)\<rparr>"
  have sz: "(2::nat) ^ (12 + j) div 8 = 512 * 2 ^ j" by (simp add: power_add)
  have main: "round_up_pow2 (512 * 2 ^ j div 8 * 8 div 64) = Some (8 * 2 ^ j)"
    using round_up_pow2_exp [of "3 + j"] j(2) by (simp add: power_add)
  have "idx_allocator_init (\<lambda>_. True) (\<lambda>_. True) idx_max = Some (0, ?ida)"
  proof (cases "j = 0")
    case True
    then show ?thesis using r main
      by (simp add: idx_allocator_init_def Let_def get_main_bmap_size_def MIN_IDA_SIZE_def WORDS_PER_ITEM_def
          BYTES_PER_ITEM_def PAGE_SIZE_def SLAB_OBJECT_MAX_SIZE_def)
  next
    case False
    then obtain i where i: "j = 3 + i" using j(1) by (metis le_Suc_ex)
    then show ?thesis using r main
      by (simp add: idx_allocator_init_def Let_def get_main_bmap_size_def MIN_IDA_SIZE_def WORDS_PER_ITEM_def
          BYTES_PER_ITEM_def PAGE_SIZE_def SLAB_OBJECT_MAX_SIZE_def power_add)
  qed
  moreover have "ida_ok ?ida"
  proof -
    have "(2::nat) ^ (12 + j) \<le> 2 ^ 30" using j(2) by (intro power_increasing) auto
    then have "idx_max < IDX_INVAL" using r(2) by (simp add: IDX_INVAL_def)
    moreover have "groups_ok (replicate (2 ^ j) 0) (replicate (64 * 2 ^ j) 0) (64 * 2 ^ j)"
      by (rule groups_ok_fresh) auto
    moreover have "64 * 2 ^ j = (2::nat) ^ (6 + j)" by (simp add: power_add)
    moreover have "idx_max \<le> 64 * (64 * 2 ^ j)" using r(2) by (simp add: power_add)
    ultimately show ?thesis using j(2) by (auto simp: ida_ok_def intro!: exI [of _ "6 + j"])
  qed
  moreover have "\<not> bm_test (replicate (64 * 2 ^ j) 0) n" if "n < idx_max" for n
    using r(2) that by (intro bm_test_zero) (simp add: power_add)
  ultimately show ?thesis by (auto simp: fresh_ida_def idx_used_def)
qed

lemma idx_init_spec:
  assumes m: "0 < idx_max" "idx_max < 2 ^ 30" and no: "idx_max \<le> 4096 \<or> 16384 < idx_max"
  shows "\<exists>ida. idx_allocator_init (\<lambda>_. True) (\<lambda>_. True) idx_max = Some (0, ida) \<and> fresh_ida ida idx_max"
proof -
  obtain k where k: "round_up_pow2 idx_max = Some (2 ^ k)" "idx_max \<le> 2 ^ k" "2 ^ k < 2 * idx_max" "k \<le> 30"
    using round_up_pow2_spec [OF m] .
  show ?thesis
  proof (cases "k < 12")
    case False
    then obtain j where j: "k = 12 + j" by (metis le_Suc_ex not_less)
    have "j = 0 \<or> 3 \<le> j"
    proof (rule ccontr)
      assume "\<not> (j = 0 \<or> 3 \<le> j)"
      then have "j = 1 \<or> j = 2" by auto
      then show False using k(2,3) no j by auto
    qed
    then show ?thesis using idx_init_two_level [of idx_max j] k j by simp
  qed (use idx_init_single k in blast)
qed

section \<open>The interface\<close>

text \<open>
  What the users of an allocator rely on: allocation is total, hands out an identifier that was
  free and is in range, and fails only when every identifier is in use.
\<close>

locale id_source =
  fixes ok :: "'a \<Rightarrow> bool" and used :: "'a \<Rightarrow> nat \<Rightarrow> bool" and cap :: "'a \<Rightarrow> nat"
    and alloc :: "'a \<Rightarrow> (nat \<times> 'a) option" and inval :: nat
  assumes alloc_law: "ok a \<Longrightarrow> \<exists>r a'. alloc a = Some (r, a') \<and> ok a' \<and> cap a' = cap a \<and>
      (if r = inval then (\<forall>n < cap a. used a n) \<and> used a' = used a
       else r < cap a \<and> \<not> used a r \<and> used a' = (used a)(r := True))"
begin

lemma alloc_fresh:
  "ok a \<Longrightarrow> alloc a = Some (r, a') \<Longrightarrow> r \<noteq> inval \<Longrightarrow> r < cap a \<and> \<not> used a r \<and> used a' r"
  using alloc_law [of a] by auto

lemma alloc_distinct:
  assumes "ok a" "alloc a = Some (r, a')" "alloc a' = Some (r', a'')" "r' \<noteq> inval"
  shows "r \<noteq> r'"
  using alloc_law [OF assms(1)] alloc_law [of a'] assms(2-4) by (auto split: if_splits)

lemma alloc_some_free:
  assumes "ok a" "n < cap a" "\<not> used a n" "alloc a = Some (r, a')"
  shows "r \<noteq> inval"
  using alloc_law [OF assms(1)] assms(2-4) by auto

end

interpretation idas: id_source ida_ok idx_used max_id idx_allocate IDX_INVAL
proof
  fix a assume "ida_ok a"
  then obtain r a' where r: "idx_allocate a = Some (r, a')" "alloc_least a r a'" "ida_ok a'" "max_id a' = max_id a"
    using idx_allocate_spec by blast
  then show "\<exists>r a'. idx_allocate a = Some (r, a') \<and> ida_ok a' \<and> max_id a' = max_id a \<and>
      (if r = IDX_INVAL then (\<forall>n < max_id a. idx_used a n) \<and> idx_used a' = idx_used a
       else r < max_id a \<and> \<not> idx_used a r \<and> idx_used a' = (idx_used a)(r := True))"
    by (auto simp: alloc_least_def fun_eq_iff split: if_splits)
qed

section \<open>Properties\<close>


definition wit_ida :: idx_allocator where
  "wit_ida = \<lparr>ida_size = 16, max_id = 100, main_bmap = [7, 0], ids_bmap = None\<rparr>"




text \<open>
  Freeing an identifier of a two-level allocator computes the first-level word from the
  wrong unit: for every identifier from \<open>8 * size\<close> on (seven eighths of the range) the word it
  clears lies outside the first-level bitmap.
\<close>

theorem idx_free_out_of_bounds:
  assumes "ida_ok ida" "ids_bmap ida = Some ids" "8 * ida_size ida \<le> idx"
  shows "idx_free ida idx = None"
proof -
  have len: "64 * length (main_bmap ida) = ida_size ida" using assms(1,2) by (auto simp: ida_ok_def groups_ok_def)
  then have "512 * length (main_bmap ida) \<le> idx" using assms(3) by simp
  then have "length (main_bmap ida) \<le> idx div 512" by (simp add: less_eq_div_iff_mult_less_eq mult.commute)
  then have "word_at (main_bmap ida) (idx div 64 div 8) = None"
    by (simp add: word_at_def div_mult2_eq [symmetric])
  then show ?thesis using assms(2)
    by (simp add: idx_free_def Let_def WORDS_PER_ITEM_def BYTES_PER_ITEM_def)
qed

definition wit_ida2 :: idx_allocator where
  "wit_ida2 = \<lparr>ida_size = 64, max_id = 4096, main_bmap = [0], ids_bmap = Some (replicate 64 0)\<rparr>"

theorem idx_free_out_of_bounds_witness:
  "ida_ok wit_ida2 \<and> idx_free wit_ida2 600 = None"
proof -
  have "ida_ok wit_ida2"
    using groups_ok_fresh [of 1 64] by (auto simp: ida_ok_def wit_ida2_def IDX_INVAL_def intro!: exI [of _ 6])
  then show ?thesis using idx_free_out_of_bounds [of wit_ida2 "replicate 64 0" 600] by (simp add: wit_ida2_def)
qed

text \<open>In single-level mode freeing undoes an allocation.\<close>

lemma idx_free_single_roundtrip:
  assumes "ida_ok ida" "ids_bmap ida = None" "idx < max_id ida" "idx_used ida idx"
  shows "\<exists>ida'. idx_free ida idx = Some ida' \<and> (\<forall>n. idx_used ida' n \<longleftrightarrow> n \<noteq> idx \<and> idx_used ida n)"
proof -
  have l: "idx div 64 < length (main_bmap ida)" using assms(1-3) by (auto simp: ida_ok_def)
  have "idx - idx div 64 * 64 = idx mod 64" by (simp add: minus_div_mult_eq_mod)
  moreover have "idx_used ida idx \<longleftrightarrow> bit (main_bmap ida ! (idx div 64)) (idx mod 64)"
    using assms(2) by (simp add: idx_used_def bm_test_def)
  moreover have "bm_test ((main_bmap ida)[idx div 64 := flip_bit (idx mod 64) (main_bmap ida ! (idx div 64))]) n \<longleftrightarrow>
      n \<noteq> idx \<and> bm_test (main_bmap ida) n" if "bit (main_bmap ida ! (idx div 64)) (idx mod 64)" for n
    using that l divmod_eq [of n idx]
    by (cases "n div 64 = idx div 64") (auto simp: bm_test_def bit_simps)
  ultimately show ?thesis using assms l
    by (simp add: idx_free_def Let_def word_at_def arch_bit_test_and_clear_def idx_used_def)
qed

text \<open>
  Two sizes are not supported by the initialisation: a bitmap of exactly the largest slab
  object fails an assertion, and a bitmap between that and one page asks for zero pages.
\<close>

lemma idx_init_asserts: "idx_allocator_init pages mem 8192 = None"
  using round_up_pow2_exp [of 13]
  by (simp add: idx_allocator_init_def Let_def MIN_IDA_SIZE_def WORDS_PER_ITEM_def BYTES_PER_ITEM_def
      PAGE_SIZE_def SLAB_OBJECT_MAX_SIZE_def)

lemma idx_init_zero_pages:
  "pages 0 \<Longrightarrow> mem 32 \<Longrightarrow> \<exists>ida. idx_allocator_init pages mem 16384 = Some (0, ida) \<and> ids_bmap ida = Some [] \<and> idx_allocate ida = None"
proof -
  assume a: "pages 0" "mem 32"
  have r: "round_up_pow2 16384 = Some 16384" "round_up_pow2 32 = Some 32"
    using round_up_pow2_exp [of 14] round_up_pow2_exp [of 5] by simp_all
  let ?ida = "\<lparr>ida_size = 256, max_id = 16384, main_bmap = replicate 4 0, ids_bmap = Some []\<rparr>"
  have "idx_allocator_init pages mem 16384 = Some (0, ?ida)"
    using r a by (simp add: idx_allocator_init_def Let_def MIN_IDA_SIZE_def WORDS_PER_ITEM_def BYTES_PER_ITEM_def
        PAGE_SIZE_def SLAB_OBJECT_MAX_SIZE_def get_main_bmap_size_def)
  moreover have "idx_allocate ?ida = None"
  proof -
    have "arch_zero_bit_find_lsf 0 = 0"
      using bsf_Some [of "NOT 0" 0] by (simp add: arch_zero_bit_find_lsf_def)
    then have "scan_main (replicate 4 0) 4 0 0 0 = Some (0, 0, 0)"
      by (simp add: scan_main.simps word_at_def)
    moreover have "scan_group [] 0 8 = None" by (simp add: numeral_eq_Suc word_at_def)
    ultimately have "idx_allocate_loop ?ida [] 4 0 0 0 = None"
      by (subst idx_allocate_loop.simps) (simp add: WORDS_PER_ITEM_def BYTES_PER_ITEM_def)
    then show ?thesis
      using r by (simp add: idx_allocate_def get_main_bmap_size_def BYTES_PER_ITEM_def)
  qed
  ultimately show ?thesis by auto
qed

end
