(* ===== verification/Scheduler.thy ===== *)
theory Scheduler
  imports Bitwise
begin

text \<open>
  The default scheduler, \<^verbatim>\<open>kernel/generic/schedulers/sched_default.c\<close> and
  \<^verbatim>\<open>include/mstring/sched_default.h\<close>, with the dispatch layer \<^verbatim>\<open>kernel/generic/scheduler.c\<close>. A CPU
  has two priority arrays, each a bitmap over 128 priorities and one queue per priority; tasks
  that used up their time slice go to the expired array, and the arrays swap when the active
  one has no task. A queue is the sequence of the tasks linked in it (the pointer operations on
  such lists are verified in \<open>DList\<close>); removing a task that is not linked and linking one that
  is are faults, \<open>None\<close>. Each operation runs under the lock of the CPU and is one step;
  \<^verbatim>\<open>cond_reschedule\<close> after it is a separate scheduling step.
\<close>

section \<open>State\<close>

datatype task_state = TASK_STATE_RUNNING | TASK_STATE_RUNNABLE | TASK_STATE_JUST_BORN
  | TASK_STATE_SLEEPING | TASK_STATE_STOPPED | TASK_STATE_SUSPENDED | TASK_STATE_ZOMBIE

fun state_bits :: "task_state \<Rightarrow> 64 word" where
  "state_bits TASK_STATE_RUNNING = 0x1"
| "state_bits TASK_STATE_RUNNABLE = 0x2"
| "state_bits TASK_STATE_JUST_BORN = 0x4"
| "state_bits TASK_STATE_SLEEPING = 0x8"
| "state_bits TASK_STATE_STOPPED = 0x10"
| "state_bits TASK_STATE_SUSPENDED = 0x20"
| "state_bits TASK_STATE_ZOMBIE = 0x8000"

definition ALL_TASK_STATE_MASK :: "64 word" where "ALL_TASK_STATE_MASK = 0x3F"

datatype sched_discipline = SCHED_RR | SCHED_FIFO | SCHED_OTHER

datatype tick_op = SCHED_TICK_NORMAL | SCHED_TICK_LAST

definition EZA_SCHED_TOTAL_WIDTH :: nat where "EZA_SCHED_TOTAL_WIDTH = 2"

definition EZA_SCHED_TOTAL_PRIOS :: nat where "EZA_SCHED_TOTAL_PRIOS = 128"

definition EZA_SCHED_PRIORITY_MAX :: nat where "EZA_SCHED_PRIORITY_MAX = 127"

definition EZA_SCHED_IDLE_TASK_PRIO :: nat where "EZA_SCHED_IDLE_TASK_PRIO = EZA_SCHED_PRIORITY_MAX + 1"

definition EZA_SCHED_INITIAL_TASK_PRIORITY :: nat where "EZA_SCHED_INITIAL_TASK_PRIORITY = 64 + 64 div 2"

record sched_prio_array =
  bitmap_bits :: "64 word list"
  queues :: "nat \<Rightarrow> nat list"
  num_tasks :: "64 word"

record sched_taskdata =
  time_slice :: "32 word"
  discipline :: sched_discipline
  max_timeslice :: "32 word"
  in_array :: "nat option"

record cpu_stats =
  task_switches :: "64 word"
  idle_switches :: "64 word"
  idle_ticks :: "64 word"
  active_tasks :: "64 word"
  sleeping_tasks :: "64 word"

record sched_cpudata =
  stats :: cpu_stats
  active_array :: nat
  expired_array :: nat
  arrays :: "nat \<Rightarrow> sched_prio_array"
  running_task :: nat

text \<open>The scheduling part of \<^verbatim>\<open>task_t\<close>; tasks are named by numbers.\<close>

record task =
  pid :: nat
  static_priority :: nat
  priority :: nat
  tstate :: task_state
  tcpu :: nat
  uspc_blocked :: bool
  under_migration :: bool
  interrupted :: bool
  sched_data :: "sched_taskdata option"

record sched =
  tasks :: "nat \<Rightarrow> task"
  cpus :: "nat \<Rightarrow> sched_cpudata option"
  current :: "nat \<Rightarrow> nat"
  need_resched :: "nat \<Rightarrow> bool"
  idle_tasks :: "nat \<Rightarrow> nat"

abbreviation upd_task :: "nat \<Rightarrow> (task \<Rightarrow> task) \<Rightarrow> (nat \<Rightarrow> task) \<Rightarrow> nat \<Rightarrow> task" where
  "upd_task t f ts \<equiv> ts(t := f (ts t))"

abbreviation upd_array :: "nat \<Rightarrow> (sched_prio_array \<Rightarrow> sched_prio_array) \<Rightarrow> sched_cpudata \<Rightarrow> sched_cpudata" where
  "upd_array a f cd \<equiv> cd\<lparr>arrays := (arrays cd)(a := f (arrays cd a))\<rparr>"

section \<open>Priority arrays\<close>

definition on_runlist :: "nat \<Rightarrow> sched_cpudata \<Rightarrow> bool" where
  "on_runlist t cd \<longleftrightarrow>
     list_ex (\<lambda>a. list_ex (\<lambda>q. t \<in> set (queues (arrays cd a) q)) [0..<EZA_SCHED_TOTAL_PRIOS]) [0..<2]"

definition del_runlist :: "nat \<Rightarrow> sched_cpudata \<Rightarrow> sched_cpudata option" where
  "del_runlist t cd =
     (if on_runlist t cd
      then Some (cd\<lparr>arrays := (\<lambda>a. (arrays cd a)\<lparr>queues := (\<lambda>q. remove1 t (queues (arrays cd a) q))\<rparr>)\<rparr>)
      else None)"

definition add_task_to_array ::
  "nat \<Rightarrow> nat \<Rightarrow> (nat \<Rightarrow> task) \<times> sched_cpudata \<Rightarrow> ((nat \<Rightarrow> task) \<times> sched_cpudata) option" where
  "add_task_to_array a t = (\<lambda>(ts, cd).
     do { sd \<leftarrow> sched_data (ts t);
          let prio = priority (ts t);
          (_, bm) \<leftarrow> set_and_test_bit_mem (bitmap_bits (arrays cd a)) prio;
          if on_runlist t cd then None
          else Some (upd_task t (sched_data_update (\<lambda>_. Some (sd\<lparr>in_array := Some a\<rparr>))) ts,
                     upd_array a (\<lambda>ar. ar\<lparr>bitmap_bits := bm,
                                          queues := (queues ar)(prio := queues ar prio @ [t]),
                                          num_tasks := num_tasks ar + 1\<rparr>) cd) })"

definition remove_task_from_array ::
  "nat \<Rightarrow> nat \<Rightarrow> (nat \<Rightarrow> task) \<times> sched_cpudata \<Rightarrow> ((nat \<Rightarrow> task) \<times> sched_cpudata) option" where
  "remove_task_from_array a t = (\<lambda>(ts, cd).
     do { sd \<leftarrow> sched_data (ts t);
          let prio = priority (ts t);
          cd \<leftarrow> del_runlist t cd;
          let ts = upd_task t (sched_data_update (\<lambda>_. Some (sd\<lparr>in_array := None\<rparr>))) ts;
          let cd = upd_array a (\<lambda>ar. ar\<lparr>num_tasks := num_tasks ar - 1\<rparr>) cd;
          if queues (arrays cd a) prio = []
          then do { (_, bm) \<leftarrow> reset_and_test_bit_mem (bitmap_bits (arrays cd a)) prio;
                    Some (ts, upd_array a (\<lambda>ar. ar\<lparr>bitmap_bits := bm\<rparr>) cd) }
          else Some (ts, cd) })"

definition get_most_prioritized_task :: "sched_cpudata \<Rightarrow> (nat option \<times> sched_cpudata) option" where
  "get_most_prioritized_task cd =
     (let a = active_array cd; ar = arrays cd a
      in do { idx \<leftarrow> find_first_bit_mem (bitmap_bits ar) EZA_SCHED_TOTAL_WIDTH;
              case idx of
                None \<Rightarrow> Some (None, cd)
              | Some i \<Rightarrow>
                  (case queues ar i of
                     t # _ \<Rightarrow> Some (Some t, cd)
                   | [] \<Rightarrow> do { (_, bm) \<leftarrow> reset_and_test_bit_mem (bitmap_bits ar) i;
                               Some (None, upd_array a (\<lambda>ar. ar\<lparr>bitmap_bits := bm\<rparr>) cd) }) })"

section \<open>Operations\<close>

definition initialize_cpu_sched_data :: "sched_cpudata \<Rightarrow> sched_cpudata" where
  "initialize_cpu_sched_data cd =
     cd\<lparr>arrays := (\<lambda>_. \<lparr>bitmap_bits = replicate EZA_SCHED_TOTAL_WIDTH 0, queues = (\<lambda>_. []), num_tasks = 0\<rparr>),
        active_array := 0, expired_array := 1\<rparr>"

definition PRIO_TO_TIMESLICE :: "nat \<Rightarrow> 32 word" where
  "PRIO_TO_TIMESLICE p = of_nat p * 3 * 1"

definition recalculate_timeslice_and_priority :: "nat \<Rightarrow> (nat \<Rightarrow> task) \<Rightarrow> (nat \<Rightarrow> task) option" where
  "recalculate_timeslice_and_priority t ts =
     (let ts = upd_task t (\<lambda>x. x\<lparr>priority := static_priority x\<rparr>) ts
      in do { sd \<leftarrow> sched_data (ts t);
              let slice = PRIO_TO_TIMESLICE (priority (ts t));
              let slice = (if max_timeslice sd \<noteq> 0 \<and> slice > max_timeslice sd then max_timeslice sd else slice);
              Some (upd_task t (sched_data_update (\<lambda>_. Some (sd\<lparr>time_slice := slice\<rparr>))) ts) })"

text \<open>
  \<^verbatim>\<open>def_add_cpu\<close> for \<open>nr\<close> configured CPUs; a failed allocation is a panic. \<open>cd0\<close> is the content
  of the fresh pages.
\<close>

definition def_add_cpu :: "nat \<Rightarrow> sched_cpudata \<Rightarrow> nat \<Rightarrow> sched \<Rightarrow> int \<times> sched" where
  "def_add_cpu nr cd0 cpu s =
     (if cpu \<ge> nr \<or> cpus s cpu \<noteq> None then (ERR EINVAL, s)
      else (0, s\<lparr>cpus := (cpus s)(cpu \<mapsto> (initialize_cpu_sched_data cd0)\<lparr>running_task := idle_tasks s cpu\<rparr>)\<rparr>))"

definition def_scheduler_tick :: "nat \<Rightarrow> tick_op \<Rightarrow> sched \<Rightarrow> sched option" where
  "def_scheduler_tick cpu op s =
     (let cur = current s cpu
      in case cpus s cpu of
           None \<Rightarrow> Some s
         | Some cd \<Rightarrow>
             if pid (tasks s cur) = 0
             then Some (s\<lparr>cpus := (cpus s)(cpu \<mapsto> cd\<lparr>stats := (stats cd)\<lparr>idle_ticks := idle_ticks (stats cd) + 1\<rparr>\<rparr>)\<rparr>)
             else case sched_data (tasks s cur) of
                    None \<Rightarrow> Some s
                  | Some td \<Rightarrow>
                      (let slice = (case op of
                                      SCHED_TICK_LAST \<Rightarrow> 0
                                    | SCHED_TICK_NORMAL \<Rightarrow> if discipline td \<noteq> SCHED_FIFO then time_slice td - 1
                                                           else time_slice td);
                           ts = upd_task cur (sched_data_update (\<lambda>_. Some (td\<lparr>time_slice := slice\<rparr>))) (tasks s)
                       in if slice = 0
                          then do { (ts, cd) \<leftarrow>
                                      (if on_runlist cur cd
                                       then do { (ts, cd) \<leftarrow> remove_task_from_array (active_array cd) cur (ts, cd);
                                                 ts \<leftarrow> recalculate_timeslice_and_priority cur ts;
                                                 add_task_to_array
                                                   (if discipline td = SCHED_RR \<or> discipline td = SCHED_FIFO
                                                    then active_array cd else expired_array cd) cur (ts, cd) }
                                       else Some (ts, cd));
                                    Some (s\<lparr>tasks := ts, cpus := (cpus s)(cpu \<mapsto> cd),
                                            need_resched := (need_resched s)(cpu := True)\<rparr>) }
                          else Some (s\<lparr>tasks := ts\<rparr>)))"

text \<open>
  \<^verbatim>\<open>def_add_task\<close> with \<^verbatim>\<open>__setup_new_task\<close>; the slab cache may refuse (\<open>mem\<close> is False). The fields
  of fresh scheduler data the source does not write are those of \<open>sd0\<close>.
\<close>

definition def_add_task :: "bool \<Rightarrow> sched_taskdata \<Rightarrow> nat \<Rightarrow> nat \<Rightarrow> sched \<Rightarrow> int \<times> sched" where
  "def_add_task mem sd0 cpu t s =
     (if cpus s cpu = None \<or> tstate (tasks s t) \<noteq> TASK_STATE_JUST_BORN then (ERR EINVAL, s)
      else if sched_data (tasks s t) \<noteq> None then (ERR EBUSY, s)
      else if \<not> mem then (ERR ENOMEM, s)
      else (0, s\<lparr>tasks := upd_task t (\<lambda>x. x\<lparr>static_priority := EZA_SCHED_INITIAL_TASK_PRIORITY,
                                            priority := EZA_SCHED_INITIAL_TASK_PRIORITY, tcpu := cpu,
                                            sched_data := Some (sd0\<lparr>discipline := SCHED_OTHER,
                                              max_timeslice := 0, in_array := None\<rparr>)\<rparr>) (tasks s)\<rparr>))"

definition pick_next :: "nat \<Rightarrow> sched \<Rightarrow> sched_cpudata \<Rightarrow> (nat \<times> sched_cpudata) option" where
  "pick_next cpu s cd =
     do { (n, cd) \<leftarrow> get_most_prioritized_task cd;
          case n of
            Some t \<Rightarrow> Some (t, cd)
          | None \<Rightarrow>
              do { (n, cd) \<leftarrow> get_most_prioritized_task
                                (cd\<lparr>active_array := expired_array cd, expired_array := active_array cd\<rparr>);
                   case n of
                     Some t \<Rightarrow> Some (t, cd)
                   | None \<Rightarrow> Some (idle_tasks s cpu,
                                   cd\<lparr>stats := (stats cd)\<lparr>idle_switches := idle_switches (stats cd) + 1\<rparr>\<rparr>) } }"

definition leave_cpu :: "task \<Rightarrow> task" where
  "leave_cpu x = (if tstate x = TASK_STATE_RUNNING then x\<lparr>tstate := TASK_STATE_RUNNABLE\<rparr> else x)"

definition enter_cpu :: "task \<Rightarrow> task" where
  "enter_cpu x = (if tstate x = TASK_STATE_RUNNABLE then x\<lparr>tstate := TASK_STATE_RUNNING\<rparr> else x)"

definition def_schedule :: "nat \<Rightarrow> sched \<Rightarrow> sched option" where
  "def_schedule cpu s =
     do { cd \<leftarrow> cpus s cpu;
          (next, cd) \<leftarrow> pick_next cpu s cd;
          let cd = cd\<lparr>stats := (stats cd)\<lparr>task_switches := task_switches (stats cd) + 1\<rparr>\<rparr>;
          let cur = current s cpu;
          let ts = upd_task cur leave_cpu (tasks s);
          let cd = (if next \<noteq> cur then cd\<lparr>running_task := next\<rparr> else cd);
          let ts = upd_task next enter_cpu ts;
          Some (s\<lparr>tasks := ts, cpus := (cpus s)(cpu \<mapsto> cd), current := (current s)(cpu := next),
                  need_resched := (need_resched s)(cpu := False)\<rparr>) }"

text \<open>
  \<^verbatim>\<open>def_del_task\<close>: on success the source returns an uninitialised value, so only the state is a
  result; the scheduler data is released and the CPU left for good.
\<close>

definition def_del_task :: "nat \<Rightarrow> nat \<Rightarrow> sched \<Rightarrow> (int option \<times> sched) option" where
  "def_del_task cpu t s =
     (if t \<noteq> current s cpu then Some (Some (ERR EINVAL), s)
      else case sched_data (tasks s t) of
             None \<Rightarrow> Some (Some (ERR EINVAL), s)
           | Some sd \<Rightarrow>
               do { cd \<leftarrow> cpus s cpu;
                    a \<leftarrow> in_array sd;
                    (ts, cd) \<leftarrow> remove_task_from_array a t (tasks s, cd);
                    let cd = cd\<lparr>stats := (stats cd)\<lparr>active_tasks := active_tasks (stats cd) - 1\<rparr>\<rparr>;
                    let ts = upd_task t (sched_data_update (\<lambda>_. None)) ts;
                    s \<leftarrow> def_schedule cpu (s\<lparr>tasks := ts, cpus := (cpus s)(cpu \<mapsto> cd),
                                            need_resched := (need_resched s)(cpu := True)\<rparr>);
                    Some (None, s) })"

definition reschedule_task :: "nat \<Rightarrow> sched \<Rightarrow> sched" where
  "reschedule_task t s = s\<lparr>need_resched := (need_resched s)(tcpu (tasks s t) := True)\<rparr>"

text \<open>
  The body of \<^verbatim>\<open>__change_task_state\<close> after the lock is taken: \<open>h\<close> is the value of the deferred
  handler when it is called (\<open>None\<close> when there is none or the task is on another CPU).
\<close>

definition make_runnable :: "nat \<Rightarrow> sched \<Rightarrow> sched option" where
  "make_runnable t s =
     do { cd \<leftarrow> cpus s (tcpu (tasks s t));
          ts \<leftarrow> recalculate_timeslice_and_priority t (tasks s);
          let ts = upd_task t (\<lambda>x. x\<lparr>tstate := TASK_STATE_RUNNABLE\<rparr>) ts;
          (ts, cd) \<leftarrow> add_task_to_array (active_array cd) t (ts, cd);
          let cd = cd\<lparr>stats := (stats cd)\<lparr>active_tasks := active_tasks (stats cd) + 1\<rparr>\<rparr>;
          let s = s\<lparr>tasks := ts, cpus := (cpus s)(tcpu (tasks s t) \<mapsto> cd)\<rparr>;
          Some (if priority (ts t) < priority (ts (running_task cd)) then reschedule_task t s else s) }"

definition make_blocked :: "nat \<Rightarrow> task_state \<Rightarrow> sched \<Rightarrow> (int \<times> sched) option" where
  "make_blocked t new_state s =
     (if tstate (tasks s t) \<in> {TASK_STATE_RUNNABLE, TASK_STATE_RUNNING, TASK_STATE_ZOMBIE}
      then do { cd \<leftarrow> cpus s (tcpu (tasks s t));
                sd \<leftarrow> sched_data (tasks s t);
                a \<leftarrow> in_array sd;
                (ts, cd) \<leftarrow> remove_task_from_array a t (tasks s, cd);
                let cd = cd\<lparr>stats := (stats cd)\<lparr>active_tasks := active_tasks (stats cd) - 1,
                                                sleeping_tasks := sleeping_tasks (stats cd) + 1\<rparr>\<rparr>;
                let ts = upd_task t (\<lambda>x. x\<lparr>tstate := new_state\<rparr>) ts;
                let s = s\<lparr>tasks := ts, cpus := (cpus s)(tcpu (tasks s t) \<mapsto> cd)\<rparr>;
                Some (0, if t = running_task cd then reschedule_task t s else s) }
      else if tstate (tasks s t) = TASK_STATE_SLEEPING
      then Some (0, s\<lparr>tasks := upd_task t (\<lambda>x. x\<lparr>tstate := new_state\<rparr>) (tasks s)\<rparr>)
      else Some (ERR EINVAL, s))"

definition change_task_state ::
  "nat \<Rightarrow> task_state \<Rightarrow> bool option \<Rightarrow> 64 word \<Rightarrow> sched \<Rightarrow> (int \<times> sched) option" where
  "change_task_state t new_state h msk s =
     (if h = Some False then Some (ERR EAGAIN, s)
      else let prev_state = tstate (tasks s t)
           in if prev_state \<noteq> new_state \<and> state_bits prev_state AND msk \<noteq> 0
              then case new_state of
                     TASK_STATE_RUNNABLE \<Rightarrow>
                       if prev_state = TASK_STATE_RUNNING then Some (0, s)
                       else do { s \<leftarrow> make_runnable t s; Some (0, s) }
                   | TASK_STATE_SLEEPING \<Rightarrow>
                       if interrupted (tasks s t) then Some (ERR EINTR, s) else make_blocked t new_state s
                   | TASK_STATE_STOPPED \<Rightarrow> make_blocked t new_state s
                   | TASK_STATE_SUSPENDED \<Rightarrow> make_blocked t new_state s
                   | _ \<Rightarrow> Some (ERR EINVAL, s)
              else Some (0, s))"

definition def_change_task_state :: "nat \<Rightarrow> task_state \<Rightarrow> 64 word \<Rightarrow> sched \<Rightarrow> (int \<times> sched) option" where
  "def_change_task_state t new_state msk s = change_task_state t new_state None msk s"

definition def_change_task_state_deferred ::
  "nat \<Rightarrow> nat \<Rightarrow> task_state \<Rightarrow> bool \<Rightarrow> 64 word \<Rightarrow> sched \<Rightarrow> (int \<times> sched) option" where
  "def_change_task_state_deferred cpu t new_state handler msk s =
     change_task_state t new_state (if tcpu (tasks s t) \<noteq> cpu then None else Some handler) msk s"

definition def_setup_idle_task :: "bool \<Rightarrow> sched_taskdata \<Rightarrow> nat \<Rightarrow> sched \<Rightarrow> int \<times> sched" where
  "def_setup_idle_task mem sd0 t s =
     (if \<not> mem then (ERR ENOMEM, s)
      else (0, s\<lparr>tasks := upd_task t (\<lambda>x. x\<lparr>priority := EZA_SCHED_IDLE_TASK_PRIO,
                                            static_priority := EZA_SCHED_IDLE_TASK_PRIO,
                                            tstate := TASK_STATE_RUNNING,
                                            sched_data := Some (sd0\<lparr>time_slice := 0\<rparr>)\<rparr>) (tasks s)\<rparr>))"

definition shuffle_task :: "nat \<Rightarrow> nat \<Rightarrow> sched \<Rightarrow> sched option" where
  "shuffle_task t new_prio s =
     (if tstate (tasks s t) \<noteq> TASK_STATE_RUNNING \<and> tstate (tasks s t) \<noteq> TASK_STATE_RUNNABLE
      then Some (s\<lparr>tasks := upd_task t (\<lambda>x. x\<lparr>priority := new_prio, static_priority := new_prio\<rparr>) (tasks s)\<rparr>)
      else do { cd \<leftarrow> cpus s (tcpu (tasks s t));
                (ts, cd) \<leftarrow> remove_task_from_array (active_array cd) t (tasks s, cd);
                let ts = upd_task t (\<lambda>x. x\<lparr>priority := new_prio, static_priority := new_prio\<rparr>) ts;
                (ts, cd) \<leftarrow> add_task_to_array (active_array cd) t (ts, cd);
                (mpt, cd) \<leftarrow> get_most_prioritized_task cd;
                m \<leftarrow> mpt;
                let s = s\<lparr>tasks := ts, cpus := (cpus s)(tcpu (tasks s t) \<mapsto> cd)\<rparr>;
                Some (if priority (ts m) < priority (ts (running_task cd)) then reschedule_task t s else s) })"

datatype sched_cmd = GET_MAX_TIMISLICE | GET_POLICY | SET_POLICY nat | SET_PRIORITY nat
  | SET_MAX_TIMISLICE nat | SET_STATE task_state

fun discipline_val :: "sched_discipline \<Rightarrow> nat" where
  "discipline_val SCHED_RR = 0"
| "discipline_val SCHED_FIFO = 1"
| "discipline_val SCHED_OTHER = 2"

definition HZ :: nat where "HZ = 1000"

fun def_scheduler_control :: "nat \<Rightarrow> sched_cmd \<Rightarrow> sched \<Rightarrow> (int \<times> sched) option" where
  "def_scheduler_control t GET_MAX_TIMISLICE s = do { sd \<leftarrow> sched_data (tasks s t); Some (uint (max_timeslice sd), s) }"
| "def_scheduler_control t GET_POLICY s = do { sd \<leftarrow> sched_data (tasks s t); Some (int (discipline_val (discipline sd)), s) }"
| "def_scheduler_control t (SET_POLICY arg) s =
     do { sd \<leftarrow> sched_data (tasks s t);
          Some (case find (\<lambda>d. discipline_val d = arg) [SCHED_RR, SCHED_FIFO, SCHED_OTHER] of
                  Some d \<Rightarrow> (0, s\<lparr>tasks := upd_task t (sched_data_update (\<lambda>_. Some (sd\<lparr>discipline := d\<rparr>))) (tasks s)\<rparr>)
                | None \<Rightarrow> (ERR EINVAL, s)) }"
| "def_scheduler_control t (SET_PRIORITY arg) s =
     (if arg \<le> EZA_SCHED_PRIORITY_MAX
      then if \<not> uspc_blocked (tasks s t) then do { s \<leftarrow> shuffle_task t arg s; Some (0, s) }
           else Some (ERR EBUSY, s)
      else Some (ERR EINVAL, s))"
| "def_scheduler_control t (SET_MAX_TIMISLICE arg) s =
     (if 0 < arg \<and> arg < HZ
      then do { sd \<leftarrow> sched_data (tasks s t);
                Some (0, s\<lparr>tasks := upd_task t (sched_data_update (\<lambda>_. Some (sd\<lparr>max_timeslice := of_nat arg\<rparr>))) (tasks s)\<rparr>) }
      else Some (ERR EINVAL, s))"
| "def_scheduler_control t (SET_STATE st) s = def_change_task_state t st ALL_TASK_STATE_MASK s"

definition sys_sched_yield :: "nat \<Rightarrow> sched \<Rightarrow> sched option" where
  "sys_sched_yield cpu s = do { s \<leftarrow> def_scheduler_tick cpu SCHED_TICK_LAST s; def_schedule cpu s }"

text \<open>
  \<^verbatim>\<open>__move_task_to_cpu\<close> of the dispatch layer: \<open>locked\<close> says whether both CPU locks were taken; the
  cyclic form retries until they are.
\<close>

definition move_task_to_cpu :: "bool \<Rightarrow> nat \<Rightarrow> nat \<Rightarrow> sched \<Rightarrow> (int \<times> sched) option" where
  "move_task_to_cpu locked t dest s =
     (if \<not> locked then Some (ERR EBUSY, s)
      else if tcpu (tasks s t) = dest
      then Some (0, s\<lparr>tasks := upd_task t (under_migration_update (\<lambda>_. False)) (tasks s)\<rparr>)
      else if tstate (tasks s t) \<noteq> TASK_STATE_RUNNING \<and> tstate (tasks s t) \<noteq> TASK_STATE_RUNNABLE
      then do { src \<leftarrow> cpus s (tcpu (tasks s t));
                dst \<leftarrow> cpus s dest;
                let src = src\<lparr>stats := (stats src)\<lparr>sleeping_tasks := sleeping_tasks (stats src) - 1\<rparr>\<rparr>;
                let dst = dst\<lparr>stats := (stats dst)\<lparr>sleeping_tasks := sleeping_tasks (stats dst) + 1\<rparr>\<rparr>;
                Some (0, s\<lparr>tasks := upd_task t (\<lambda>x. x\<lparr>tcpu := dest, under_migration := False\<rparr>) (tasks s),
                           cpus := (cpus s)(tcpu (tasks s t) \<mapsto> src, dest \<mapsto> dst)\<rparr>) }
      else Some (ERR EBUSY, s))"

section \<open>The invariant of a CPU\<close>

definition arr_of :: "(nat \<Rightarrow> task) \<Rightarrow> nat \<Rightarrow> nat option" where
  "arr_of ts t = (case sched_data (ts t) of Some sd \<Rightarrow> in_array sd | None \<Rightarrow> None)"

text \<open>
  A queued task sits in the queue of its own priority, on its own CPU, in the array its
  scheduler data names, and the bit of that priority is set; a task whose data names an array
  is queued there.
\<close>

definition arrays_ok :: "nat \<Rightarrow> (nat \<Rightarrow> task) \<Rightarrow> (nat \<Rightarrow> sched_prio_array) \<Rightarrow> bool" where
  "arrays_ok c ts ars \<longleftrightarrow>
     (\<forall>a < 2. bm_wf (bitmap_bits (ars a)) 128 \<and> (\<forall>q. distinct (queues (ars a) q)) \<and>
        (\<forall>q t. t \<in> set (queues (ars a) q) \<longrightarrow>
           q < 128 \<and> priority (ts t) = q \<and> tcpu (ts t) = c \<and> arr_of ts t = Some a \<and>
           bm_test (bitmap_bits (ars a)) q)) \<and>
     (\<forall>t a. arr_of ts t = Some a \<and> tcpu (ts t) = c \<longrightarrow> a < 2 \<and> t \<in> set (queues (ars a) (priority (ts t))))"

definition cpu_inv :: "nat \<Rightarrow> (nat \<Rightarrow> task) \<Rightarrow> sched_cpudata \<Rightarrow> bool" where
  "cpu_inv c ts cd \<longleftrightarrow> arrays_ok c ts (arrays cd) \<and>
     (active_array cd = 0 \<and> expired_array cd = 1 \<or> active_array cd = 1 \<and> expired_array cd = 0)"

lemma queuedD:
  assumes "arrays_ok c ts ars" "t \<in> set (queues (ars a) q)" "a < 2"
  shows "q < 128" "priority (ts t) = q" "tcpu (ts t) = c" "arr_of ts t = Some a" "bm_test (bitmap_bits (ars a)) q"
  using assms unfolding arrays_ok_def by blast+

lemma arrays_okD:
  assumes "arrays_ok c ts ars" "a < 2"
  shows "bm_wf (bitmap_bits (ars a)) 128" "distinct (queues (ars a) q)"
  using assms unfolding arrays_ok_def by blast+

lemma arr_queued:
  assumes "arrays_ok c ts ars" "arr_of ts t = Some a" "tcpu (ts t) = c"
  shows "a < 2" "t \<in> set (queues (ars a) (priority (ts t)))" "priority (ts t) < 128"
  using assms unfolding arrays_ok_def by (metis)+

lemma cpu_inv_cong:
  assumes "\<And>t. tcpu (ts t) = c \<or> tcpu (ts' t) = c \<Longrightarrow>
     priority (ts' t) = priority (ts t) \<and> tcpu (ts' t) = tcpu (ts t) \<and> arr_of ts' t = arr_of ts t"
    and "cpu_inv c ts cd"
  shows "cpu_inv c ts' cd"
  using assms unfolding cpu_inv_def arrays_ok_def by metis

lemma cpu_inv_fields [simp]:
  "cpu_inv c ts (cd\<lparr>stats := x\<rparr>) = cpu_inv c ts cd"
  "cpu_inv c ts (cd\<lparr>running_task := r\<rparr>) = cpu_inv c ts cd"
  by (simp_all add: cpu_inv_def)

lemma cpu_inv_swap:
  "cpu_inv c ts cd \<Longrightarrow> cpu_inv c ts (cd\<lparr>active_array := expired_array cd, expired_array := active_array cd\<rparr>)"
  by (auto simp: cpu_inv_def)

lemma active_less: "cpu_inv c ts cd \<Longrightarrow> active_array cd < 2 \<and> expired_array cd < 2"
  by (auto simp: cpu_inv_def)

lemma on_runlist_arr:
  assumes "cpu_inv c ts cd"
  shows "on_runlist t cd \<longleftrightarrow> tcpu (ts t) = c \<and> arr_of ts t \<noteq> None"
proof
  assume "on_runlist t cd"
  then obtain a q where "a < 2" "t \<in> set (queues (arrays cd a) q)"
    by (auto simp: on_runlist_def list_ex_iff)
  then show "tcpu (ts t) = c \<and> arr_of ts t \<noteq> None"
    using assms unfolding cpu_inv_def arrays_ok_def by (metis option.distinct(1))
next
  assume "tcpu (ts t) = c \<and> arr_of ts t \<noteq> None"
  then obtain a where a: "arr_of ts t = Some a" "tcpu (ts t) = c" by blast
  then have "a < 2" "t \<in> set (queues (arrays cd a) (priority (ts t)))" "priority (ts t) < 128"
    using assms unfolding cpu_inv_def arrays_ok_def by blast+
  then show "on_runlist t cd"
    unfolding on_runlist_def list_ex_iff EZA_SCHED_TOTAL_PRIOS_def
    by (intro bexI [of _ a] bexI [of _ "priority (ts t)"]) auto
qed

lemma arr_of_upd:
  "arr_of (upd_task t f ts) u = (if u = t then (case sched_data (f (ts t)) of Some sd \<Rightarrow> in_array sd | None \<Rightarrow> None)
     else arr_of ts u)"
  by (simp add: arr_of_def)

text \<open>Removing a task keeps the invariant, even through the array it is not queued in.\<close>

lemma remove_task_spec:
  assumes inv: "cpu_inv c ts cd" and t: "tcpu (ts t) = c" "sched_data (ts t) = Some sd" "in_array sd = Some a"
    and b: "b < 2"
  obtains cd' where
    "remove_task_from_array b t (ts, cd) =
       Some (upd_task t (sched_data_update (\<lambda>_. Some (sd\<lparr>in_array := None\<rparr>))) ts, cd')"
    "cpu_inv c (upd_task t (sched_data_update (\<lambda>_. Some (sd\<lparr>in_array := None\<rparr>))) ts) cd'"
    "active_array cd' = active_array cd" "expired_array cd' = expired_array cd"
    "running_task cd' = running_task cd"
    "\<And>x q. queues (arrays cd' x) q = remove1 t (queues (arrays cd x) q)"
    "\<And>x q. q < 128 \<Longrightarrow> bm_test (bitmap_bits (arrays cd' x)) q \<longleftrightarrow> bm_test (bitmap_bits (arrays cd x)) q \<and>
        \<not> (x = b \<and> q = priority (ts t) \<and> remove1 t (queues (arrays cd x) q) = [])"
proof -
  let ?ts = "upd_task t (sched_data_update (\<lambda>_. Some (sd\<lparr>in_array := None\<rparr>))) ts"
  let ?q = "\<lambda>x q. remove1 t (queues (arrays cd x) q)" and ?p = "priority (ts t)"
  have arr: "arr_of ts t = Some a" using t by (simp add: arr_of_def)
  have ok: "arrays_ok c ts (arrays cd)" using inv by (simp add: cpu_inv_def)
  have p: "?p < 128" using arr_queued [OF ok arr t(1)] by simp
  have on: "on_runlist t cd" using on_runlist_arr [OF inv] arr t(1) by simp
  have wf: "bm_wf (bitmap_bits (arrays cd b)) 128" by (rule arrays_okD [OF ok b])
  obtain bm where bm: "reset_and_test_bit_mem (bitmap_bits (arrays cd b)) ?p = Some (of_bool (bm_test (bitmap_bits (arrays cd b)) ?p), bm)"
    "bm_wf bm 128" "\<forall>j < 128. bm_test bm j \<longleftrightarrow> j \<noteq> ?p \<and> bm_test (bitmap_bits (arrays cd b)) j"
    using wbm.resets_law [OF wf p] by blast
  let ?ar = "(arrays cd b)\<lparr>queues := ?q b, num_tasks := num_tasks (arrays cd b) - 1\<rparr>"
  let ?cd = "cd\<lparr>arrays := (\<lambda>x. (arrays cd x)\<lparr>queues := ?q x\<rparr>)
                  (b := if ?q b ?p = [] then ?ar\<lparr>bitmap_bits := bm\<rparr> else ?ar)\<rparr>"
  have qs: "queues (arrays ?cd x) q = ?q x q" for x q by simp
  have arr': "arr_of ?ts u = (if u = t then None else arr_of ts u)" for u by (simp add: arr_of_upd)
  have "remove_task_from_array b t (ts, cd) = Some (?ts, ?cd)"
    using t(2) on bm(1) by (simp add: remove_task_from_array_def del_runlist_def fun_upd_def cong: if_cong)
  moreover have "arrays_ok c ?ts (arrays ?cd)"
    unfolding arrays_ok_def
  proof (intro conjI allI impI)
    fix x assume x: "x < (2::nat)"
    show "bm_wf (bitmap_bits (arrays ?cd x)) 128" using arrays_okD(1) [OF ok x] bm(2) by auto
    fix q show "distinct (queues (arrays ?cd x) q)" unfolding qs using arrays_okD(2) [OF ok x] by simp
    fix u assume "u \<in> set (queues (arrays ?cd x) q)"
    then have u: "u \<in> set (queues (arrays cd x) q)" "u \<noteq> t" and ne: "?q x q \<noteq> []"
      unfolding qs using set_remove1_eq [OF arrays_okD(2) [OF ok x]] by (auto, metis DiffI empty_iff list.set(1) singletonD)
    note k = queuedD [OF ok u(1) x]
    show "q < 128" "priority (?ts u) = q" "tcpu (?ts u) = c" "arr_of ?ts u = Some x"
      using k u arr' by auto
    show "bm_test (bitmap_bits (arrays ?cd x)) q" using k(1,5) bm(3) ne by auto
  next
    fix u x assume "arr_of ?ts u = Some x \<and> tcpu (?ts u) = c"
    then have u: "u \<noteq> t" "arr_of ts u = Some x \<and> tcpu (ts u) = c" using arr' by (auto split: if_splits)
    then have "x < 2" "u \<in> set (queues (arrays cd x) (priority (ts u)))" using arr_queued [OF ok] by blast+
    then show "x < 2" "u \<in> set (queues (arrays ?cd x) (priority (?ts u)))" unfolding qs using u(1) by auto
  qed
  moreover have "bm_test (bitmap_bits (arrays ?cd x)) q \<longleftrightarrow> bm_test (bitmap_bits (arrays cd x)) q \<and>
        \<not> (x = b \<and> q = ?p \<and> ?q x q = [])" if "q < 128" for x q
    using bm(3) that by auto
  ultimately show thesis using that [of ?cd] inv qs by (simp add: cpu_inv_def)
qed

lemma add_task_spec:
  assumes inv: "cpu_inv c ts cd" and t: "tcpu (ts t) = c" "sched_data (ts t) = Some sd" "in_array sd = None"
    and p: "priority (ts t) < 128" and a: "a < 2"
  obtains cd' where
    "add_task_to_array a t (ts, cd) = Some (upd_task t (sched_data_update (\<lambda>_. Some (sd\<lparr>in_array := Some a\<rparr>))) ts, cd')"
    "cpu_inv c (upd_task t (sched_data_update (\<lambda>_. Some (sd\<lparr>in_array := Some a\<rparr>))) ts) cd'"
    "active_array cd' = active_array cd" "expired_array cd' = expired_array cd"
    "running_task cd' = running_task cd"
    "\<And>x q. queues (arrays cd' x) q = queues (arrays cd x) q @ (if x = a \<and> q = priority (ts t) then [t] else [])"
    "\<And>x q. x < 2 \<Longrightarrow> q < 128 \<Longrightarrow> bm_test (bitmap_bits (arrays cd' x)) q \<longleftrightarrow>
        x = a \<and> q = priority (ts t) \<or> bm_test (bitmap_bits (arrays cd x)) q"
proof -
  let ?ts = "upd_task t (sched_data_update (\<lambda>_. Some (sd\<lparr>in_array := Some a\<rparr>))) ts" and ?p = "priority (ts t)"
  have arr: "arr_of ts t = None" using t by (simp add: arr_of_def)
  have ok: "arrays_ok c ts (arrays cd)" using inv by (simp add: cpu_inv_def)
  have off: "\<not> on_runlist t cd" using on_runlist_arr [OF inv] arr by simp
  have notin: "t \<notin> set (queues (arrays cd x) q)" if "x < 2" for x q
    using queuedD(4) [OF ok _ that, of t q] arr by auto
  obtain bm where bm: "set_and_test_bit_mem (bitmap_bits (arrays cd a)) ?p = Some (of_bool (bm_test (bitmap_bits (arrays cd a)) ?p), bm)"
    "bm_wf bm 128" "\<forall>j < 128. bm_test bm j \<longleftrightarrow> j = ?p \<or> bm_test (bitmap_bits (arrays cd a)) j"
    using wbm.sets_law [OF arrays_okD(1) [OF ok a] p] by blast
  let ?cd = "upd_array a (\<lambda>ar. ar\<lparr>bitmap_bits := bm, queues := (queues ar)(?p := queues ar ?p @ [t]),
                                   num_tasks := num_tasks ar + 1\<rparr>) cd"
  have qs: "queues (arrays ?cd x) q = queues (arrays cd x) q @ (if x = a \<and> q = ?p then [t] else [])" for x q by auto
  have bs: "bm_test (bitmap_bits (arrays ?cd x)) q \<longleftrightarrow> x = a \<and> q = ?p \<or> bm_test (bitmap_bits (arrays cd x)) q"
    if "q < 128" for x q using bm(3) that by auto
  have arr': "arr_of ?ts u = (if u = t then Some a else arr_of ts u)" for u by (simp add: arr_of_upd)
  have "add_task_to_array a t (ts, cd) = Some (?ts, ?cd)"
    using t(2) off bm(1) by (simp add: add_task_to_array_def Let_def)
  moreover have "arrays_ok c ?ts (arrays ?cd)"
    unfolding arrays_ok_def
  proof (intro conjI allI impI)
    fix x assume x: "x < (2::nat)"
    show "bm_wf (bitmap_bits (arrays ?cd x)) 128" using arrays_okD(1) [OF ok x] bm(2) by simp
    fix q show "distinct (queues (arrays ?cd x) q)"
      unfolding qs using arrays_okD(2) [OF ok x] notin [OF x] by auto
    fix u assume "u \<in> set (queues (arrays ?cd x) q)"
    then have "u = t \<and> x = a \<and> q = ?p \<or> u \<noteq> t \<and> u \<in> set (queues (arrays cd x) q)"
      unfolding qs using notin [OF x] by (auto split: if_splits)
    then have k: "q < 128 \<and> priority (?ts u) = q \<and> tcpu (?ts u) = c \<and> arr_of ?ts u = Some x \<and>
        (x = a \<and> q = ?p \<or> bm_test (bitmap_bits (arrays cd x)) q)"
      using queuedD [OF ok _ x, of u q] p t(1) arr' by auto
    then show "q < 128" "priority (?ts u) = q" "tcpu (?ts u) = c" "arr_of ?ts u = Some x"
      "bm_test (bitmap_bits (arrays ?cd x)) q" using bs by blast+
  next
    fix u x assume u: "arr_of ?ts u = Some x \<and> tcpu (?ts u) = c"
    have "x < 2 \<and> u \<in> set (queues (arrays cd x) (priority (ts u)) @ (if x = a \<and> priority (ts u) = ?p then [t] else []))"
    proof (cases "u = t")
      case True
      then show ?thesis using u arr' a by auto
    next
      case False
      then show ?thesis using u arr' arr_queued [OF ok, of u x] by auto
    qed
    then show "x < 2" "u \<in> set (queues (arrays ?cd x) (priority (?ts u)))" unfolding qs by auto
  qed
  ultimately show thesis using that [of ?cd] inv qs bs by (simp add: cpu_inv_def)
qed

text \<open>
  The choice of the next task: a returned task heads the queue of the best priority of the
  active array; without a task the bitmap was empty or its lowest bit was stale.
\<close>

definition stale_free :: "sched_cpudata \<Rightarrow> bool" where
  "stale_free cd \<longleftrightarrow> (\<forall>a < 2. \<forall>q < 128. bm_test (bitmap_bits (arrays cd a)) q \<longrightarrow> queues (arrays cd a) q \<noteq> [])"

definition best_of :: "(nat \<Rightarrow> task) \<Rightarrow> sched_prio_array \<Rightarrow> nat \<Rightarrow> bool" where
  "best_of ts ar t \<longleftrightarrow> queues ar (priority (ts t)) \<noteq> [] \<and> hd (queues ar (priority (ts t))) = t \<and>
     (\<forall>q. queues ar q \<noteq> [] \<longrightarrow> priority (ts t) \<le> q)"

lemma get_most_prioritized_spec:
  assumes inv: "cpu_inv c ts cd"
  obtains n cd' where "get_most_prioritized_task cd = Some (n, cd')" "cpu_inv c ts cd'"
    "active_array cd' = active_array cd" "expired_array cd' = expired_array cd"
    "running_task cd' = running_task cd" "\<And>x. queues (arrays cd' x) = queues (arrays cd x)"
    "\<And>t. n = Some t \<Longrightarrow> best_of ts (arrays cd (active_array cd)) t \<and> cd' = cd"
    "n = None \<Longrightarrow> stale_free cd \<Longrightarrow> cd' = cd \<and> (\<forall>q. queues (arrays cd (active_array cd)) q = [])"
proof -
  let ?a = "active_array cd" let ?ar = "arrays cd ?a"
  have ok: "arrays_ok c ts (arrays cd)" and a: "?a < 2" using inv active_less by (auto simp: cpu_inv_def)
  have wf: "bm_wf (bitmap_bits ?ar) 128" by (rule arrays_okD(1) [OF ok a])
  obtain r where r: "find_first_bit (bitmap_bits ?ar) 128 = Some r"
    and rr: "case r of None \<Rightarrow> \<forall>j < 128. \<not> bm_test (bitmap_bits ?ar) j
      | Some k \<Rightarrow> k < 128 \<and> bm_test (bitmap_bits ?ar) k \<and> (\<forall>j < k. \<not> bm_test (bitmap_bits ?ar) j)"
    using wbm.ffs_law [OF wf] by blast
  have ffs: "find_first_bit_mem (bitmap_bits ?ar) EZA_SCHED_TOTAL_WIDTH = Some r"
    using r by (simp add: find_first_bit_def EZA_SCHED_TOTAL_WIDTH_def)
  have bit: "q < 128 \<and> bm_test (bitmap_bits ?ar) q" if "queues ?ar q \<noteq> []" for q
    using that queuedD(1,5) [OF ok _ a, of "hd (queues ?ar q)" q] by auto
  show thesis
  proof (cases r)
    case None
    then have "\<forall>q. queues ?ar q = []" using rr bit by auto
    then show thesis using that [of None cd] ffs None inv by (simp add: get_most_prioritized_task_def Let_def)
  next
    case (Some k)
    then have k: "k < 128" "bm_test (bitmap_bits ?ar) k" "\<forall>j < k. \<not> bm_test (bitmap_bits ?ar) j" using rr by auto
    show thesis
    proof (cases "queues ?ar k")
      case (Cons t ys)
      have "priority (ts t) = k" using queuedD(2) [OF ok _ a, of t k] Cons by simp
      then have "best_of ts ?ar t" using Cons k(3) bit by (auto simp: best_of_def not_less [symmetric])
      then show thesis using that [of "Some t" cd] ffs Some Cons inv
        by (simp add: get_most_prioritized_task_def Let_def)
    next
      case Nil
      obtain bm where bm: "reset_and_test_bit_mem (bitmap_bits ?ar) k = Some (of_bool (bm_test (bitmap_bits ?ar) k), bm)"
        "bm_wf bm 128" "\<forall>j < 128. bm_test bm j \<longleftrightarrow> j \<noteq> k \<and> bm_test (bitmap_bits ?ar) j"
        using wbm.resets_law [OF wf k(1)] by blast
      let ?cd = "upd_array ?a (\<lambda>ar. ar\<lparr>bitmap_bits := bm\<rparr>) cd"
      have "arrays_ok c ts (arrays ?cd)"
        unfolding arrays_ok_def
      proof (intro conjI allI impI)
        fix x assume x: "x < (2::nat)"
        show "bm_wf (bitmap_bits (arrays ?cd x)) 128" using arrays_okD(1) [OF ok x] bm(2) by simp
        fix q show "distinct (queues (arrays ?cd x) q)" using arrays_okD(2) [OF ok x] a by (simp add: arrays_okD(2) [OF ok])
        fix u assume "u \<in> set (queues (arrays ?cd x) q)"
        then have u: "u \<in> set (queues (arrays cd x) q)" by (simp split: if_splits)
        then show "q < 128" "priority (ts u) = q" "tcpu (ts u) = c" "arr_of ts u = Some x"
          using queuedD [OF ok u x] by auto
        show "bm_test (bitmap_bits (arrays ?cd x)) q" using queuedD [OF ok u x] bm(3) Nil u by auto
      next
        fix u x assume "arr_of ts u = Some x \<and> tcpu (ts u) = c"
        then show "x < 2" "u \<in> set (queues (arrays ?cd x) (priority (ts u)))" using arr_queued [OF ok] by auto
      qed
      moreover have "\<not> stale_free cd" using k a Nil by (auto simp: stale_free_def)
      ultimately show thesis using that [of None ?cd] ffs Some Nil bm(1) inv
        by (simp add: get_most_prioritized_task_def Let_def cpu_inv_def)
    qed
  qed
qed

definition picked :: "nat \<Rightarrow> (nat \<Rightarrow> task) \<Rightarrow> sched_cpudata \<Rightarrow> nat option \<Rightarrow> sched_cpudata \<Rightarrow> bool" where
  "picked c ts cd n cd' \<longleftrightarrow> cpu_inv c ts cd' \<and>
    active_array cd' = active_array cd \<and> expired_array cd' = expired_array cd \<and>
    running_task cd' = running_task cd \<and> (\<forall>x. queues (arrays cd' x) = queues (arrays cd x)) \<and>
    (\<forall>t. n = Some t \<longrightarrow> best_of ts (arrays cd (active_array cd)) t \<and> cd' = cd) \<and>
    (n = None \<longrightarrow> stale_free cd \<longrightarrow> cd' = cd \<and> (\<forall>q. queues (arrays cd (active_array cd)) q = []))"

lemma get_most_prioritized_ex:
  assumes inv: "cpu_inv c ts cd"
  shows "\<exists>n cd'. get_most_prioritized_task cd = Some (n, cd') \<and> picked c ts cd n cd'"
  unfolding picked_def
  by (rule get_most_prioritized_spec [OF inv], intro exI conjI allI impI) (assumption | simp)+

section \<open>The invariant of the scheduler\<close>

definition is_idle :: "sched \<Rightarrow> nat \<Rightarrow> bool" where
  "is_idle s t \<longleftrightarrow> (\<exists>c. t = idle_tasks s c)"

abbreviation runs :: "task_state \<Rightarrow> bool" where
  "runs st \<equiv> st = TASK_STATE_RUNNING \<or> st = TASK_STATE_RUNNABLE"

text \<open>What the invariant says of one task, given its number and its record.\<close>

definition task_ok :: "sched \<Rightarrow> nat \<Rightarrow> task \<Rightarrow> nat option \<Rightarrow> bool" where
  "task_ok s t x a \<longleftrightarrow>
     (a \<noteq> None \<longrightarrow> runs (tstate x) \<or> tstate x = TASK_STATE_ZOMBIE) \<and>
     (runs (tstate x) \<longrightarrow> is_idle s t \<or> a \<noteq> None) \<and>
     (is_idle s t \<longrightarrow> a = None) \<and>
     (sched_data x \<noteq> None \<and> \<not> is_idle s t \<longrightarrow> static_priority x < 128 \<and> cpus s (tcpu x) \<noteq> None)"

definition sched_inv :: "sched \<Rightarrow> bool" where
  "sched_inv s \<longleftrightarrow> (\<forall>c cd. cpus s c = Some cd \<longrightarrow> cpu_inv c (tasks s) cd) \<and>
     (\<forall>t. task_ok s t (tasks s t) (arr_of (tasks s) t))"

lemma sched_inv_fields [simp]:
  "sched_inv (s\<lparr>need_resched := x\<rparr>) = sched_inv s" "sched_inv (s\<lparr>current := y\<rparr>) = sched_inv s"
  by (simp_all add: sched_inv_def task_ok_def is_idle_def)

lemma is_idle_fields [simp]:
  "is_idle (s\<lparr>tasks := ts\<rparr>) = is_idle s" "is_idle (s\<lparr>cpus := cs\<rparr>) = is_idle s"
  "is_idle (s\<lparr>current := cu\<rparr>) = is_idle s" "is_idle (s\<lparr>need_resched := nr\<rparr>) = is_idle s"
  by (simp_all add: is_idle_def fun_eq_iff)

lemma sched_inv_reschedule [simp]: "sched_inv (reschedule_task t s) = sched_inv s"
  by (simp add: reschedule_task_def)

lemma sched_inv_update:
  assumes inv: "sched_inv s" and c: "c = tcpu (tasks s t)" "cpus s c \<noteq> None"
    and cd: "cpu_inv c ts' cd'" and other: "\<And>u. u \<noteq> t \<Longrightarrow> ts' u = tasks s u" and tc: "tcpu (ts' t) = c"
    and ok: "task_ok s t (ts' t) (arr_of ts' t)"
  shows "sched_inv (s\<lparr>tasks := ts', cpus := (cpus s)(c \<mapsto> cd')\<rparr>)"
  unfolding sched_inv_def
proof (intro conjI allI impI)
  let ?s = "s\<lparr>tasks := ts', cpus := (cpus s)(c \<mapsto> cd')\<rparr>"
  have arr: "arr_of ts' u = arr_of (tasks s) u" if "u \<noteq> t" for u using other [OF that] by (simp add: arr_of_def)
  show "cpu_inv c' (tasks ?s) cd1" if "cpus ?s c' = Some cd1" for c' cd1
  proof (cases "c' = c")
    case False
    then have "cpu_inv c' (tasks s) cd1" using inv that by (simp add: sched_inv_def)
    moreover have "priority (ts' u) = priority (tasks s u) \<and> tcpu (ts' u) = tcpu (tasks s u) \<and> arr_of ts' u = arr_of (tasks s) u"
      if "tcpu (tasks s u) = c' \<or> tcpu (ts' u) = c'" for u
    proof -
      have "u \<noteq> t" using that False c(1) tc by auto
      then show ?thesis using other arr by simp
    qed
    ultimately show ?thesis using cpu_inv_cong [of "tasks s" c' ts' cd1] by simp
  qed (use cd that in simp)
  show "task_ok ?s u (tasks ?s u) (arr_of (tasks ?s) u)" for u
  proof (cases "u = t")
    case True
    then show ?thesis using ok tc by (auto simp: task_ok_def)
  next
    case False
    have "task_ok s u (tasks s u) (arr_of (tasks s) u)" using inv by (simp add: sched_inv_def)
    then show ?thesis using other [OF False] arr [OF False] by (auto simp: task_ok_def)
  qed
qed

text \<open>Updates of a task that the invariant of its CPU does not see.\<close>

lemma sched_inv_task:
  assumes inv: "sched_inv s" and x: "arr_of (upd_task t f (tasks s)) t = arr_of (tasks s) t"
    "priority (f (tasks s t)) = priority (tasks s t)" "tcpu (f (tasks s t)) = tcpu (tasks s t)"
    and ok: "task_ok s t (f (tasks s t)) (arr_of (tasks s) t)"
  shows "sched_inv (s\<lparr>tasks := upd_task t f (tasks s)\<rparr>)"
  unfolding sched_inv_def
proof (intro conjI allI impI)
  let ?ts = "upd_task t f (tasks s)"
  have arr: "arr_of ?ts u = arr_of (tasks s) u" for u using x(1) by (simp add: arr_of_def)
  have same: "priority (?ts u) = priority (tasks s u) \<and> tcpu (?ts u) = tcpu (tasks s u) \<and> arr_of ?ts u = arr_of (tasks s) u" for u
    using arr x(2,3) by simp
  show "cpu_inv c (tasks (s\<lparr>tasks := ?ts\<rparr>)) cd" if "cpus (s\<lparr>tasks := ?ts\<rparr>) c = Some cd" for c cd
    using cpu_inv_cong [of "tasks s" c ?ts cd] same inv that by (simp add: sched_inv_def)
  show "task_ok (s\<lparr>tasks := ?ts\<rparr>) u (tasks (s\<lparr>tasks := ?ts\<rparr>) u) (arr_of (tasks (s\<lparr>tasks := ?ts\<rparr>)) u)" for u
    using inv ok arr by (auto simp: sched_inv_def task_ok_def)
qed

section \<open>Every operation keeps the invariant and does not fault\<close>

lemma task_okD: "sched_inv s \<Longrightarrow> task_ok s t (tasks s t) (arr_of (tasks s) t)"
  by (simp add: sched_inv_def)

definition new_slice :: "nat \<Rightarrow> sched_taskdata \<Rightarrow> 32 word" where
  "new_slice p sd = (if max_timeslice sd \<noteq> 0 \<and> PRIO_TO_TIMESLICE p > max_timeslice sd then max_timeslice sd
     else PRIO_TO_TIMESLICE p)"

lemma recalculate_eq:
  assumes "sched_data (ts t) = Some sd"
  shows "recalculate_timeslice_and_priority t ts =
     Some (upd_task t (\<lambda>x. x\<lparr>priority := static_priority x,
       sched_data := Some (sd\<lparr>time_slice := new_slice (static_priority x) sd\<rparr>)\<rparr>) ts)"
  using assms by (simp add: recalculate_timeslice_and_priority_def Let_def new_slice_def)

lemma cpu_inv_unqueued:
  assumes inv: "cpu_inv c ts cd" and t: "arr_of ts t = None" "arr_of (upd_task t f ts) t = None"
  shows "cpu_inv c (upd_task t f ts) cd"
proof -
  let ?ts = "upd_task t f ts"
  have ok: "arrays_ok c ts (arrays cd)" using inv by (simp add: cpu_inv_def)
  have nt: "u \<noteq> t" if "u \<in> set (queues (arrays cd a) q)" "a < 2" for u a q
    using queuedD(4) [OF ok that] t(1) by auto
  have same: "arr_of ?ts u = arr_of ts u" for u using t by (cases "u = t") (auto simp: arr_of_def)
  have "arrays_ok c ?ts (arrays cd)" unfolding arrays_ok_def
  proof (intro conjI allI impI)
    fix a assume a: "a < (2::nat)"
    show "bm_wf (bitmap_bits (arrays cd a)) 128" by (rule arrays_okD [OF ok a])
    fix q show "distinct (queues (arrays cd a) q)" by (rule arrays_okD [OF ok a])
    fix u assume u: "u \<in> set (queues (arrays cd a) q)"
    then show "q < 128" "priority (?ts u) = q" "tcpu (?ts u) = c" "arr_of ?ts u = Some a"
      "bm_test (bitmap_bits (arrays cd a)) q"
      using queuedD [OF ok u a] nt [OF u a] same by auto
  next
    fix u a assume u: "arr_of ?ts u = Some a \<and> tcpu (?ts u) = c"
    then have "u \<noteq> t" using t(2) by auto
    then show "a < 2" "u \<in> set (queues (arrays cd a) (priority (?ts u)))"
      using arr_queued [OF ok, of u a] u same by auto
  qed
  then show ?thesis using inv by (simp add: cpu_inv_def)
qed

lemma make_runnable_spec:
  assumes inv: "sched_inv s" and t: "sched_data (tasks s t) = Some sd" "\<not> is_idle s t" "arr_of (tasks s) t = None"
  obtains s' cd cd' where "make_runnable t s = Some s'" "sched_inv s'"
    "cpus s (tcpu (tasks s t)) = Some cd" "cpus s' = (cpus s)(tcpu (tasks s t) \<mapsto> cd')"
    "tstate (tasks s' t) = TASK_STATE_RUNNABLE" "\<And>u. u \<noteq> t \<Longrightarrow> tasks s' u = tasks s u"
    "idle_tasks s' = idle_tasks s"
    "\<And>x q. queues (arrays cd' x) q = queues (arrays cd x) q @
        (if x = active_array cd \<and> q = static_priority (tasks s t) then [t] else [])"
proof -
  let ?c = "tcpu (tasks s t)"
  have ok: "task_ok s t (tasks s t) None" using task_okD [OF inv, of t] t(3) by simp
  then have p: "static_priority (tasks s t) < 128" and "cpus s ?c \<noteq> None" using t by (auto simp: task_ok_def)
  then obtain cd where cd: "cpus s ?c = Some cd" by blast
  have ci: "cpu_inv ?c (tasks s) cd" using inv cd by (simp add: sched_inv_def)
  let ?sd = "sd\<lparr>time_slice := new_slice (static_priority (tasks s t)) sd\<rparr>"
  let ?f = "\<lambda>x. x\<lparr>priority := static_priority x, sched_data := Some ?sd, tstate := TASK_STATE_RUNNABLE\<rparr>"
  let ?ts = "upd_task t ?f (tasks s)"
  have sd: "in_array sd = None" using t(1,3) by (simp add: arr_of_def)
  have ci': "cpu_inv ?c ?ts cd" by (rule cpu_inv_unqueued [OF ci t(3)]) (simp add: arr_of_def sd)
  let ?ts' = "upd_task t (sched_data_update (\<lambda>_. Some (?sd\<lparr>in_array := Some (active_array cd)\<rparr>))) ?ts"
  have pre: "tcpu (?ts t) = ?c" "sched_data (?ts t) = Some ?sd" "in_array ?sd = None" "priority (?ts t) < 128"
    using sd p by simp_all
  have act: "active_array cd < 2" using active_less [OF ci] by simp
  obtain cd' where cd': "add_task_to_array (active_array cd) t (?ts, cd) = Some (?ts', cd')" "cpu_inv ?c ?ts' cd'"
    and qs: "\<And>x q. queues (arrays cd' x) q = queues (arrays cd x) q @ (if x = active_array cd \<and> q = priority (?ts t) then [t] else [])"
  proof (rule add_task_spec [OF ci' pre act])
    fix cd' assume "add_task_to_array (active_array cd) t (?ts, cd) = Some (?ts', cd')" "cpu_inv ?c ?ts' cd'"
      "\<And>x q. queues (arrays cd' x) q = queues (arrays cd x) q @ (if x = active_array cd \<and> q = priority (?ts t) then [t] else [])"
    then show thesis by (rule that)
  qed
  let ?cd = "cd'\<lparr>stats := (stats cd')\<lparr>active_tasks := active_tasks (stats cd') + 1\<rparr>\<rparr>"
  let ?s = "s\<lparr>tasks := ?ts', cpus := (cpus s)(?c \<mapsto> ?cd)\<rparr>"
  have "sched_inv ?s"
    by (rule sched_inv_update [OF inv]) (use cd cd'(2) ok t p in \<open>auto simp: task_ok_def arr_of_def\<close>)
  moreover have "make_runnable t s =
      Some (if priority (?ts' t) < priority (?ts' (running_task ?cd)) then reschedule_task t ?s else ?s)"
    using cd cd'(1) by (simp add: make_runnable_def recalculate_eq [of "tasks s", OF t(1)] Let_def)
  ultimately show thesis
    by (intro that [of "if priority (?ts' t) < priority (?ts' (running_task ?cd)) then reschedule_task t ?s else ?s" cd ?cd])
      (use cd qs in \<open>auto simp: reschedule_task_def\<close>)
qed

lemma make_blocked_spec:
  assumes inv: "sched_inv s" and t: "\<not> is_idle s t" and r: "runs (tstate (tasks s t))"
    and n: "\<not> runs st" "st \<noteq> TASK_STATE_ZOMBIE"
  obtains s' cd cd' where "make_blocked t st s = Some (0, s')" "sched_inv s'"
    "cpus s (tcpu (tasks s t)) = Some cd" "cpus s' = (cpus s)(tcpu (tasks s t) \<mapsto> cd')"
    "tstate (tasks s' t) = st" "arr_of (tasks s') t = None" "\<And>u. u \<noteq> t \<Longrightarrow> tasks s' u = tasks s u"
    "idle_tasks s' = idle_tasks s"
    "\<And>x q. queues (arrays cd' x) q = remove1 t (queues (arrays cd x) q)"
proof -
  let ?c = "tcpu (tasks s t)"
  have ok: "task_ok s t (tasks s t) (arr_of (tasks s) t)" by (rule task_okD [OF inv])
  then obtain a where "arr_of (tasks s) t = Some a" using r t by (auto simp: task_ok_def)
  then obtain sd where sd: "sched_data (tasks s t) = Some sd" "in_array sd = Some a"
    by (auto simp: arr_of_def split: option.splits)
  then obtain cd where cd: "cpus s ?c = Some cd" using ok t by (auto simp: task_ok_def)
  have ci: "cpu_inv ?c (tasks s) cd" using inv cd by (simp add: sched_inv_def)
  have a: "a < 2" using arr_queued(1) [of ?c "tasks s" "arrays cd" t a] ci sd by (simp add: cpu_inv_def arr_of_def)
  let ?ts = "upd_task t (sched_data_update (\<lambda>_. Some (sd\<lparr>in_array := None\<rparr>))) (tasks s)"
  obtain cd' where cd': "remove_task_from_array a t (tasks s, cd) = Some (?ts, cd')" "cpu_inv ?c ?ts cd'"
    "\<And>x q. queues (arrays cd' x) q = remove1 t (queues (arrays cd x) q)"
    using remove_task_spec [OF ci refl sd a] by metis
  let ?ts' = "upd_task t (\<lambda>x. x\<lparr>tstate := st\<rparr>) ?ts"
  let ?cd = "cd'\<lparr>stats := (stats cd')\<lparr>active_tasks := active_tasks (stats cd') - 1, sleeping_tasks := sleeping_tasks (stats cd') + 1\<rparr>\<rparr>"
  let ?s = "s\<lparr>tasks := ?ts', cpus := (cpus s)(?c \<mapsto> ?cd)\<rparr>"
  have "cpu_inv ?c ?ts' cd'" by (rule cpu_inv_unqueued [OF cd'(2)]) (simp_all add: arr_of_def)
  then have "sched_inv ?s"
    by (intro sched_inv_update [OF inv]) (use cd ok t n sd in \<open>auto simp: task_ok_def arr_of_def\<close>)
  moreover have "make_blocked t st s = Some (0, if t = running_task ?cd then reschedule_task t ?s else ?s)"
    using r cd sd cd'(1) by (auto simp: make_blocked_def Let_def)
  ultimately show thesis
    by (intro that [of "if t = running_task ?cd then reschedule_task t ?s else ?s" cd ?cd])
      (use cd cd'(3) in \<open>auto simp: reschedule_task_def arr_of_def\<close>)
qed

lemma change_task_state_spec:
  assumes inv: "sched_inv s" and t: "sched_data (tasks s t) \<noteq> None" "\<not> is_idle s t"
    and m: "state_bits TASK_STATE_ZOMBIE AND msk = 0"
  shows "\<exists>r s'. change_task_state t st h msk s = Some (r, s') \<and> sched_inv s' \<and> idle_tasks s' = idle_tasks s"
proof (cases "h \<noteq> Some False \<and> tstate (tasks s t) \<noteq> st \<and> state_bits (tstate (tasks s t)) AND msk \<noteq> 0")
  case False
  then show ?thesis using inv by (auto simp: change_task_state_def Let_def)
next
  case True
  have ok: "task_ok s t (tasks s t) (arr_of (tasks s) t)" by (rule task_okD [OF inv])
  have nz: "tstate (tasks s t) \<noteq> TASK_STATE_ZOMBIE" using True m by auto
  have blk: "\<exists>r s'. make_blocked t st s = Some (r, s') \<and> sched_inv s' \<and> idle_tasks s' = idle_tasks s"
    if n: "\<not> runs st" "st \<noteq> TASK_STATE_ZOMBIE"
  proof (cases "runs (tstate (tasks s t))")
    case True
    then show ?thesis using make_blocked_spec [OF inv t(2) True n] by metis
  next
    case False
    have "arr_of (tasks s) t = None" using ok False nz by (auto simp: task_ok_def)
    then have "sched_inv (s\<lparr>tasks := upd_task t (\<lambda>x. x\<lparr>tstate := st\<rparr>) (tasks s)\<rparr>)"
      by (intro sched_inv_task [OF inv]) (use ok n False in \<open>auto simp: task_ok_def arr_of_def\<close>)
    then show ?thesis using False nz inv by (auto simp: make_blocked_def)
  qed
  have run: "\<exists>s'. make_runnable t s = Some s' \<and> sched_inv s' \<and> idle_tasks s' = idle_tasks s"
    if "st = TASK_STATE_RUNNABLE" "tstate (tasks s t) \<noteq> TASK_STATE_RUNNING"
  proof -
    have "arr_of (tasks s) t = None" using ok that True nz by (auto simp: task_ok_def)
    then show ?thesis using make_runnable_spec [OF inv _ t(2)] t(1) by (metis option.exhaust_sel)
  qed
  show ?thesis using True inv blk run
    by (cases st) (auto simp: change_task_state_def Let_def)
qed

lemma sched_inv_cpu:
  assumes "sched_inv s" "cpus s c = Some cd" "cpu_inv c (tasks s) cd'"
  shows "sched_inv (s\<lparr>cpus := (cpus s)(c \<mapsto> cd')\<rparr>)"
  using assms by (auto simp: sched_inv_def task_ok_def)

text \<open>Taking a queued task off its queue, changing it, and queueing it again.\<close>

lemma requeue_spec:
  assumes inv: "cpu_inv c ts cd" and t: "tcpu (ts t) = c" "sched_data (ts t) = Some sd" "in_array sd = Some a0"
    and b: "b < 2" "a < 2"
    and ts1: "ts1 = upd_task t (sched_data_update (\<lambda>_. Some (sd\<lparr>in_array := None\<rparr>))) ts"
    and g: "tcpu (g (ts1 t)) = c" "sched_data (g (ts1 t)) = Some sd'" "in_array sd' = None" "priority (g (ts1 t)) < 128"
  obtains cd1 cd2 where "remove_task_from_array b t (ts, cd) = Some (ts1, cd1)"
    "active_array cd1 = active_array cd" "expired_array cd1 = expired_array cd"
    "add_task_to_array a t (upd_task t g ts1, cd1) =
       Some (upd_task t (sched_data_update (\<lambda>_. Some (sd'\<lparr>in_array := Some a\<rparr>))) (upd_task t g ts1), cd2)"
    "cpu_inv c (upd_task t (sched_data_update (\<lambda>_. Some (sd'\<lparr>in_array := Some a\<rparr>))) (upd_task t g ts1)) cd2"
    "active_array cd2 = active_array cd" "expired_array cd2 = expired_array cd" "running_task cd2 = running_task cd"
    "\<And>x q. queues (arrays cd2 x) q = remove1 t (queues (arrays cd x) q) @ (if x = a \<and> q = priority (g (ts1 t)) then [t] else [])"
proof (rule remove_task_spec [OF inv t b(1)], unfold ts1 [symmetric])
  fix cd1 assume 1: "remove_task_from_array b t (ts, cd) = Some (ts1, cd1)" "cpu_inv c ts1 cd1"
    "active_array cd1 = active_array cd" "expired_array cd1 = expired_array cd" "running_task cd1 = running_task cd"
    "\<And>x q. queues (arrays cd1 x) q = remove1 t (queues (arrays cd x) q)"
  have none: "arr_of ts1 t = None" by (simp add: ts1 arr_of_def)
  have "cpu_inv c (upd_task t g ts1) cd1"
    by (rule cpu_inv_unqueued [OF 1(2) none]) (simp add: arr_of_def g)
  then show thesis
  proof (rule add_task_spec [of c "upd_task t g ts1" cd1 t sd' a])
    fix cd2 assume 2: "add_task_to_array a t (upd_task t g ts1, cd1) =
       Some (upd_task t (sched_data_update (\<lambda>_. Some (sd'\<lparr>in_array := Some a\<rparr>))) (upd_task t g ts1), cd2)"
      "cpu_inv c (upd_task t (sched_data_update (\<lambda>_. Some (sd'\<lparr>in_array := Some a\<rparr>))) (upd_task t g ts1)) cd2"
      "active_array cd2 = active_array cd1" "expired_array cd2 = expired_array cd1" "running_task cd2 = running_task cd1"
      "\<And>x q. queues (arrays cd2 x) q = queues (arrays cd1 x) q @ (if x = a \<and> q = priority (upd_task t g ts1 t) then [t] else [])"
    show thesis by (rule that [OF 1(1,3,4) 2(1,2)]) (use 1 2 in simp_all)
  qed (use g b in simp_all)
qed

lemma queued_cpu:
  assumes inv: "sched_inv s" and a: "arr_of (tasks s) t = Some a"
  obtains sd cd where "sched_data (tasks s t) = Some sd" "in_array sd = Some a" "cpus s (tcpu (tasks s t)) = Some cd"
    "cpu_inv (tcpu (tasks s t)) (tasks s) cd" "static_priority (tasks s t) < 128" "\<not> is_idle s t"
proof -
  have ok: "task_ok s t (tasks s t) (Some a)" using task_okD [OF inv, of t] a by simp
  obtain sd where sd: "sched_data (tasks s t) = Some sd" "in_array sd = Some a"
    using a by (auto simp: arr_of_def split: option.splits)
  moreover have ni: "\<not> is_idle s t" using ok by (auto simp: task_ok_def)
  moreover obtain cd where cd: "cpus s (tcpu (tasks s t)) = Some cd" using ok sd ni by (auto simp: task_ok_def)
  moreover have "cpu_inv (tcpu (tasks s t)) (tasks s) cd" using inv cd by (simp add: sched_inv_def)
  ultimately show thesis using that ok by (auto simp: task_ok_def)
qed

lemma expire_spec:
  assumes inv: "sched_inv s" and cd: "cpus s c = Some cd" and on: "on_runlist t cd"
    and sd: "sched_data (tasks s t) = Some sd" and a: "a < 2"
  shows "\<exists>ts1 cd1 ts2 ts' cd'. remove_task_from_array (active_array cd) t (tasks s, cd) = Some (ts1, cd1) \<and>
     active_array cd1 = active_array cd \<and> expired_array cd1 = expired_array cd \<and>
     recalculate_timeslice_and_priority t ts1 = Some ts2 \<and>
     add_task_to_array a t (ts2, cd1) = Some (ts', cd') \<and>
     sched_inv (s\<lparr>tasks := ts', cpus := (cpus s)(c \<mapsto> cd')\<rparr>)"
proof -
  have ci: "cpu_inv c (tasks s) cd" using inv cd by (simp add: sched_inv_def)
  obtain a0 where tc: "tcpu (tasks s t) = c" and a0: "arr_of (tasks s) t = Some a0"
    using on on_runlist_arr [OF ci] by auto
  then have ia: "in_array sd = Some a0" using sd by (simp add: arr_of_def)
  have p: "static_priority (tasks s t) < 128" and ni: "\<not> is_idle s t"
    using queued_cpu [OF inv a0] by blast+
  let ?ts1 = "upd_task t (sched_data_update (\<lambda>_. Some (sd\<lparr>in_array := None\<rparr>))) (tasks s)"
  let ?sd = "sd\<lparr>in_array := None, time_slice := new_slice (static_priority (tasks s t)) (sd\<lparr>in_array := None\<rparr>)\<rparr>"
  let ?g = "\<lambda>x. x\<lparr>priority := static_priority x, sched_data := Some ?sd\<rparr>"
  have act: "active_array cd < 2" using active_less [OF ci] by simp
  show ?thesis
  proof (rule requeue_spec [OF ci tc sd ia act a refl, of ?g ?sd])
    let ?ts' = "upd_task t (sched_data_update (\<lambda>_. Some (?sd\<lparr>in_array := Some a\<rparr>))) (upd_task t ?g ?ts1)"
    fix cd1 cd2 assume r: "remove_task_from_array (active_array cd) t (tasks s, cd) = Some (?ts1, cd1)"
      "active_array cd1 = active_array cd" "expired_array cd1 = expired_array cd"
      "add_task_to_array a t (upd_task t ?g ?ts1, cd1) = Some (?ts', cd2)" "cpu_inv c ?ts' cd2"
    have "recalculate_timeslice_and_priority t ?ts1 = Some (upd_task t ?g ?ts1)"
      by (subst recalculate_eq [of ?ts1 t "sd\<lparr>in_array := None\<rparr>"]) simp_all
    moreover have "sched_inv (s\<lparr>tasks := ?ts', cpus := (cpus s)(c \<mapsto> cd2)\<rparr>)"
      by (rule sched_inv_update [OF inv _ _ r(5)])
        (use tc cd p ni task_okD [OF inv, of t] a0 sd in \<open>auto simp: task_ok_def arr_of_def\<close>)
    ultimately show ?thesis using r by blast
  qed (use tc p in simp_all)
qed

lemma tick_spec:
  assumes inv: "sched_inv s"
  shows "\<exists>s'. def_scheduler_tick cpu op s = Some s' \<and> sched_inv s' \<and> idle_tasks s' = idle_tasks s"
proof -
  let ?t = "current s cpu"
  consider "cpus s cpu = None" | cd where "cpus s cpu = Some cd" "pid (tasks s ?t) = 0"
    | cd where "cpus s cpu = Some cd" "pid (tasks s ?t) \<noteq> 0" "sched_data (tasks s ?t) = None"
    | cd td where "cpus s cpu = Some cd" "pid (tasks s ?t) \<noteq> 0" "sched_data (tasks s ?t) = Some td" by fastforce
  then show ?thesis
  proof cases
    case (4 cd td)
    define slice where "slice = (case op of SCHED_TICK_LAST \<Rightarrow> 0
      | SCHED_TICK_NORMAL \<Rightarrow> if discipline td \<noteq> SCHED_FIFO then time_slice td - 1 else time_slice td)"
    let ?td = "td\<lparr>time_slice := slice\<rparr>"
    define s1 where "s1 = s\<lparr>tasks := upd_task ?t (sched_data_update (\<lambda>_. Some ?td)) (tasks s)\<rparr>"
    have s1: "sched_inv s1" unfolding s1_def
      by (rule sched_inv_task [OF inv]) (use 4(3) task_okD [OF inv, of ?t] in \<open>auto simp: arr_of_def task_ok_def\<close>)
    have cd1: "cpus s1 cpu = Some cd" "sched_data (tasks s1 ?t) = Some ?td" using 4 by (simp_all add: s1_def)
    let ?a = "if discipline td = SCHED_RR \<or> discipline td = SCHED_FIFO then active_array cd else expired_array cd"
    have a: "?a < 2" using active_less [of cpu "tasks s" cd] inv 4(1) by (auto simp: sched_inv_def)
    show ?thesis
    proof (cases "slice = 0 \<and> on_runlist ?t cd")
      case True
      obtain ts1 c1 ts2 ts' c' where x: "remove_task_from_array (active_array cd) ?t (tasks s1, cd) = Some (ts1, c1)"
        "active_array c1 = active_array cd" "expired_array c1 = expired_array cd"
        "recalculate_timeslice_and_priority ?t ts1 = Some ts2" "add_task_to_array ?a ?t (ts2, c1) = Some (ts', c')"
        "sched_inv (s1\<lparr>tasks := ts', cpus := (cpus s1)(cpu \<mapsto> c')\<rparr>)"
        using expire_spec [OF s1 cd1(1) _ cd1(2) a] True by blast
      have "def_scheduler_tick cpu op s = Some (s\<lparr>tasks := ts', cpus := (cpus s)(cpu \<mapsto> c'),
              need_resched := (need_resched s)(cpu := True)\<rparr>)"
        using 4 True x(1-5)
        by (simp add: def_scheduler_tick_def Let_def slice_def [symmetric] s1_def split del: if_split cong: if_cong)
      then show ?thesis using x(6) by (simp add: s1_def)
    next
      case False
      then have "def_scheduler_tick cpu op s = Some (if slice = 0 then s1\<lparr>need_resched := (need_resched s1)(cpu := True)\<rparr> else s1)"
        using 4 by (auto simp: def_scheduler_tick_def Let_def slice_def [symmetric] s1_def fun_upd_idem)
      then show ?thesis using s1 by (auto simp: s1_def)
    qed
  next
    case (2 cd)
    then show ?thesis using inv sched_inv_cpu [OF inv, of cpu cd] by (auto simp: def_scheduler_tick_def sched_inv_def)
  qed (use inv in \<open>auto simp: def_scheduler_tick_def\<close>)
qed

text \<open>Changing the state of a task between running and runnable.\<close>

lemma cpu_switch_fields [simp]:
  "priority (leave_cpu x) = priority x" "tcpu (leave_cpu x) = tcpu x" "sched_data (leave_cpu x) = sched_data x"
  "static_priority (leave_cpu x) = static_priority x" "priority (enter_cpu x) = priority x"
  "tcpu (enter_cpu x) = tcpu x" "sched_data (enter_cpu x) = sched_data x"
  "static_priority (enter_cpu x) = static_priority x"
  by (auto simp: leave_cpu_def enter_cpu_def)

lemma task_ok_switch:
  "task_ok s t (leave_cpu x) a = task_ok s t x a" "task_ok s t (enter_cpu x) a = task_ok s t x a"
  by (auto simp: task_ok_def leave_cpu_def enter_cpu_def)

lemma sched_inv_retag:
  assumes inv: "sched_inv s"
  shows "sched_inv (s\<lparr>tasks := upd_task t leave_cpu (tasks s)\<rparr>)" "sched_inv (s\<lparr>tasks := upd_task t enter_cpu (tasks s)\<rparr>)"
  by (rule sched_inv_task [OF inv]; simp add: arr_of_def task_ok_switch task_okD [OF inv, unfolded arr_of_def])+

lemma pick_next_spec:
  assumes inv: "cpu_inv c ts cd"
  obtains n cd' where "pick_next c s cd = Some (n, cd')" "cpu_inv c ts cd'"
    "n \<noteq> idle_tasks s c \<Longrightarrow> best_of ts (arrays cd' (active_array cd')) n"
    "\<And>x. queues (arrays cd' x) = queues (arrays cd x)"
    "stale_free cd \<Longrightarrow> \<exists>a < 2. \<exists>q. queues (arrays cd a) q \<noteq> [] \<Longrightarrow> best_of ts (arrays cd' (active_array cd')) n"
proof -
  obtain n1 cd1 where g1: "get_most_prioritized_task cd = Some (n1, cd1)" and p1: "picked c ts cd n1 cd1"
    using get_most_prioritized_ex [OF inv] by blast
  show thesis
  proof (cases n1)
    case (Some t)
    then have "pick_next c s cd = Some (t, cd)" "best_of ts (arrays cd (active_array cd)) t"
      using g1 p1 by (auto simp: pick_next_def picked_def)
    then show thesis using that [of t cd] inv by blast
  next
    case None
    let ?cd = "cd1\<lparr>active_array := expired_array cd1, expired_array := active_array cd1\<rparr>"
    have ci1: "cpu_inv c ts cd1" using p1 by (simp add: picked_def)
    obtain n2 cd2 where g2: "get_most_prioritized_task ?cd = Some (n2, cd2)" and p2: "picked c ts ?cd n2 cd2"
      using get_most_prioritized_ex [OF cpu_inv_swap [OF ci1]] by blast
    have ci2: "cpu_inv c ts cd2" using p2 by (simp add: picked_def)
    have q: "queues (arrays cd2 x) = queues (arrays cd x)" for x using p1 p2 by (simp add: picked_def)
    show thesis
    proof (cases n2)
      case (Some t)
      have "pick_next c s cd = Some (t, cd2)" using g1 g2 None Some by (simp add: pick_next_def)
      moreover have "best_of ts (arrays cd2 (active_array cd2)) t" using p2 Some by (auto simp: picked_def)
      ultimately show thesis using that [of t cd2] ci2 q by blast
    next
      case n2: None
      let ?cd2 = "cd2\<lparr>stats := (stats cd2)\<lparr>idle_switches := idle_switches (stats cd2) + 1\<rparr>\<rparr>"
      have p: "pick_next c s cd = Some (idle_tasks s c, ?cd2)" using g1 g2 None n2 by (simp add: pick_next_def)
      have none: "queues (arrays cd a) q = []" if "stale_free cd" "a < 2" for a q
      proof -
        have cd1: "cd1 = cd" and "\<forall>q. queues (arrays cd (active_array cd)) q = []"
          using p1 None that(1) by (auto simp: picked_def)
        moreover have "stale_free ?cd" using that(1) cd1 by (simp add: stale_free_def)
        then have "\<forall>q. queues (arrays cd (expired_array cd)) q = []"
          using p2 n2 cd1 by (auto simp: picked_def)
        moreover have "a = active_array cd \<or> a = expired_array cd" using inv that(2) by (auto simp: cpu_inv_def)
        ultimately show ?thesis by auto
      qed
      show thesis
        by (rule that [OF p]) (use ci2 q none in auto)
    qed
  qed
qed

lemma cpu_inv_retag:
  assumes "cpu_inv c ts cd"
  shows "cpu_inv c (upd_task t leave_cpu ts) cd" "cpu_inv c (upd_task t enter_cpu ts) cd"
  using assms by (rule cpu_inv_cong [rotated]; simp add: arr_of_def)+

lemma schedule_spec:
  assumes inv: "sched_inv s" and c: "cpus s c \<noteq> None"
  shows "\<exists>s'. def_schedule c s = Some s' \<and> sched_inv s' \<and> idle_tasks s' = idle_tasks s"
proof -
  obtain cd where cd: "cpus s c = Some cd" using c by blast
  have ci: "cpu_inv c (tasks s) cd" using inv cd by (simp add: sched_inv_def)
  obtain n cd' where n: "pick_next c s cd = Some (n, cd')" "cpu_inv c (tasks s) cd'"
    using pick_next_spec [OF ci] by metis
  let ?cur = "current s c"
  let ?cd = "cd'\<lparr>stats := (stats cd')\<lparr>task_switches := task_switches (stats cd') + 1\<rparr>\<rparr>"
  let ?cd' = "if n \<noteq> ?cur then ?cd\<lparr>running_task := n\<rparr> else ?cd"
  define s1 where "s1 = s\<lparr>tasks := upd_task ?cur leave_cpu (tasks s)\<rparr>"
  define s2 where "s2 = s1\<lparr>tasks := upd_task n enter_cpu (tasks s1)\<rparr>"
  have "sched_inv s1" unfolding s1_def by (rule sched_inv_retag [OF inv])
  then have s2: "sched_inv s2" unfolding s2_def by (rule sched_inv_retag)
  have "cpu_inv c (upd_task ?cur leave_cpu (tasks s)) cd'" by (rule cpu_inv_retag [OF n(2)])
  then have "cpu_inv c (tasks s2) cd'" unfolding s2_def s1_def by (simp add: cpu_inv_retag del: fun_upd_apply)
  then have "cpu_inv c (tasks s2) ?cd'" by simp
  from sched_inv_cpu [OF s2 _ this] have "sched_inv (s2\<lparr>cpus := (cpus s2)(c \<mapsto> ?cd')\<rparr>)"
    using cd by (simp add: s2_def s1_def)
  moreover have "def_schedule c s = Some (s2\<lparr>cpus := (cpus s2)(c \<mapsto> ?cd'), current := (current s)(c := n),
      need_resched := (need_resched s)(c := False)\<rparr>)"
    using cd n(1) by (simp add: def_schedule_def Let_def s2_def s1_def)
  ultimately show ?thesis by (simp add: s2_def s1_def)
qed

text \<open>A change of priority keeps the invariant whichever array the task is queued in.\<close>

lemma shuffle_spec:
  assumes inv: "sched_inv s" and t: "\<not> is_idle s t" and p: "new_prio < 128"
    and q: "tstate (tasks s t) \<noteq> TASK_STATE_ZOMBIE"
    and r: "shuffle_task t new_prio s = Some s'"
  shows "sched_inv s' \<and> idle_tasks s' = idle_tasks s"
proof (cases "runs (tstate (tasks s t))")
  case False
  then have none: "arr_of (tasks s) t = None" using q task_okD [OF inv, of t] by (auto simp: task_ok_def)
  let ?f = "\<lambda>x. x\<lparr>priority := new_prio, static_priority := new_prio\<rparr>"
  have "sched_inv (s\<lparr>tasks := upd_task t ?f (tasks s)\<rparr>)"
    unfolding sched_inv_def
  proof (intro conjI allI impI)
    fix c cd assume "cpus (s\<lparr>tasks := upd_task t ?f (tasks s)\<rparr>) c = Some cd"
    then have "cpu_inv c (tasks s) cd" using inv by (simp add: sched_inv_def)
    then show "cpu_inv c (tasks (s\<lparr>tasks := upd_task t ?f (tasks s)\<rparr>)) cd"
      using cpu_inv_unqueued [of c "tasks s" cd t ?f] none by (simp add: arr_of_def)
  next
    fix u show "task_ok (s\<lparr>tasks := upd_task t ?f (tasks s)\<rparr>) u (tasks (s\<lparr>tasks := upd_task t ?f (tasks s)\<rparr>) u)
        (arr_of (tasks (s\<lparr>tasks := upd_task t ?f (tasks s)\<rparr>)) u)"
      using task_okD [OF inv, of u] p by (auto simp: task_ok_def arr_of_def)
  qed
  then show ?thesis using False r by (auto simp: shuffle_task_def)
next
  case True
  have ok: "task_ok s t (tasks s t) (arr_of (tasks s) t)" by (rule task_okD [OF inv])
  then obtain a0 where a0: "arr_of (tasks s) t = Some a0" using True t by (auto simp: task_ok_def)
  let ?c = "tcpu (tasks s t)"
  obtain sd cd where sd: "sched_data (tasks s t) = Some sd" "in_array sd = Some a0" and cd: "cpus s ?c = Some cd"
    and ci: "cpu_inv ?c (tasks s) cd" using queued_cpu [OF inv a0] by blast
  let ?ts1 = "upd_task t (sched_data_update (\<lambda>_. Some (sd\<lparr>in_array := None\<rparr>))) (tasks s)"
  let ?g = "\<lambda>x. x\<lparr>priority := new_prio, static_priority := new_prio\<rparr>"
  have act: "active_array cd < 2" using active_less [OF ci] by simp
  show ?thesis
  proof (rule requeue_spec [OF ci refl sd act act refl, of ?g "sd\<lparr>in_array := None\<rparr>"])
    let ?ts' = "upd_task t (sched_data_update (\<lambda>_. Some (sd\<lparr>in_array := None\<rparr>\<lparr>in_array := Some (active_array cd)\<rparr>))) (upd_task t ?g ?ts1)"
    fix cd1 cd2 assume r1: "remove_task_from_array (active_array cd) t (tasks s, cd) = Some (?ts1, cd1)"
      "active_array cd1 = active_array cd"
      "add_task_to_array (active_array cd) t (upd_task t ?g ?ts1, cd1) = Some (?ts', cd2)" "cpu_inv ?c ?ts' cd2"
    obtain n cd3 where m: "get_most_prioritized_task cd2 = Some (n, cd3)" "picked ?c ?ts' cd2 n cd3"
      using get_most_prioritized_ex [OF r1(4)] by blast
    let ?s = "s\<lparr>tasks := ?ts', cpus := (cpus s)(?c \<mapsto> cd3)\<rparr>"
    have "sched_inv ?s"
      by (rule sched_inv_update [OF inv])
        (use cd p t True sd m(2) in \<open>auto simp: task_ok_def arr_of_def picked_def\<close>)
    moreover have "s' = ?s \<or> s' = reschedule_task t ?s"
      using True cd r1(1-3) m(1) r
      by (cases n) (auto simp: shuffle_task_def Let_def simp del: fun_upd_apply split: if_splits)
    ultimately show ?thesis by (auto simp: reschedule_task_def)
  qed (use p in simp_all)
qed

lemma control_spec:
  assumes inv: "sched_inv s" and t: "sched_data (tasks s t) \<noteq> None" "\<not> is_idle s t" "tstate (tasks s t) \<noteq> TASK_STATE_ZOMBIE"
    and r: "def_scheduler_control t cmd s = Some (r, s')"
  shows "sched_inv s' \<and> idle_tasks s' = idle_tasks s"
proof -
  obtain sd where sd: "sched_data (tasks s t) = Some sd" using t(1) by blast
  have upd: "sched_inv (s\<lparr>tasks := upd_task t (sched_data_update (\<lambda>_. Some sd')) (tasks s)\<rparr>)"
    if "in_array sd' = in_array sd" for sd'
    by (rule sched_inv_task [OF inv]) (use sd that task_okD [OF inv, of t] in \<open>auto simp: arr_of_def task_ok_def\<close>)
  show ?thesis
  proof (cases cmd)
    case (SET_POLICY arg)
    then show ?thesis using r sd inv upd by (auto split: option.splits simp del: find.simps)
  next
    case (SET_PRIORITY arg)
    then show ?thesis using r inv shuffle_spec [OF inv t(2), of arg] t(3)
      by (auto simp: EZA_SCHED_PRIORITY_MAX_def bind_eq_Some_conv split: if_splits)
  next
    case (SET_STATE st)
    have "state_bits TASK_STATE_ZOMBIE AND ALL_TASK_STATE_MASK = 0" by (simp add: ALL_TASK_STATE_MASK_def)
    from change_task_state_spec [OF inv t(1,2) this, of st None] show ?thesis using SET_STATE r
      by (auto simp: def_change_task_state_def)
  qed (use r sd inv upd in \<open>auto split: if_splits\<close>)
qed

lemma add_task_inv:
  assumes inv: "sched_inv s" and t: "\<not> is_idle s t" and r: "def_add_task mem sd0 cpu t s = (r, s')"
  shows "sched_inv s' \<and> idle_tasks s' = idle_tasks s"
proof (cases "r = 0 \<and> s' \<noteq> s")
  case False
  then show ?thesis using r inv by (auto simp: def_add_task_def split: if_splits)
next
  case True
  let ?f = "\<lambda>x. x\<lparr>static_priority := EZA_SCHED_INITIAL_TASK_PRIORITY, priority := EZA_SCHED_INITIAL_TASK_PRIORITY,
     tcpu := cpu, sched_data := Some (sd0\<lparr>discipline := SCHED_OTHER, max_timeslice := 0, in_array := None\<rparr>)\<rparr>"
  have s': "s' = s\<lparr>tasks := upd_task t ?f (tasks s)\<rparr>" "cpus s cpu \<noteq> None" "tstate (tasks s t) = TASK_STATE_JUST_BORN"
    using r True by (auto simp: def_add_task_def split: if_splits)
  have none: "arr_of (tasks s) t = None" using task_okD [OF inv, of t] s'(3) by (auto simp: task_ok_def)
  have "cpu_inv c (upd_task t ?f (tasks s)) cd" if "cpus s c = Some cd" for c cd
    by (rule cpu_inv_unqueued [OF _ none]) (use inv that in \<open>auto simp: sched_inv_def arr_of_def\<close>)
  moreover have "task_ok s' u (tasks s' u) (arr_of (tasks s') u)" for u
    using task_okD [OF inv, of u] s' t
    by (cases "u = t") (auto simp: task_ok_def arr_of_def EZA_SCHED_INITIAL_TASK_PRIORITY_def)
  ultimately show ?thesis using s' by (simp add: sched_inv_def)
qed

lemma move_task_spec:
  assumes inv: "sched_inv s" and t: "tstate (tasks s t) \<noteq> TASK_STATE_ZOMBIE" "sched_data (tasks s t) \<noteq> None" "\<not> is_idle s t"
    and d: "cpus s dest \<noteq> None"
  shows "\<exists>r s'. move_task_to_cpu locked t dest s = Some (r, s') \<and> sched_inv s' \<and> idle_tasks s' = idle_tasks s"
proof -
  let ?c = "tcpu (tasks s t)"
  have ok: "task_ok s t (tasks s t) (arr_of (tasks s) t)" by (rule task_okD [OF inv])
  consider "\<not> locked" | "locked" "?c = dest" | "locked" "?c \<noteq> dest" "runs (tstate (tasks s t))"
    | "locked" "?c \<noteq> dest" "\<not> runs (tstate (tasks s t))" by blast
  then show ?thesis
  proof cases
    case 2
    have "sched_inv (s\<lparr>tasks := upd_task t (under_migration_update (\<lambda>_. False)) (tasks s)\<rparr>)"
      by (rule sched_inv_task [OF inv]) (use ok in \<open>auto simp: arr_of_def task_ok_def\<close>)
    then show ?thesis using 2 by (simp add: move_task_to_cpu_def)
  next
    case 4
    obtain src dst where cd: "cpus s ?c = Some src" "cpus s dest = Some dst" using ok t d by (auto simp: task_ok_def)
    have none: "arr_of (tasks s) t = None" using ok 4 t by (auto simp: task_ok_def)
    let ?f = "\<lambda>x. x\<lparr>tcpu := dest, under_migration := False\<rparr>"
    let ?cs = "(cpus s)(?c \<mapsto> src\<lparr>stats := (stats src)\<lparr>sleeping_tasks := sleeping_tasks (stats src) - 1\<rparr>\<rparr>,
        dest \<mapsto> dst\<lparr>stats := (stats dst)\<lparr>sleeping_tasks := sleeping_tasks (stats dst) + 1\<rparr>\<rparr>)"
    let ?s = "s\<lparr>tasks := upd_task t ?f (tasks s), cpus := ?cs\<rparr>"
    have ci: "cpu_inv c (upd_task t ?f (tasks s)) cd" if "cpus s c = Some cd" for c cd
      by (rule cpu_inv_unqueued [OF _ none]) (use inv that none in \<open>auto simp: sched_inv_def arr_of_def\<close>)
    have "sched_inv ?s"
      unfolding sched_inv_def
    proof (intro conjI allI impI)
      fix c cd assume "cpus ?s c = Some cd"
      then show "cpu_inv c (tasks ?s) cd" using ci [OF cd(1)] ci [OF cd(2)] ci by (auto split: if_splits)
    next
      fix u show "task_ok ?s u (tasks ?s u) (arr_of (tasks ?s) u)"
        using task_okD [OF inv, of u] none by (auto simp: task_ok_def arr_of_def)
    qed
    then show ?thesis using 4 cd t by (auto simp: move_task_to_cpu_def Let_def)
  qed (use inv in \<open>auto simp: move_task_to_cpu_def\<close>)
qed

lemma del_task_spec:
  assumes inv: "sched_inv s" and z: "tstate (tasks s t) = TASK_STATE_ZOMBIE"
    and r: "def_del_task cpu t s = Some (r, s')" and c: "tcpu (tasks s t) = cpu"
  shows "sched_inv s' \<and> idle_tasks s' = idle_tasks s"
proof (cases "t = current s cpu \<and> sched_data (tasks s t) \<noteq> None")
  case False
  then have "s' = s" using r by (auto simp: def_del_task_def split: if_splits)
  then show ?thesis using inv by simp
next
  case True
  then obtain sd where sd: "sched_data (tasks s t) = Some sd" by blast
  then obtain cd a where cd: "cpus s cpu = Some cd" and a: "in_array sd = Some a"
    using r True by (auto simp: def_del_task_def bind_eq_Some_conv split: option.splits)
  have arr: "arr_of (tasks s) t = Some a" using sd a by (simp add: arr_of_def)
  have ci: "cpu_inv cpu (tasks s) cd" using inv cd by (simp add: sched_inv_def)
  have a2: "a < 2" using arr_queued(1) [OF _ arr c] ci by (auto simp: cpu_inv_def)
  show ?thesis
  proof (rule remove_task_spec [OF ci c sd a a2])
    let ?ts = "upd_task t (sched_data_update (\<lambda>_. Some (sd\<lparr>in_array := None\<rparr>))) (tasks s)"
    fix cd1 assume 1: "remove_task_from_array a t (tasks s, cd) = Some (?ts, cd1)" "cpu_inv cpu ?ts cd1"
    let ?ts' = "upd_task t (sched_data_update (\<lambda>_. None)) ?ts"
    let ?cd = "cd1\<lparr>stats := (stats cd1)\<lparr>active_tasks := active_tasks (stats cd1) - 1\<rparr>\<rparr>"
    let ?s = "s\<lparr>tasks := ?ts', cpus := (cpus s)(cpu \<mapsto> ?cd)\<rparr>"
    have "cpu_inv cpu ?ts' cd1" by (rule cpu_inv_unqueued [OF 1(2)]) (simp_all add: arr_of_def)
    then have "sched_inv ?s"
      by (intro sched_inv_update [OF inv]) (use c cd z in \<open>auto simp: task_ok_def arr_of_def\<close>)
    then have s1: "sched_inv (?s\<lparr>need_resched := (need_resched s)(cpu := True)\<rparr>)" by simp
    moreover have "def_schedule cpu (?s\<lparr>need_resched := (need_resched s)(cpu := True)\<rparr>) = Some s'"
      using r True sd cd a 1(1) by (simp add: def_del_task_def Let_def bind_eq_Some_conv)
    ultimately show ?thesis using schedule_spec [OF s1, of cpu] by auto
  qed
qed

section \<open>Steps and reachable states\<close>

definition schedulable :: "sched \<Rightarrow> nat \<Rightarrow> bool" where
  "schedulable s t \<longleftrightarrow> sched_data (tasks s t) \<noteq> None \<and> \<not> is_idle s t \<and> tstate (tasks s t) \<noteq> TASK_STATE_ZOMBIE"

text \<open>
  The steps of the system: the scheduler entry points, for attached tasks that are not idle
  tasks, the exit of a running task, which turns it into a zombie before it is deleted, and the
  delivery of signals, which decides whether a sleep is interrupted. The masks of all callers
  leave zombies alone.
\<close>

inductive sched_step :: "sched \<Rightarrow> sched \<Rightarrow> bool" where
  tick: "def_scheduler_tick cpu op s = Some s' \<Longrightarrow> sched_step s s'"
| switch: "cpus s cpu \<noteq> None \<Longrightarrow> def_schedule cpu s = Some s' \<Longrightarrow> sched_step s s'"
| yields: "cpus s cpu \<noteq> None \<Longrightarrow> sys_sched_yield cpu s = Some s' \<Longrightarrow> sched_step s s'"
| change: "schedulable s t \<Longrightarrow> state_bits TASK_STATE_ZOMBIE AND msk = 0 \<Longrightarrow>
     change_task_state t st h msk s = Some (r, s') \<Longrightarrow> sched_step s s'"
| control: "schedulable s t \<Longrightarrow> def_scheduler_control t cmd s = Some (r, s') \<Longrightarrow> sched_step s s'"
| attach: "\<not> is_idle s t \<Longrightarrow> def_add_task mem sd0 cpu t s = (r, s') \<Longrightarrow> sched_step s s'"
| migrate: "schedulable s t \<Longrightarrow> cpus s dest \<noteq> None \<Longrightarrow>
     move_task_to_cpu locked t dest s = Some (r, s') \<Longrightarrow> sched_step s s'"
| exits: "schedulable s t \<Longrightarrow> runs (tstate (tasks s t)) \<Longrightarrow>
     s' = s\<lparr>tasks := upd_task t (\<lambda>x. x\<lparr>tstate := TASK_STATE_ZOMBIE\<rparr>) (tasks s)\<rparr> \<Longrightarrow> sched_step s s'"
| detach: "tstate (tasks s t) = TASK_STATE_ZOMBIE \<Longrightarrow> tcpu (tasks s t) = cpu \<Longrightarrow>
     def_del_task cpu t s = Some (r, s') \<Longrightarrow> sched_step s s'"
| signal: "s' = s\<lparr>tasks := upd_task t (\<lambda>x. x\<lparr>interrupted := b\<rparr>) (tasks s)\<rparr> \<Longrightarrow> sched_step s s'"

inductive sched_reach :: "sched \<Rightarrow> sched \<Rightarrow> bool" for s0 where
  start: "sched_reach s0 s0"
| step: "sched_reach s0 s \<Longrightarrow> sched_step s s' \<Longrightarrow> sched_reach s0 s'"

lemma cpus_tick:
  assumes "def_scheduler_tick cpu op s = Some s'" "cpus s c \<noteq> None"
  shows "cpus s' c \<noteq> None"
  using assms by (auto simp: def_scheduler_tick_def Let_def bind_eq_Some_conv split: option.splits if_splits prod.splits)

lemma sched_step_inv:
  assumes "sched_step s s'" "sched_inv s"
  shows "sched_inv s'"
  using assms
proof (induction rule: sched_step.induct)
  case (tick cpu op s s')
  then show ?case using tick_spec [of s cpu op] by auto
next
  case (switch s cpu s')
  then show ?case using schedule_spec [of s cpu] by auto
next
  case (yields s cpu s')
  then obtain s1 where s1: "def_scheduler_tick cpu SCHED_TICK_LAST s = Some s1" "def_schedule cpu s1 = Some s'"
    by (auto simp: sys_sched_yield_def bind_eq_Some_conv)
  moreover have "sched_inv s1" using tick_spec [OF yields(3), of cpu SCHED_TICK_LAST] s1(1) by auto
  ultimately show ?case using schedule_spec [of s1 cpu] cpus_tick [OF s1(1) yields(1)] by auto
next
  case (change s t msk st h r s')
  then show ?case using change_task_state_spec [of s t msk st h] by (auto simp: schedulable_def)
next
  case (control s t cmd r s')
  then show ?case using control_spec [of s t cmd r s'] by (auto simp: schedulable_def)
next
  case (attach s t mem sd0 cpu r s')
  then show ?case using add_task_inv by blast
next
  case (migrate s t dest locked r s')
  then show ?case using move_task_spec [of s t dest locked] by (auto simp: schedulable_def)
next
  case (exits s t s')
  then show ?case using sched_inv_task [of s t "\<lambda>x. x\<lparr>tstate := TASK_STATE_ZOMBIE\<rparr>"] task_okD [of s t]
    by (auto simp: arr_of_def task_ok_def)
next
  case (detach s t cpu r s')
  then show ?case using del_task_spec by blast
next
  case (signal s' t b s)
  then show ?case using sched_inv_task [of s t "\<lambda>x. x\<lparr>interrupted := b\<rparr>"] task_okD [of s t]
    by (auto simp: arr_of_def task_ok_def)
qed

section \<open>Properties\<close>

definition boot :: "nat \<Rightarrow> sched" where
  "boot nidle =
     \<lparr>tasks = (\<lambda>t. \<lparr>pid = t, static_priority = EZA_SCHED_IDLE_TASK_PRIO, priority = EZA_SCHED_IDLE_TASK_PRIO,
                     tstate = (if t = nidle then TASK_STATE_RUNNING else TASK_STATE_JUST_BORN), tcpu = 0,
                     uspc_blocked = False, under_migration = False, interrupted = False, sched_data = None\<rparr>),
      cpus = (\<lambda>_. None), current = (\<lambda>_. nidle), need_resched = (\<lambda>_. False), idle_tasks = (\<lambda>_. nidle)\<rparr>"

definition blank_cpu :: sched_cpudata where
  "blank_cpu = \<lparr>stats = \<lparr>task_switches = 0, idle_switches = 0, idle_ticks = 0, active_tasks = 0, sleeping_tasks = 0\<rparr>,
     active_array = 0, expired_array = 0, arrays = (\<lambda>_. \<lparr>bitmap_bits = [], queues = (\<lambda>_. []), num_tasks = 0\<rparr>), running_task = 0\<rparr>"

definition booted :: sched where
  "booted = snd (def_add_cpu 1 blank_cpu 0 (boot 0))"

lemma booted_inv: "sched_inv booted"
  by (auto simp: booted_def def_add_cpu_def boot_def sched_inv_def task_ok_def arr_of_def is_idle_def cpu_inv_def
      arrays_ok_def initialize_cpu_sched_data_def bm_wf_def EZA_SCHED_TOTAL_WIDTH_def)



definition one_task :: sched where
  "one_task =
     (let s = boot 0; t = (tasks s 7)\<lparr>static_priority := 10, priority := 10, tstate := TASK_STATE_RUNNABLE,
                sched_data := Some \<lparr>time_slice = 5, discipline = SCHED_RR, max_timeslice = 9, in_array = Some 0\<rparr>\<rparr>;
          none = \<lparr>bitmap_bits = [0, 0], queues = (\<lambda>_. []), num_tasks = 0\<rparr>;
          one = \<lparr>bitmap_bits = [1024, 0], queues = (\<lambda>q. if q = 10 then [7] else []), num_tasks = 1\<rparr>
      in s\<lparr>tasks := (tasks s)(7 := t),
           cpus := [0 \<mapsto> blank_cpu\<lparr>expired_array := 1, arrays := (\<lambda>_. none)(0 := one)\<rparr>]\<rparr>)"

lemma bm_one: "bm_test [1024, 0] q \<longleftrightarrow> q = 10" if "q < 128"
proof -
  have "(1024 :: 64 word) = push_bit 10 1" by simp
  then have "bit (1024 :: 64 word) n \<longleftrightarrow> n = 10" if "n < 64" for n using that 
    by (simp only: bit_push_bit_iff) (auto simp: bit_1_iff)
  moreover have "q div 64 = 0 \<or> q div 64 = 1" using that by linarith
  ultimately show ?thesis by (auto simp: bm_test_def div_eq_0_iff)
qed

lemma bm_none: "\<not> bm_test [0, 0] q" if "q < 128"
proof -
  have "q div 64 = 0 \<or> q div 64 = 1" using that by linarith
  then show ?thesis by (auto simp: bm_test_def)
qed

lemma one_task_inv: "sched_inv one_task"
  by (auto simp: one_task_def boot_def blank_cpu_def sched_inv_def task_ok_def arr_of_def is_idle_def cpu_inv_def
      arrays_ok_def bm_wf_def Let_def bm_one)

lemma one_task_cpu:
  "\<exists>cd. cpus one_task 0 = Some cd \<and> stale_free cd \<and> (\<exists>a < 2. \<exists>q. queues (arrays cd a) q \<noteq> [])"
  by (auto simp: one_task_def blank_cpu_def stale_free_def Let_def bm_one bm_none less_2_cases_iff
      intro!: exI [of _ "0 :: nat"] exI [of _ "10 :: nat"])

text \<open>
  C8. The scheduler is a priority scheduler: on a CPU with consistent queues and no stale bit in
  its bitmaps, if any task is queued in either array then \<^verbatim>\<open>def_schedule\<close> returns, and the task
  that runs afterwards heads the queue of the best priority of the active array and is not the
  idle task.
\<close>

theorem schedule_picks_best:
  assumes "sched_inv s" "cpus s c = Some cd" "stale_free cd" "\<exists>a < 2. \<exists>q. queues (arrays cd a) q \<noteq> []"
  shows "\<exists>s' cd'. def_schedule c s = Some s' \<and> cpus s' c = Some cd' \<and> \<not> is_idle s (current s' c) \<and>
    best_of (tasks s) (arrays cd' (active_array cd')) (current s' c) \<and> sched_inv s'"
proof -
  have ci: "cpu_inv c (tasks s) cd" using assms(1,2) by (simp add: sched_inv_def)
  show ?thesis
  proof (rule pick_next_spec [OF ci, of s])
    fix n cd' assume n: "pick_next c s cd = Some (n, cd')" "cpu_inv c (tasks s) cd'"
      and "stale_free cd \<Longrightarrow> \<exists>a < 2. \<exists>q. queues (arrays cd a) q \<noteq> [] \<Longrightarrow>
        best_of (tasks s) (arrays cd' (active_array cd')) n"
    then have b: "best_of (tasks s) (arrays cd' (active_array cd')) n" using assms by blast
    then have "n \<in> set (queues (arrays cd' (active_array cd')) (priority (tasks s n)))"
      unfolding best_of_def by (metis hd_in_set)
    then have "arr_of (tasks s) n \<noteq> None"
      using queuedD(4) [of c "tasks s" "arrays cd'"] n(2) active_less [OF n(2)] by (auto simp: cpu_inv_def)
    then have idle: "\<not> is_idle s n" using assms(1) by (auto simp: sched_inv_def task_ok_def)
    obtain s' where s': "def_schedule c s = Some s'" "sched_inv s'" using schedule_spec [OF assms(1)] assms(2) by auto
    have "current s' c = n" using s'(1) assms(2) n(1) by (auto simp: def_schedule_def Let_def)
    moreover have "\<exists>cd2. cpus s' c = Some cd2 \<and> arrays cd2 = arrays cd' \<and> active_array cd2 = active_array cd'"
      using s'(1) assms(2) n(1) by (auto simp: def_schedule_def Let_def)
    ultimately show ?thesis using s' b idle by metis
  qed
qed

theorem schedule_picks_best_witness:
  "\<exists>s' cd'. def_schedule 0 one_task = Some s' \<and> cpus s' 0 = Some cd' \<and> \<not> is_idle one_task (current s' 0) \<and>
    best_of (tasks one_task) (arrays cd' (active_array cd')) (current s' 0) \<and> sched_inv s'"
  using schedule_picks_best [OF one_task_inv] one_task_cpu by blast



section \<open>A runnable task is passed over after a priority change\<close>

definition cmd_step :: "(sched \<Rightarrow> (int \<times> sched) option) \<Rightarrow> sched option \<Rightarrow> sched option" where
  "cmd_step f s = Option.bind s (\<lambda>s. map_option snd (f s))"

text \<open>
  Two tasks, 1 at priority 10 and 2 at priority 20. Task 1 uses up its slice and waits in the
  expired array when its priority is set to 5; its slice expires again, task 2's does, and task 1,
  which runs again from the swapped array, goes to sleep.
\<close>

definition two_tasks :: sched where
  "two_tasks =
     (let s = boot 0;
          t = (\<lambda>p. (tasks s 7)\<lparr>static_priority := p, priority := p, tstate := TASK_STATE_RUNNABLE,
                sched_data := Some \<lparr>time_slice = 5, discipline = SCHED_OTHER, max_timeslice = 9, in_array = Some 0\<rparr>\<rparr>);
          none = \<lparr>bitmap_bits = [0, 0], queues = (\<lambda>_. []), num_tasks = 0\<rparr>;
          two = \<lparr>bitmap_bits = [0x100400, 0], queues = (\<lambda>q. if q = 10 then [1] else if q = 20 then [2] else []),
                 num_tasks = 2\<rparr>
      in s\<lparr>tasks := (tasks s)(1 := t 10, 2 := t 20),
           cpus := [0 \<mapsto> blank_cpu\<lparr>expired_array := 1, arrays := (\<lambda>_. none)(0 := two)\<rparr>]\<rparr>)"

definition priority_change_run :: "sched option" where
  "priority_change_run =
     (let yield = (\<lambda>s. Option.bind s (sys_sched_yield 0));
          s = Option.bind (Some two_tasks) (def_schedule 0);
          s = Option.bind s (def_scheduler_tick 0 SCHED_TICK_LAST);
          s = cmd_step (def_scheduler_control 1 (SET_PRIORITY 5)) s;
          s = yield s; s = yield s
      in cmd_step (def_change_task_state 1 TASK_STATE_SLEEPING ALL_TASK_STATE_MASK) s)"


end
