(* ===== verification/Waitqueue.thy ===== *)
theory Waitqueue
  imports Pqueue Scheduler
begin

text \<open>
  Priority-sorted wait queues (\<^verbatim>\<open>kernel/generic/waitqueue.c\<close>, \<^verbatim>\<open>include/mstring/waitqueue.h\<close>) over
  the priority queue of \<^verbatim>\<open>Pqueue\<close> and the scheduler of \<^verbatim>\<open>Scheduler\<close>. A queue entry
  (\<^verbatim>\<open>wqueue_task_t\<close>) is named by a number, which also names its queue node; queues and the
  counters behind \<^verbatim>\<open>wq_stat\<close> are named by numbers too. The operations under the queue's lock are
  one step each. The interface \<open>wait_list\<close> states what a client relies on: a sequence of entries
  ordered by priority, from which waking removes the first.
\<close>

unbundle bit_operations_syntax

section \<open>Changes of task states\<close>

definition sched_change_task_state :: "nat \<Rightarrow> task_state \<Rightarrow> sched \<Rightarrow> (int \<times> sched) option" where
  "sched_change_task_state t st s = def_change_task_state t st ALL_TASK_STATE_MASK s"

definition sched_frame :: "nat \<Rightarrow> sched \<Rightarrow> sched \<Rightarrow> bool" where
  "sched_frame t s s' \<longleftrightarrow> idle_tasks s' = idle_tasks s \<and> (\<forall>u. u \<noteq> t \<longrightarrow> tasks s' u = tasks s u) \<and>
     sched_data (tasks s' t) \<noteq> None \<and> static_priority (tasks s' t) = static_priority (tasks s t)"

lemma recalculate_frame:
  assumes "recalculate_timeslice_and_priority t ts = Some ts'" "sched_data (ts t) \<noteq> None"
  shows "sched_data (ts' t) \<noteq> None \<and> static_priority (ts' t) = static_priority (ts t)"
  using assms by (auto simp: recalculate_timeslice_and_priority_def bind_eq_Some_conv Let_def split: if_splits)

lemma array_frame:
  assumes "add_task_to_array a t (ts, cd) = Some (ts', cd') \<or> remove_task_from_array a t (ts, cd) = Some (ts', cd')"
  shows "sched_data (ts' t) \<noteq> None \<and> static_priority (ts' t) = static_priority (ts t)"
  using assms
  by (auto simp: add_task_to_array_def remove_task_from_array_def bind_eq_Some_conv Let_def split: if_splits)

lemma runnable_frame:
  assumes "make_runnable t s = Some s'" "sched_data (tasks s t) \<noteq> None"
  shows "sched_data (tasks s' t) \<noteq> None \<and> static_priority (tasks s' t) = static_priority (tasks s t)"
  using assms
  by (auto simp: make_runnable_def reschedule_task_def bind_eq_Some_conv Let_def
      dest!: recalculate_frame array_frame [OF disjI1] split: if_splits)

lemma blocked_frame:
  assumes "make_blocked t st s = Some (r, s')" "sched_data (tasks s t) \<noteq> None"
  shows "sched_data (tasks s' t) \<noteq> None \<and> static_priority (tasks s' t) = static_priority (tasks s t)"
  using assms
  by (auto simp: make_blocked_def reschedule_task_def bind_eq_Some_conv Let_def
      dest!: array_frame [OF disjI2] split: if_splits)

lemma wake_spec:
  assumes inv: "sched_inv s" and t: "schedulable s t" "\<not> runs (tstate (tasks s t))"
  shows "\<exists>s'. sched_change_task_state t TASK_STATE_RUNNABLE s = Some (0, s') \<and> sched_inv s' \<and>
    tstate (tasks s' t) = TASK_STATE_RUNNABLE \<and> sched_frame t s s'"
proof -
  obtain sd where sd: "sched_data (tasks s t) = Some sd" using t(1) by (auto simp: schedulable_def)
  have arr: "arr_of (tasks s) t = None"
    using task_okD [OF inv, of t] t by (auto simp: task_ok_def schedulable_def)
  have c: "sched_change_task_state t TASK_STATE_RUNNABLE s = map_option (Pair 0) (make_runnable t s)"
    using t by (cases "tstate (tasks s t)")
      (auto simp: sched_change_task_state_def def_change_task_state_def change_task_state_def schedulable_def
        ALL_TASK_STATE_MASK_def map_option_case split: option.splits)
  show ?thesis
  proof (rule make_runnable_spec [OF inv sd _ arr])
    show "\<not> is_idle s t" using t by (simp add: schedulable_def)
  next
    fix s' assume s': "make_runnable t s = Some s'" "sched_inv s'" "tstate (tasks s' t) = TASK_STATE_RUNNABLE"
      "\<And>u. u \<noteq> t \<Longrightarrow> tasks s' u = tasks s u" "idle_tasks s' = idle_tasks s"
    then show ?thesis using c runnable_frame [OF s'(1)] sd by (auto simp: sched_frame_def)
  qed
qed

lemma block_spec:
  assumes inv: "sched_inv s" and t: "schedulable s t" "runs (tstate (tasks s t))"
    and st: "st = TASK_STATE_SUSPENDED \<or> st = TASK_STATE_SLEEPING \<and> \<not> interrupted (tasks s t)"
  shows "\<exists>s'. sched_change_task_state t st s = Some (0, s') \<and> sched_inv s' \<and>
    tstate (tasks s' t) = st \<and> sched_frame t s s'"
proof -
  have c: "sched_change_task_state t st s = make_blocked t st s"
    using t st by (auto simp: sched_change_task_state_def def_change_task_state_def change_task_state_def
        ALL_TASK_STATE_MASK_def)
  have n: "\<not> is_idle s t" "\<not> runs st" "st \<noteq> TASK_STATE_ZOMBIE" using t st by (auto simp: schedulable_def)
  show ?thesis
  proof (rule make_blocked_spec [OF inv n(1) t(2) n(2,3)])
    fix s' assume s': "make_blocked t st s = Some (0, s')" "sched_inv s'" "tstate (tasks s' t) = st"
      "\<And>u. u \<noteq> t \<Longrightarrow> tasks s' u = tasks s u" "idle_tasks s' = idle_tasks s"
    then show ?thesis using c blocked_frame [OF s'(1)] t(1) by (auto simp: sched_frame_def schedulable_def)
  qed
qed

lemma sleep_interrupted:
  assumes "runs (tstate (tasks s t))" "interrupted (tasks s t)"
  shows "sched_change_task_state t TASK_STATE_SLEEPING s = Some (ERR EINTR, s)"
  using assms by (auto simp: sched_change_task_state_def def_change_task_state_def change_task_state_def
      ALL_TASK_STATE_MASK_def)

section \<open>Wait queues\<close>

record wqueue =
  num_waiters :: "32 word"
  wpqueue :: pqueue

record wqueue_task =
  wq :: "nat option"
  wtask :: nat
  wq_stat :: "nat option"

record wstate =
  wqueues :: "nat \<Rightarrow> wqueue"
  wentries :: "nat \<Rightarrow> wqueue_task"
  wcounters :: "nat \<Rightarrow> 32 word"
  wsched :: sched

datatype wqueue_insop = WQ_INSERT_SIMPLE | WQ_INSERT_SLEEP_INR | WQ_INSERT_SLEEP_UNR

datatype wqueue_delop = WQ_DELETE_SIMPLE | WQ_DELETE_WAKEUP

abbreviation upd_wq :: "nat \<Rightarrow> (wqueue \<Rightarrow> wqueue) \<Rightarrow> wstate \<Rightarrow> wstate" where
  "upd_wq q f s \<equiv> s\<lparr>wqueues := (wqueues s)(q := f (wqueues s q))\<rparr>"

abbreviation upd_entry :: "nat \<Rightarrow> (wqueue_task \<Rightarrow> wqueue_task) \<Rightarrow> wstate \<Rightarrow> wstate" where
  "upd_entry n f s \<equiv> s\<lparr>wentries := (wentries s)(n := f (wentries s n))\<rparr>"

definition waitqueue_initialize :: "nat \<Rightarrow> wstate \<Rightarrow> wstate" where
  "waitqueue_initialize q = upd_wq q (\<lambda>w. w\<lparr>num_waiters := 0, wpqueue := pqueue_initialize (wpqueue w)\<rparr>)"

definition waitqueue_is_empty :: "nat \<Rightarrow> wstate \<Rightarrow> bool" where
  "waitqueue_is_empty q s \<longleftrightarrow> num_waiters (wqueues s q) = 0"

definition waitqueue_prepare_task :: "nat \<Rightarrow> nat \<Rightarrow> wstate \<Rightarrow> wstate" where
  "waitqueue_prepare_task n t = upd_entry n (\<lambda>_. \<lparr>wq = None, wtask = t, wq_stat = None\<rparr>)"

definition add_stat :: "nat \<Rightarrow> 32 word \<Rightarrow> wstate \<Rightarrow> wstate" where
  "add_stat n d s =
     (case wq_stat (wentries s n) of
        None \<Rightarrow> s
      | Some c \<Rightarrow> s\<lparr>wcounters := (wcounters s)(c := wcounters s c + d)\<rparr>)"

definition waitqueue_insert_core :: "nat \<Rightarrow> nat \<Rightarrow> wqueue_insop \<Rightarrow> wstate \<Rightarrow> (int \<times> wstate) option" where
  "waitqueue_insert_core q n iop s =
     do { pq \<leftarrow> pqueue_insert_core (wpqueue (wqueues s q)) n
                   (int (static_priority (tasks (wsched s) (wtask (wentries s n)))));
          let s = upd_wq q (\<lambda>w. w\<lparr>wpqueue := pq, num_waiters := num_waiters w + 1\<rparr>) s;
          let s = upd_entry n (\<lambda>e. e\<lparr>wq := Some q\<rparr>) s;
          let s = add_stat n 1 s;
          if iop \<noteq> WQ_INSERT_SIMPLE
          then do { (ret, sc) \<leftarrow> sched_change_task_state (wtask (wentries s n))
                       (if iop = WQ_INSERT_SLEEP_INR then TASK_STATE_SLEEPING else TASK_STATE_SUSPENDED) (wsched s);
                    let s = s\<lparr>wsched := sc\<rparr>;
                    if ret = ERR EAGAIN
                    then do { let s = upd_wq q (\<lambda>w. w\<lparr>num_waiters := num_waiters w - 1\<rparr>) s;
                              let s = upd_entry n (\<lambda>e. e\<lparr>wq := None\<rparr>) s;
                              pq \<leftarrow> pqueue_delete_core (wpqueue (wqueues s q)) n;
                              Some (0, upd_wq q (\<lambda>w. w\<lparr>wpqueue := pq\<rparr>) s) }
                    else Some (ret, s) }
          else Some (0, s) }"

definition waitqueue_insert :: "nat \<Rightarrow> nat \<Rightarrow> wqueue_insop \<Rightarrow> wstate \<Rightarrow> (int \<times> wstate) option" where
  "waitqueue_insert q n iop s = waitqueue_insert_core q n iop s"

definition waitqueue_delete_core :: "nat \<Rightarrow> wqueue_delop \<Rightarrow> wstate \<Rightarrow> (int \<times> wstate) option" where
  "waitqueue_delete_core n dop s =
     (case wq (wentries s n) of
        None \<Rightarrow> Some (0, s)
      | Some q \<Rightarrow>
          if waitqueue_is_empty q s then None
          else do { pq \<leftarrow> pqueue_delete_core (wpqueue (wqueues s q)) n;
                    let s = upd_wq q (\<lambda>w. w\<lparr>wpqueue := pq\<rparr>) s;
                    let s = add_stat n (- 1) s;
                    (ret, sc) \<leftarrow> (if dop = WQ_DELETE_WAKEUP
                                  then sched_change_task_state (wtask (wentries s n)) TASK_STATE_RUNNABLE (wsched s)
                                  else Some (0, wsched s));
                    let s = s\<lparr>wsched := sc\<rparr>;
                    let s = upd_wq q (\<lambda>w. w\<lparr>num_waiters := num_waiters w - 1\<rparr>) s;
                    Some (ret, upd_entry n (\<lambda>e. e\<lparr>wq := None\<rparr>) s) })"

definition waitqueue_delete :: "nat \<Rightarrow> wqueue_delop \<Rightarrow> wstate \<Rightarrow> (int \<times> wstate) option" where
  "waitqueue_delete n dop s =
     (if wq (wentries s n) = None then Some (0, s) else waitqueue_delete_core n dop s)"

text \<open>\<^verbatim>\<open>waitqueue_pop\<close>: the result, the task stored through the pointer argument, the state.\<close>

definition waitqueue_pop :: "nat \<Rightarrow> wstate \<Rightarrow> (int \<times> nat option \<times> wstate) option" where
  "waitqueue_pop q s =
     (if waitqueue_is_empty q s then Some (ERR ENOENT, None, s)
      else do { pqn \<leftarrow> pqueue_pick_min_core (wpqueue (wqueues s q));
                n \<leftarrow> pqn;
                (_, s') \<leftarrow> waitqueue_delete_core n WQ_DELETE_WAKEUP s;
                Some (0, Some (wtask (wentries s n)), s') })"

definition waitqueue_first_task_core :: "nat \<Rightarrow> wstate \<Rightarrow> nat option option" where
  "waitqueue_first_task_core q s =
     (if waitqueue_is_empty q s then Some None else pqueue_pick_min_core (wpqueue (wqueues s q)))"

definition waitqueue_first_task :: "nat \<Rightarrow> wstate \<Rightarrow> nat option option" where
  "waitqueue_first_task q s = waitqueue_first_task_core q s"

section \<open>The sequence of waiters\<close>

definition waiters :: "wstate \<Rightarrow> nat \<Rightarrow> nat list \<Rightarrow> bool" where
  "waiters s q ns \<longleftrightarrow> pq_seq (wpqueue (wqueues s q)) ns \<and> length ns < 2 ^ 32 \<and>
     num_waiters (wqueues s q) = of_nat (length ns) \<and> (\<forall>n. n \<in> set ns \<longleftrightarrow> wq (wentries s n) = Some q)"

definition wq_prio :: "wstate \<Rightarrow> nat \<Rightarrow> nat \<Rightarrow> int" where
  "wq_prio s q = pq_prio (wpqueue (wqueues s q))"

lemma of_nat_32_eq_0: "length ns < 2 ^ 32 \<Longrightarrow> (of_nat (length ns) :: 32 word) = 0 \<longleftrightarrow> ns = []"
  by (simp add: word_of_nat_eq_0_iff) (metis dvd_imp_le length_greater_0_conv linorder_not_less dvd_0_right list.size(3))

lemma waitqueue_is_empty_iff: "waiters s q ns \<Longrightarrow> waitqueue_is_empty q s \<longleftrightarrow> ns = []"
  by (auto simp: waitqueue_is_empty_def waiters_def of_nat_32_eq_0)

lemma waitqueue_first_task_eq:
  assumes "waiters s q ns"
  shows "waitqueue_first_task q s = Some (case ns of [] \<Rightarrow> None | n # _ \<Rightarrow> Some n)"
  using assms waitqueue_is_empty_iff [OF assms] kq.sq_pick [of "wpqueue (wqueues s q)" ns]
  by (auto simp: waitqueue_first_task_def waitqueue_first_task_core_def waiters_def split: list.splits)

lemma waiters_frame:
  assumes "waiters s q ns" "wqueues s' q = wqueues s q" "\<And>n. wq (wentries s' n) = Some q \<longleftrightarrow> wq (wentries s n) = Some q"
  shows "waiters s' q ns"
  using assms by (simp add: waiters_def)

lemma add_stat_simps [simp]:
  "wqueues (add_stat n d s) = wqueues s" "wentries (add_stat n d s) = wentries s" "wsched (add_stat n d s) = wsched s"
  by (simp_all add: add_stat_def split: option.splits)

definition entry_task :: "wstate \<Rightarrow> nat \<Rightarrow> task" where
  "entry_task s n = tasks (wsched s) (wtask (wentries s n))"

text \<open>The state after an entry is put into a queue, before its task is put to sleep.\<close>

definition enqueued :: "nat \<Rightarrow> nat \<Rightarrow> pqueue \<Rightarrow> wstate \<Rightarrow> wstate" where
  "enqueued q n pq s = add_stat n 1 (upd_entry n (\<lambda>e. e\<lparr>wq := Some q\<rparr>)
     (upd_wq q (\<lambda>w. w\<lparr>wpqueue := pq, num_waiters := num_waiters w + 1\<rparr>) s))"

lemma enqueued_simps [simp]:
  "wsched (enqueued q n pq s) = wsched s" "wtask (wentries (enqueued q n pq s) m) = wtask (wentries s m)"
  "wpqueue (wqueues (enqueued q n pq s) q) = pq" "p \<noteq> q \<Longrightarrow> wqueues (enqueued q n pq s) p = wqueues s p"
  "wq (wentries (enqueued q n pq s) m) = (if m = n then Some q else wq (wentries s m))"
  by (simp_all add: enqueued_def)

lemma enqueue_spec:
  assumes w: "waiters s q ns" and n: "wq (wentries s n) = None" and b: "Suc (length ns) < 2 ^ 32"
  shows "\<exists>pq. pqueue_insert_core (wpqueue (wqueues s q)) n p = Some pq \<and> pq_prio pq = (wq_prio s q)(n := p) \<and>
    waiters (enqueued q n pq s) q (seq_insert (wq_prio s q) p n ns)"
proof -
  have sq: "pq_seq (wpqueue (wqueues s q)) ns" and nn: "n \<notin> set ns" using w n by (auto simp: waiters_def)
  obtain pq where pq: "pqueue_insert_core (wpqueue (wqueues s q)) n p = Some pq" "pq_prio pq = (wq_prio s q)(n := p)"
    "pq_seq pq (seq_insert (wq_prio s q) p n ns)"
    using kq.sq_ins [OF sq nn, of p] by (auto simp: wq_prio_def)
  have len: "length (seq_insert (wq_prio s q) p n ns) = Suc (length ns)"
    by (simp add: seq_insert_def) (metis length_append takeWhile_dropWhile_id)
  have set: "set (seq_insert (wq_prio s q) p n ns) = insert n (set ns)"
    by (simp add: seq_insert_def) (metis set_append takeWhile_dropWhile_id)
  have "waiters (enqueued q n pq s) q (seq_insert (wq_prio s q) p n ns)"
    using w pq(3) b n unfolding waiters_def len set by (auto simp: enqueued_def)
  then show ?thesis using pq by blast
qed

lemma insert_core_eq:
  assumes "pqueue_insert_core (wpqueue (wqueues s q)) n (int (static_priority (entry_task s n))) = Some pq"
  shows "waitqueue_insert_core q n WQ_INSERT_SIMPLE s = Some (0, enqueued q n pq s)"
    and "iop \<noteq> WQ_INSERT_SIMPLE \<Longrightarrow> r \<noteq> ERR EAGAIN \<Longrightarrow>
      sched_change_task_state (wtask (wentries s n))
        (if iop = WQ_INSERT_SLEEP_INR then TASK_STATE_SLEEPING else TASK_STATE_SUSPENDED) (wsched s) = Some (r, sc) \<Longrightarrow>
      waitqueue_insert_core q n iop s = Some (r, (enqueued q n pq s)\<lparr>wsched := sc\<rparr>)"
  using assms by (simp_all add: waitqueue_insert_core_def entry_task_def enqueued_def Let_def split del: if_split)

lemma waiters_sched [simp]: "waiters (s\<lparr>wsched := sc\<rparr>) q ns = waiters s q ns"
  by (simp add: waiters_def)

lemma wq_prio_sched [simp]: "wq_prio (s\<lparr>wsched := sc\<rparr>) = wq_prio s"
  by (simp add: wq_prio_def fun_eq_iff)

definition inserted :: "wstate \<Rightarrow> nat \<Rightarrow> nat \<Rightarrow> nat list \<Rightarrow> wstate \<Rightarrow> bool" where
  "inserted s q n ns s' \<longleftrightarrow>
     (let p = int (static_priority (entry_task s n))
      in waiters s' q (seq_insert (wq_prio s q) p n ns) \<and> wq_prio s' q = (wq_prio s q)(n := p) \<and>
         (\<forall>r. r \<noteq> q \<longrightarrow> wqueues s' r = wqueues s r) \<and> wq (wentries s' n) = Some q \<and>
         (\<forall>m. m \<noteq> n \<longrightarrow> wentries s' m = wentries s m) \<and> wtask (wentries s' n) = wtask (wentries s n))"

lemma insert_core_spec:
  assumes w: "waiters s q ns" and n: "wq (wentries s n) = None" and b: "Suc (length ns) < 2 ^ 32"
  shows "\<exists>s1. inserted s q n ns s1 \<and> wsched s1 = wsched s \<and>
     waitqueue_insert_core q n WQ_INSERT_SIMPLE s = Some (0, s1) \<and>
     (\<forall>iop r sc. iop \<noteq> WQ_INSERT_SIMPLE \<and> r \<noteq> ERR EAGAIN \<and>
        sched_change_task_state (wtask (wentries s n))
          (if iop = WQ_INSERT_SLEEP_INR then TASK_STATE_SLEEPING else TASK_STATE_SUSPENDED) (wsched s) = Some (r, sc) \<longrightarrow>
        waitqueue_insert_core q n iop s = Some (r, s1\<lparr>wsched := sc\<rparr>))"
proof -
  obtain pq where pq: "pqueue_insert_core (wpqueue (wqueues s q)) n (int (static_priority (entry_task s n))) = Some pq"
    "pq_prio pq = (wq_prio s q)(n := int (static_priority (entry_task s n)))"
    "waiters (enqueued q n pq s) q (seq_insert (wq_prio s q) (int (static_priority (entry_task s n))) n ns)"
    using enqueue_spec [OF w n b] by blast
  have "inserted s q n ns (enqueued q n pq s)"
    using pq by (simp add: inserted_def Let_def wq_prio_def) (simp add: enqueued_def)
  then show ?thesis using insert_core_eq [OF pq(1)] by (intro exI [of _ "enqueued q n pq s"]) auto
qed

lemma insert_sleep_spec:
  assumes w: "waiters s q ns" and n: "wq (wentries s n) = None" and b: "Suc (length ns) < 2 ^ 32"
    and inv: "sched_inv (wsched s)" and t: "schedulable (wsched s) (wtask (wentries s n))" "runs (tstate (entry_task s n))"
    and iop: "iop = WQ_INSERT_SLEEP_UNR \<or> iop = WQ_INSERT_SLEEP_INR \<and> \<not> interrupted (entry_task s n)"
  shows "\<exists>s'. waitqueue_insert_core q n iop s = Some (0, s') \<and> inserted s q n ns s' \<and> sched_inv (wsched s') \<and>
    tstate (entry_task s' n) = (if iop = WQ_INSERT_SLEEP_INR then TASK_STATE_SLEEPING else TASK_STATE_SUSPENDED) \<and>
    sched_frame (wtask (wentries s n)) (wsched s) (wsched s')"
proof -
  let ?st = "if iop = WQ_INSERT_SLEEP_INR then TASK_STATE_SLEEPING else TASK_STATE_SUSPENDED"
  obtain sc where sc: "sched_change_task_state (wtask (wentries s n)) ?st (wsched s) = Some (0, sc)" "sched_inv sc"
    "tstate (tasks sc (wtask (wentries s n))) = ?st" "sched_frame (wtask (wentries s n)) (wsched s) sc"
    using block_spec [OF inv t(1), of ?st] t(2) iop unfolding entry_task_def by auto
  have ne: "iop \<noteq> WQ_INSERT_SIMPLE" "(0 :: int) \<noteq> ERR EAGAIN" using iop by auto
  obtain s1 where s1: "inserted s q n ns s1" "waitqueue_insert_core q n iop s = Some (0, s1\<lparr>wsched := sc\<rparr>)"
    using insert_core_spec [OF w n b] sc(1) ne by meson
  then show ?thesis using sc by (auto simp: inserted_def entry_task_def Let_def)
qed

section \<open>Removing and waking\<close>

definition dequeued :: "nat \<Rightarrow> nat \<Rightarrow> pqueue \<Rightarrow> wstate \<Rightarrow> wstate" where
  "dequeued q n pq s = upd_entry n (\<lambda>e. e\<lparr>wq := None\<rparr>)
     (upd_wq q (\<lambda>w. w\<lparr>wpqueue := pq, num_waiters := num_waiters w - 1\<rparr>) (add_stat n (- 1) s))"

definition removed :: "wstate \<Rightarrow> nat \<Rightarrow> nat \<Rightarrow> nat list \<Rightarrow> wstate \<Rightarrow> bool" where
  "removed s q n ns s' \<longleftrightarrow> waiters s' q (remove1 n ns) \<and> wq_prio s' q = wq_prio s q \<and>
     (\<forall>r. r \<noteq> q \<longrightarrow> wqueues s' r = wqueues s r) \<and> wq (wentries s' n) = None \<and>
     (\<forall>m. m \<noteq> n \<longrightarrow> wentries s' m = wentries s m) \<and> wtask (wentries s' n) = wtask (wentries s n)"

lemma dequeue_spec:
  assumes w: "waiters s q ns" and n: "n \<in> set ns"
  shows "\<exists>pq. pqueue_delete_core (wpqueue (wqueues s q)) n = Some pq \<and> removed s q n ns (dequeued q n pq s)"
proof -
  have sq: "pq_seq (wpqueue (wqueues s q)) ns" using w by (simp add: waiters_def)
  obtain pq where pq: "pqueue_delete_core (wpqueue (wqueues s q)) n = Some pq" "pq_prio pq = wq_prio s q"
    "pq_seq pq (remove1 n ns)" using kq.sq_del [OF sq n] by (auto simp: wq_prio_def)
  have d: "distinct ns" by (rule kq.sq_distinct [OF sq])
  have len: "Suc (length (remove1 n ns)) = length ns" using n by (simp add: length_remove1) (metis Suc_pred length_pos_if_in_set)
  have "waiters (dequeued q n pq s) q (remove1 n ns)"
    using w pq(3) n d by (auto simp: waiters_def dequeued_def len [symmetric] simp del: length_remove1)
  then show ?thesis using pq by (auto simp: removed_def dequeued_def wq_prio_def)
qed

lemma delete_core_eq:
  assumes "waiters s q ns" "n \<in> set ns" "pqueue_delete_core (wpqueue (wqueues s q)) n = Some pq"
  shows "waitqueue_delete_core n WQ_DELETE_SIMPLE s = Some (0, dequeued q n pq s)"
    and "sched_change_task_state (wtask (wentries s n)) TASK_STATE_RUNNABLE (wsched s) = Some (r, sc) \<Longrightarrow>
      waitqueue_delete_core n WQ_DELETE_WAKEUP s = Some (r, (dequeued q n pq s)\<lparr>wsched := sc\<rparr>)"
proof -
  have "wq (wentries s n) = Some q" "\<not> waitqueue_is_empty q s"
    using assms(1,2) waitqueue_is_empty_iff [OF assms(1)] by (auto simp: waiters_def)
  then show "waitqueue_delete_core n WQ_DELETE_SIMPLE s = Some (0, dequeued q n pq s)"
    and "sched_change_task_state (wtask (wentries s n)) TASK_STATE_RUNNABLE (wsched s) = Some (r, sc) \<Longrightarrow>
      waitqueue_delete_core n WQ_DELETE_WAKEUP s = Some (r, (dequeued q n pq s)\<lparr>wsched := sc\<rparr>)"
    using assms(3) by (simp_all add: waitqueue_delete_core_def dequeued_def Let_def add_stat_def split: option.splits)
qed

lemma removed_sched [simp]: "removed s q n ns (s'\<lparr>wsched := sc\<rparr>) = removed s q n ns s'"
  by (simp add: removed_def)

lemma delete_wakeup_spec:
  assumes w: "waiters s q ns" and n: "n \<in> set ns" and inv: "sched_inv (wsched s)"
    and t: "schedulable (wsched s) (wtask (wentries s n))" "\<not> runs (tstate (entry_task s n))"
  shows "\<exists>s'. waitqueue_delete_core n WQ_DELETE_WAKEUP s = Some (0, s') \<and> removed s q n ns s' \<and>
    sched_inv (wsched s') \<and> tstate (entry_task s' n) = TASK_STATE_RUNNABLE \<and>
    sched_frame (wtask (wentries s n)) (wsched s) (wsched s')"
proof -
  obtain pq where pq: "pqueue_delete_core (wpqueue (wqueues s q)) n = Some pq" "removed s q n ns (dequeued q n pq s)"
    using dequeue_spec [OF w n] by blast
  obtain sc where sc: "sched_change_task_state (wtask (wentries s n)) TASK_STATE_RUNNABLE (wsched s) = Some (0, sc)"
    "sched_inv sc" "tstate (tasks sc (wtask (wentries s n))) = TASK_STATE_RUNNABLE"
    "sched_frame (wtask (wentries s n)) (wsched s) sc"
    using wake_spec [OF inv t(1)] t(2) unfolding entry_task_def by auto
  show ?thesis using delete_core_eq(2) [OF w n pq(1) sc(1)] pq(2) sc(2-)
    by (auto simp: entry_task_def removed_def)
qed

section \<open>Blocked tasks in a queue\<close>

definition wait_ok :: "wstate \<Rightarrow> nat \<Rightarrow> nat list \<Rightarrow> bool" where
  "wait_ok s q ns \<longleftrightarrow> sched_inv (wsched s) \<and> waiters s q ns \<and> distinct (map (\<lambda>n. wtask (wentries s n)) ns) \<and>
     (\<forall>n \<in> set ns. schedulable (wsched s) (wtask (wentries s n)) \<and> \<not> runs (tstate (entry_task s n)))"

definition task_ready :: "wstate \<Rightarrow> nat \<Rightarrow> bool" where
  "task_ready s t \<longleftrightarrow> schedulable (wsched s) t \<and> runs (tstate (tasks (wsched s) t))"

lemma schedulable_frame:
  assumes "sched_frame t s s'" "schedulable s u" "u = t \<longrightarrow> tstate (tasks s' t) \<noteq> TASK_STATE_ZOMBIE"
  shows "schedulable s' u"
  using assms by (cases "u = t") (auto simp: sched_frame_def schedulable_def is_idle_def)

lemma wait_ok_frame:
  assumes ok: "wait_ok s p ms0" "set ms \<subseteq> set ms0" "distinct (map (\<lambda>n. wtask (wentries s n)) ms)"
    and w: "waiters s' p ms" "sched_inv (wsched s')" and f: "sched_frame t (wsched s) (wsched s')"
    and e: "\<And>m. m \<in> set ms \<Longrightarrow> wentries s' m = wentries s m"
    and t: "t \<notin> (\<lambda>m. wtask (wentries s m)) ` set ms"
  shows "wait_ok s' p ms"
proof -
  have "map (\<lambda>n. wtask (wentries s' n)) ms = map (\<lambda>n. wtask (wentries s n)) ms" using e by (intro map_cong) auto
  moreover have "schedulable (wsched s') (wtask (wentries s' m)) \<and> \<not> runs (tstate (entry_task s' m))" if m: "m \<in> set ms" for m
  proof -
    have ne: "wtask (wentries s m) \<noteq> t" using t m by blast
    then have "tasks (wsched s') (wtask (wentries s m)) = tasks (wsched s) (wtask (wentries s m))"
      using f by (simp add: sched_frame_def)
    moreover have "schedulable (wsched s) (wtask (wentries s m)) \<and> \<not> runs (tstate (entry_task s m))"
      using ok(1,2) m unfolding wait_ok_def by blast
    ultimately show ?thesis using schedulable_frame [OF f] ne by (simp add: e [OF m] entry_task_def)
  qed
  ultimately show ?thesis using w ok(3) unfolding wait_ok_def by metis
qed

lemma wait_ok_other:
  assumes ok: "wait_ok s p ms" and st: "removed s q n ns s' \<or> inserted s q n ns s'" "p \<noteq> q" "sched_inv (wsched s')"
    and f: "sched_frame (wtask (wentries s n)) (wsched s) (wsched s')" and n: "waiters s q ns" "n \<in> set ns \<or> wq (wentries s n) = None"
    and t: "wtask (wentries s n) \<notin> (\<lambda>m. wtask (wentries s m)) ` set ms"
  shows "wait_ok s' p ms"
proof -
  have np: "wq (wentries s n) \<noteq> Some p" using n st(2) by (auto simp: waiters_def)
  then have nm: "n \<notin> set ms" using ok by (auto simp: wait_ok_def waiters_def)
  have e: "wentries s' m = wentries s m" if "m \<noteq> n" for m
    using st(1) that by (auto simp: removed_def inserted_def Let_def)
  have wn: "wq (wentries s' n) \<noteq> Some p" using st(1,2) by (auto simp: removed_def inserted_def Let_def)
  have "wq (wentries s' m) = Some p \<longleftrightarrow> wq (wentries s m) = Some p" for m
    using e [of m] np wn by (cases "m = n") auto
  moreover have "wqueues s' p = wqueues s p" using st(1,2) by (auto simp: removed_def inserted_def Let_def)
  ultimately have w: "waiters s' p ms" using ok waiters_frame [of s p ms s'] by (simp add: wait_ok_def)
  show ?thesis by (rule wait_ok_frame [OF ok _ _ w st(3) f _ t])
    (use ok e nm in \<open>simp_all add: wait_ok_def, metis\<close>)
qed

lemma pop_spec:
  assumes ok: "wait_ok s q (n # ns)"
  shows "\<exists>s'. waitqueue_pop q s = Some (0, Some (wtask (wentries s n)), s') \<and> wait_ok s' q ns \<and>
    task_ready s' (wtask (wentries s n)) \<and> removed s q n (n # ns) s' \<and>
    sched_frame (wtask (wentries s n)) (wsched s) (wsched s')"
proof -
  have w: "waiters s q (n # ns)" and inv: "sched_inv (wsched s)"
    and t: "schedulable (wsched s) (wtask (wentries s n))" "\<not> runs (tstate (entry_task s n))"
    using ok by (auto simp: wait_ok_def)
  obtain s' where s': "waitqueue_delete_core n WQ_DELETE_WAKEUP s = Some (0, s')" "removed s q n (n # ns) s'"
    "sched_inv (wsched s')" "tstate (entry_task s' n) = TASK_STATE_RUNNABLE"
    "sched_frame (wtask (wentries s n)) (wsched s) (wsched s')"
    using delete_wakeup_spec [OF w _ inv t] by auto
  have "waitqueue_first_task q s = Some (Some n)" using waitqueue_first_task_eq [OF w] by simp
  then have pop: "waitqueue_pop q s = Some (0, Some (wtask (wentries s n)), s')"
    using s'(1) waitqueue_is_empty_iff [OF w]
    by (simp add: waitqueue_pop_def waitqueue_first_task_def waitqueue_first_task_core_def)
  have r: "task_ready s' (wtask (wentries s n))"
    using s' schedulable_frame [OF s'(5) t(1)] by (auto simp: task_ready_def entry_task_def removed_def)
  have dn: "n \<notin> set ns" and dt: "wtask (wentries s n) \<notin> (\<lambda>m. wtask (wentries s m)) ` set ns"
    using ok by (auto simp: wait_ok_def)
  have w': "waiters s' q ns" using s'(2) by (simp add: removed_def)
  have "wait_ok s' q ns"
    by (rule wait_ok_frame [OF ok _ _ w' s'(3) s'(5) _ dt]) (use ok s'(2) dn in \<open>auto simp: wait_ok_def removed_def\<close>)
  then show ?thesis using pop r s' by blast
qed

lemma pop_empty: "wait_ok s q [] \<Longrightarrow> waitqueue_pop q s = Some (ERR ENOENT, None, s)"
  using waitqueue_is_empty_iff [of s q "[]"] by (simp add: waitqueue_pop_def wait_ok_def)

section \<open>The interface of a wait queue\<close>

text \<open>
  What the synchronisation objects rely on: \<open>rep s q ns\<close> says that the entries \<open>ns\<close> wait in the
  queue \<open>q\<close> in this order; taking the first makes its task ready, leaves ready tasks ready and
  leaves the other queues as they are.
\<close>

fun pop_n :: "('s \<Rightarrow> (int \<times> 't option \<times> 's) option) \<Rightarrow> nat \<Rightarrow> 's \<Rightarrow> ('t list \<times> 's) option" where
  "pop_n pop 0 s = Some ([], s)"
| "pop_n pop (Suc k) s =
     do { (r, t, s) \<leftarrow> pop s;
          (ts, s) \<leftarrow> pop_n pop k s;
          Some ((case t of None \<Rightarrow> ts | Some t \<Rightarrow> t # ts), s) }"

locale wait_list =
  fixes rep :: "'s \<Rightarrow> 'q \<Rightarrow> 'n list \<Rightarrow> bool" and task_of :: "'s \<Rightarrow> 'n \<Rightarrow> 't" and ready :: "'s \<Rightarrow> 't \<Rightarrow> bool"
    and pop :: "'q \<Rightarrow> 's \<Rightarrow> (int \<times> 't option \<times> 's) option"
  assumes pop_nil: "rep s q [] \<Longrightarrow> pop q s = Some (ERR ENOENT, None, s)"
    and pop_cons: "rep s q (n # ns) \<Longrightarrow> \<exists>s'. pop q s = Some (0, Some (task_of s n), s') \<and> rep s' q ns \<and>
      ready s' (task_of s n) \<and> (\<forall>t. ready s t \<longrightarrow> ready s' t) \<and> (\<forall>m. task_of s' m = task_of s m) \<and>
      (\<forall>p ms. p \<noteq> q \<longrightarrow> rep s p ms \<longrightarrow> task_of s n \<notin> task_of s ` set ms \<longrightarrow> rep s' p ms)"
begin

lemma pop_n_spec:
  assumes "rep s q ns" "k \<le> length ns"
  shows "\<exists>s'. pop_n (pop q) k s = Some (map (task_of s) (take k ns), s') \<and> rep s' q (drop k ns) \<and>
    (\<forall>n \<in> set (take k ns). ready s' (task_of s n)) \<and> (\<forall>t. ready s t \<longrightarrow> ready s' t) \<and>
    (\<forall>m. task_of s' m = task_of s m) \<and>
    (\<forall>p ms. p \<noteq> q \<longrightarrow> rep s p ms \<longrightarrow> task_of s ` set ns \<inter> task_of s ` set ms = {} \<longrightarrow> rep s' p ms)"
  using assms
proof (induction k arbitrary: s ns)
  case 0
  then show ?case by auto
next
  case (Suc k)
  then obtain n ms where ns: "ns = n # ms" by (cases ns) auto
  obtain s1 where s1: "pop q s = Some (0, Some (task_of s n), s1)" "rep s1 q ms" "ready s1 (task_of s n)"
    "\<forall>t. ready s t \<longrightarrow> ready s1 t" "\<forall>m. task_of s1 m = task_of s m"
    "\<forall>p ms. p \<noteq> q \<longrightarrow> rep s p ms \<longrightarrow> task_of s n \<notin> task_of s ` set ms \<longrightarrow> rep s1 p ms"
    using pop_cons Suc.prems(1) unfolding ns by blast
  from Suc.IH [OF s1(2)] Suc.prems(2) obtain s2 where s2: "pop_n (pop q) k s1 = Some (map (task_of s1) (take k ms), s2)"
    "rep s2 q (drop k ms)" "\<forall>n \<in> set (take k ms). ready s2 (task_of s1 n)" "\<forall>t. ready s1 t \<longrightarrow> ready s2 t"
    "\<forall>m. task_of s2 m = task_of s1 m"
    "\<forall>p xs. p \<noteq> q \<longrightarrow> rep s1 p xs \<longrightarrow> task_of s1 ` set ms \<inter> task_of s1 ` set xs = {} \<longrightarrow> rep s2 p xs"
    unfolding ns by (metis Suc_le_mono length_Cons)
  have "map (task_of s1) (take k ms) = map (task_of s) (take k ms)" using s1(5) by simp
  then have "pop_n (pop q) (Suc k) s = Some (map (task_of s) (take (Suc k) ns), s2)" using s1(1) s2(1) ns by simp
  moreover have "rep s2 p xs" if "p \<noteq> q" "rep s p xs" "task_of s ` set ns \<inter> task_of s ` set xs = {}" for p xs
  proof -
    have "rep s1 p xs" using s1(6) that ns by auto
    moreover have "task_of s1 ` set ms \<inter> task_of s1 ` set xs = {}" using that(3) s1(5) ns by auto
    ultimately show ?thesis using s2(6) that(1) by blast
  qed
  ultimately show ?case using s1(3,4,5) s2(2-5) ns by auto
qed

end

interpretation wl: wait_list wait_ok "\<lambda>s n. wtask (wentries s n)" task_ready waitqueue_pop
proof
  show "waitqueue_pop q s = Some (ERR ENOENT, None, s)" if "wait_ok s q []" for s q using pop_empty [OF that] .
next
  fix s q n ns assume ok: "wait_ok s q (n # ns)"
  obtain s' where s': "waitqueue_pop q s = Some (0, Some (wtask (wentries s n)), s')" "wait_ok s' q ns"
    "task_ready s' (wtask (wentries s n))" "removed s q n (n # ns) s'"
    "sched_frame (wtask (wentries s n)) (wsched s) (wsched s')" using pop_spec [OF ok] by blast
  have "task_ready s' t" if "task_ready s t" for t
    using that s'(3,5) by (cases "t = wtask (wentries s n)") (auto simp: task_ready_def sched_frame_def schedulable_def is_idle_def)
  moreover have "wtask (wentries s' m) = wtask (wentries s m)" for m
    using s'(4) by (cases "m = n") (auto simp: removed_def)
  moreover have "wait_ok s' p ms" if "p \<noteq> q" "wait_ok s p ms" "wtask (wentries s n) \<notin> (\<lambda>m. wtask (wentries s m)) ` set ms" for p ms
  proof (rule wait_ok_other [OF that(2) disjI1 [OF s'(4)] that(1) _ s'(5) _ _ that(3)])
    show "sched_inv (wsched s')" using s'(2) by (simp add: wait_ok_def)
    show "waiters s q (n # ns)" using ok by (simp add: wait_ok_def)
  qed simp
  ultimately show "\<exists>s'. waitqueue_pop q s = Some (0, Some (wtask (wentries s n)), s') \<and> wait_ok s' q ns \<and>
      task_ready s' (wtask (wentries s n)) \<and> (\<forall>t. task_ready s t \<longrightarrow> task_ready s' t) \<and>
      (\<forall>m. wtask (wentries s' m) = wtask (wentries s m)) \<and>
      (\<forall>p ms. p \<noteq> q \<longrightarrow> wait_ok s p ms \<longrightarrow> wtask (wentries s n) \<notin> (\<lambda>n. wtask (wentries s n)) ` set ms \<longrightarrow> wait_ok s' p ms)"
    using s' by blast
qed

lemma insert_blocks:
  assumes ok: "wait_ok s q ns" and n: "wq (wentries s n) = None" and b: "Suc (length ns) < 2 ^ 32"
    and t: "task_ready s (wtask (wentries s n))"
    and iop: "iop = WQ_INSERT_SLEEP_UNR \<or> iop = WQ_INSERT_SLEEP_INR \<and> \<not> interrupted (entry_task s n)"
  shows "\<exists>s'. waitqueue_insert_core q n iop s = Some (0, s') \<and>
    wait_ok s' q (seq_insert (wq_prio s q) (int (static_priority (entry_task s n))) n ns) \<and> inserted s q n ns s' \<and>
    sched_frame (wtask (wentries s n)) (wsched s) (wsched s')"
proof -
  let ?ns = "seq_insert (wq_prio s q) (int (static_priority (entry_task s n))) n ns"
  have w: "waiters s q ns" "sched_inv (wsched s)" and tr: "schedulable (wsched s) (wtask (wentries s n))"
    "runs (tstate (entry_task s n))" using ok t by (auto simp: wait_ok_def task_ready_def entry_task_def)
  obtain s' where s': "waitqueue_insert_core q n iop s = Some (0, s')" "inserted s q n ns s'" "sched_inv (wsched s')"
    "tstate (entry_task s' n) = (if iop = WQ_INSERT_SLEEP_INR then TASK_STATE_SLEEPING else TASK_STATE_SUSPENDED)"
    "sched_frame (wtask (wentries s n)) (wsched s) (wsched s')"
    using insert_sleep_spec [OF w(1) n b w(2) tr iop] by blast
  have nn: "n \<notin> set ns" using w n by (auto simp: waiters_def)
  have nt: "wtask (wentries s n) \<notin> (\<lambda>m. wtask (wentries s m)) ` set ns"
    using ok tr(2) by (auto simp: wait_ok_def entry_task_def)
  have e: "wentries s' m = wentries s m" if "m \<in> set ns" for m using s'(2) nn that by (auto simp: inserted_def Let_def)
  have wn: "wtask (wentries s' n) = wtask (wentries s n)" using s'(2) by (auto simp: inserted_def Let_def)
  have set: "set ?ns = insert n (set ns)" by (simp add: seq_insert_def) (metis set_append takeWhile_dropWhile_id)
  have keep: "schedulable (wsched s') (wtask (wentries s' m)) \<and> \<not> runs (tstate (entry_task s' m))" if m: "m \<in> set ns" for m
  proof -
    have ne: "wtask (wentries s m) \<noteq> wtask (wentries s n)" using nt m by (metis image_eqI)
    have "schedulable (wsched s) (wtask (wentries s m)) \<and> \<not> runs (tstate (entry_task s m))"
      using ok m unfolding wait_ok_def by blast
    then show ?thesis using s'(5) ne schedulable_frame [OF s'(5)] by (simp add: e [OF m] entry_task_def sched_frame_def)
  qed
  have new: "schedulable (wsched s') (wtask (wentries s' n)) \<and> \<not> runs (tstate (entry_task s' n))"
    using schedulable_frame [OF s'(5) tr(1)] s'(4) by (auto simp: wn entry_task_def)
  have "distinct (map (\<lambda>m. wtask (wentries s' m)) ?ns)"
  proof -
    have "distinct ?ns" using s'(2) kq.sq_distinct by (auto simp: inserted_def waiters_def Let_def)
    moreover have "inj_on (\<lambda>m. wtask (wentries s' m)) (insert n (set ns))"
    proof -
      have "inj_on (\<lambda>m. wtask (wentries s m)) (set ns)" using ok by (simp add: wait_ok_def distinct_map)
      then have "inj_on (\<lambda>m. wtask (wentries s' m)) (set ns)" using e by (simp add: inj_on_def)
      moreover have "wtask (wentries s' n) \<notin> (\<lambda>m. wtask (wentries s' m)) ` set ns" using nt e wn by (auto simp: image_iff)
      ultimately show ?thesis using nn by simp
    qed
    ultimately show ?thesis by (simp add: distinct_map set)
  qed
  then have "wait_ok s' q ?ns" using s'(2,3) keep new by (simp add: wait_ok_def set inserted_def Let_def)
  then show ?thesis using s' by blast
qed

lemma seq_insert_sorted_prio: "wait_ok s q ns \<Longrightarrow> sorted (map (wq_prio s q) ns)"
  using kq.sq_sorted by (auto simp: wait_ok_def waiters_def wq_prio_def)

section \<open>Properties\<close>

text \<open>
  C13. Waiting and waking follow the priorities: putting the running task of an entry to sleep in
  a queue succeeds, suspends that task and leaves every other task alone, and the entry stands
  behind exactly those of smaller or equal priority value; taking every entry from the queue then
  returns the tasks in this order, all of them ready to run, and the next attempt finds no entry.
\<close>

theorem waitqueue_wakes_by_priority:
  assumes "wait_ok s q ns" "wq (wentries s n) = None" "Suc (length ns) < 2 ^ 32" "task_ready s (wtask (wentries s n))"
  shows "\<exists>s1 s2 ms. waitqueue_insert q n WQ_INSERT_SLEEP_UNR s = Some (0, s1) \<and>
    ms = seq_insert (wq_prio s q) (int (static_priority (entry_task s n))) n ns \<and> sorted (map (wq_prio s1 q) ms) \<and>
    wait_ok s1 q ms \<and> tstate (tasks (wsched s1) (wtask (wentries s n))) = TASK_STATE_SUSPENDED \<and>
    pop_n (waitqueue_pop q) (Suc (length ns)) s1 = Some (map (\<lambda>m. wtask (wentries s1 m)) ms, s2) \<and>
    (\<forall>m \<in> set ms. task_ready s2 (wtask (wentries s1 m))) \<and> waitqueue_pop q s2 = Some (ERR ENOENT, None, s2)"
proof -
  let ?ms = "seq_insert (wq_prio s q) (int (static_priority (entry_task s n))) n ns"
  obtain s1 where s1: "waitqueue_insert_core q n WQ_INSERT_SLEEP_UNR s = Some (0, s1)" "wait_ok s1 q ?ms" "inserted s q n ns s1"
    using insert_blocks [OF assms] by blast
  have len: "length ?ms = Suc (length ns)"
    by (simp add: seq_insert_def) (metis length_append takeWhile_dropWhile_id)
  obtain s2 where s2: "pop_n (waitqueue_pop q) (Suc (length ns)) s1 = Some (map (\<lambda>m. wtask (wentries s1 m)) ?ms, s2)"
    "wait_ok s2 q []" "\<forall>m \<in> set ?ms. task_ready s2 (wtask (wentries s1 m))"
    using wl.pop_n_spec [OF s1(2), of "Suc (length ns)"] len by auto
  have "tstate (entry_task s1 n) = TASK_STATE_SUSPENDED"
    using insert_sleep_spec [of s q ns n WQ_INSERT_SLEEP_UNR] assms s1(1)
    by (auto simp: wait_ok_def task_ready_def entry_task_def)
  then have "tstate (tasks (wsched s1) (wtask (wentries s n))) = TASK_STATE_SUSPENDED"
    using s1(3) by (simp add: entry_task_def inserted_def Let_def)
  then show ?thesis using s1 s2 seq_insert_sorted_prio [OF s1(2)] wl.pop_nil [OF s2(2)]
    by (intro exI [of _ s1] exI [of _ s2] exI [of _ ?ms]) (simp add: waitqueue_insert_def)
qed

definition wit_ws :: "bool \<Rightarrow> wstate" where
  "wit_ws b = \<lparr>wqueues = (\<lambda>_. \<lparr>num_waiters = 0, wpqueue = wit_pq\<rparr>),
     wentries = (\<lambda>_. \<lparr>wq = None, wtask = 7, wq_stat = None\<rparr>), wcounters = (\<lambda>_. 0),
     wsched = one_task\<lparr>tasks := (tasks one_task)(7 := (tasks one_task 7)\<lparr>interrupted := b\<rparr>)\<rparr>\<rparr>"

lemma wit_ws_ok: "wait_ok (wit_ws b) q []" "task_ready (wit_ws b) 7" "runs (tstate (tasks (wsched (wit_ws b)) 7))"
proof -
  have "sched_step one_task (one_task\<lparr>tasks := (tasks one_task)(7 := (tasks one_task 7)\<lparr>interrupted := b\<rparr>)\<rparr>)"
    by (rule sched_step.signal [of _ _ 7 b]) simp
  then have "sched_inv (wsched (wit_ws b))" using sched_step_inv one_task_inv by (simp add: wit_ws_def)
  moreover have "pq_seq wit_pq []" unfolding wit_pq_def by (rule pq_seq_initialize)
  ultimately show "wait_ok (wit_ws b) q []" by (simp add: wait_ok_def waiters_def wit_ws_def)
  show "task_ready (wit_ws b) 7" "runs (tstate (tasks (wsched (wit_ws b)) 7))"
    by (simp_all add: task_ready_def schedulable_def is_idle_def wit_ws_def one_task_def boot_def Let_def)
qed

theorem waitqueue_wakes_by_priority_witness:
  "\<exists>s1 s2. waitqueue_insert 0 5 WQ_INSERT_SLEEP_UNR (wit_ws False) = Some (0, s1) \<and> wait_ok s1 0 [5] \<and>
     pop_n (waitqueue_pop 0) 1 s1 = Some ([wtask (wentries s1 5)], s2) \<and> task_ready s2 (wtask (wentries s1 5))"
  using waitqueue_wakes_by_priority [OF wit_ws_ok(1) [of False 0], of 5] wit_ws_ok(2) [of False]
  by (auto simp: wit_ws_def seq_insert_def)

text \<open>
  C34. A sleep that a signal interrupts leaves the entry behind: when the task has a pending
  signal, waiting interruptibly fails with \<^verbatim>\<open>EINTR\<close>, the task keeps running, but its entry stays in
  the queue and counts as a waiter, so a later wake-up takes an entry whose task is gone from it.
\<close>

theorem waitqueue_intr_keeps_entry:
  assumes "waiters s q ns" "wq (wentries s n) = None" "Suc (length ns) < 2 ^ 32"
    "runs (tstate (entry_task s n))" "interrupted (entry_task s n)"
  shows "\<exists>s'. waitqueue_insert q n WQ_INSERT_SLEEP_INR s = Some (ERR EINTR, s') \<and> wsched s' = wsched s \<and>
    waiters s' q (seq_insert (wq_prio s q) (int (static_priority (entry_task s n))) n ns) \<and> wq (wentries s' n) = Some q"
proof -
  obtain s1 where s1: "inserted s q n ns s1" "wsched s1 = wsched s"
    "\<forall>iop r sc. iop \<noteq> WQ_INSERT_SIMPLE \<and> r \<noteq> ERR EAGAIN \<and>
        sched_change_task_state (wtask (wentries s n))
          (if iop = WQ_INSERT_SLEEP_INR then TASK_STATE_SLEEPING else TASK_STATE_SUSPENDED) (wsched s) = Some (r, sc) \<longrightarrow>
        waitqueue_insert_core q n iop s = Some (r, s1\<lparr>wsched := sc\<rparr>)"
    using insert_core_spec [OF assms(1-3)] by blast
  have "sched_change_task_state (wtask (wentries s n)) TASK_STATE_SLEEPING (wsched s) = Some (ERR EINTR, wsched s)"
    using sleep_interrupted assms(4,5) by (simp add: entry_task_def)
  then have "waitqueue_insert_core q n WQ_INSERT_SLEEP_INR s = Some (ERR EINTR, s1)"
    using s1(3) [rule_format, of WQ_INSERT_SLEEP_INR "ERR EINTR" "wsched s"] s1(2) by simp
  then show ?thesis using s1 by (simp add: waitqueue_insert_def inserted_def Let_def)
qed

theorem waitqueue_intr_keeps_entry_witness:
  "\<exists>s'. waitqueue_insert 0 5 WQ_INSERT_SLEEP_INR (wit_ws True) = Some (ERR EINTR, s') \<and>
     wsched s' = wsched (wit_ws True) \<and> waiters s' 0 [5] \<and> wq (wentries s' 5) = Some 0"
proof -
  have "waiters (wit_ws True) 0 []" using wit_ws_ok(1) by (simp add: wait_ok_def)
  moreover have "wq (wentries (wit_ws True) 5) = None" "interrupted (entry_task (wit_ws True) 5)"
    by (simp_all add: wit_ws_def entry_task_def)
  moreover have "runs (tstate (entry_task (wit_ws True) 5))"
    using wit_ws_ok(3) [of True] by (simp add: entry_task_def) (simp add: wit_ws_def)
  ultimately show ?thesis using waitqueue_intr_keeps_entry [of "wit_ws True" 0 "[]" 5] by (simp add: seq_insert_def)
qed

end
