(* ===== verification/Mutex.thy ===== *)
theory Mutex
  imports Waitqueue
begin

text \<open>
  Kernel mutexes (\<^verbatim>\<open>kernel/sync/mutex.c\<close>, \<^verbatim>\<open>include/sync/mutex.h\<close>) over the wait queues. Each
  operation runs under the mutex's spin lock and is one step; a task that has to wait is suspended
  in the step, and it returns from \<^verbatim>\<open>mutex_lock\<close> when it is ready to run again. \<open>mutex_step\<close> runs any
  number of tasks that lock and unlock a mutex, with any other activity of the scheduler in
  between that does not touch the suspended waiters.
\<close>

section \<open>Operations\<close>

record mutex =
  executer :: "nat option"
  mwq :: nat

definition mutex_is_locked :: "mutex \<Rightarrow> bool" where
  "mutex_is_locked m \<longleftrightarrow> executer m \<noteq> None"

definition mutex_initialize :: "mutex \<times> wstate \<Rightarrow> mutex \<times> wstate" where
  "mutex_initialize = (\<lambda>(m, s). (m\<lparr>executer := None\<rparr>, waitqueue_initialize (mwq m) s))"

text \<open>\<open>cur\<close> is the current task, \<open>n\<close> the queue entry in its stack frame.\<close>

definition mutex_lock :: "nat \<Rightarrow> nat \<Rightarrow> mutex \<times> wstate \<Rightarrow> (mutex \<times> wstate) option" where
  "mutex_lock cur n = (\<lambda>(m, s).
     if \<not> mutex_is_locked m then Some (m\<lparr>executer := Some cur\<rparr>, s)
     else do { let s = waitqueue_prepare_task n cur s;
               (_, s) \<leftarrow> waitqueue_insert (mwq m) n WQ_INSERT_SLEEP_UNR s;
               Some (m, s) })"

definition mutex_unlock :: "mutex \<times> wstate \<Rightarrow> (mutex \<times> wstate) option" where
  "mutex_unlock = (\<lambda>(m, s).
     let m = m\<lparr>executer := None\<rparr>
     in if \<not> waitqueue_is_empty (mwq m) s
        then do { (_, next, s) \<leftarrow> waitqueue_pop (mwq m) s;
                  Some (m\<lparr>executer := next\<rparr>, s) }
        else Some (m, s))"

text \<open>
  \<^verbatim>\<open>mutex_trylock\<close> tests the mutex without its lock; \<open>other\<close> is what the other CPUs do to the state
  before \<^verbatim>\<open>mutex_lock\<close> takes the lock.
\<close>

definition mutex_trylock ::
  "nat \<Rightarrow> nat \<Rightarrow> (mutex \<times> wstate \<Rightarrow> (mutex \<times> wstate) option) \<Rightarrow> mutex \<times> wstate \<Rightarrow> (bool \<times> mutex \<times> wstate) option" where
  "mutex_trylock cur n other ms =
     (if mutex_is_locked (fst ms) then Some (False, ms)
      else do { ms \<leftarrow> other ms;
                ms \<leftarrow> mutex_lock cur n ms;
                Some (True, ms) })"

section \<open>Waiting tasks\<close>

abbreviation wtasks :: "wstate \<Rightarrow> nat list \<Rightarrow> nat set" where
  "wtasks s ns \<equiv> (\<lambda>n. wtask (wentries s n)) ` set ns"

lemma wait_ok_not_ready: "wait_ok s q ns \<Longrightarrow> t \<in> wtasks s ns \<Longrightarrow> \<not> task_ready s t"
  by (auto simp: wait_ok_def task_ready_def entry_task_def)

lemma prepare_simps [simp]:
  "wqueues (waitqueue_prepare_task n t s) = wqueues s" "wsched (waitqueue_prepare_task n t s) = wsched s"
  "wentries (waitqueue_prepare_task n t s) n = \<lparr>wq = None, wtask = t, wq_stat = None\<rparr>"
  "m \<noteq> n \<Longrightarrow> wentries (waitqueue_prepare_task n t s) m = wentries s m"
  "wq_prio (waitqueue_prepare_task n t s) = wq_prio s"
  by (simp_all add: waitqueue_prepare_task_def wq_prio_def fun_eq_iff)

lemma wait_ok_prepare:
  assumes ok: "wait_ok s q ns" and n: "wq (wentries s n) = None"
  shows "wait_ok (waitqueue_prepare_task n t s) q ns" "wtasks (waitqueue_prepare_task n t s) ns = wtasks s ns"
proof -
  have nn: "n \<notin> set ns" using ok n by (auto simp: wait_ok_def waiters_def)
  have e: "wentries (waitqueue_prepare_task n t s) m = wentries s m" if "m \<in> set ns" for m using nn that by (cases "m = n") auto
  then show "wtasks (waitqueue_prepare_task n t s) ns = wtasks s ns" by (intro image_cong) auto
  have w: "wq (wentries (waitqueue_prepare_task n t s) m) = wq (wentries s m)" for m using n by (cases "m = n") auto
  have mp: "map (\<lambda>m. wtask (wentries (waitqueue_prepare_task n t s) m)) ns = map (\<lambda>m. wtask (wentries s m)) ns"
    using e by (intro map_cong) auto
  show "wait_ok (waitqueue_prepare_task n t s) q ns"
    using ok e unfolding wait_ok_def waiters_def w mp entry_task_def by simp
qed

text \<open>A ready task that enters a queue through a fresh entry is the only task whose state changes.\<close>

lemma push_spec:
  assumes ok: "wait_ok s q ns" and n: "wq (wentries s n) = None" and b: "Suc (length ns) < 2 ^ 32" and t: "task_ready s t"
  shows "\<exists>s' ms. waitqueue_insert_core q n WQ_INSERT_SLEEP_UNR (waitqueue_prepare_task n t s) = Some (0, s') \<and>
    wait_ok s' q ms \<and> wtasks s' ms = insert t (wtasks s ns) \<and> length ms = Suc (length ns) \<and>
    (\<forall>u. u \<noteq> t \<longrightarrow> task_ready s' u = task_ready s u) \<and>
    (\<forall>p ps. p \<noteq> q \<longrightarrow> wait_ok s p ps \<longrightarrow> wait_ok s' p ps \<and> wtasks s' ps = wtasks s ps)"
proof -
  let ?s = "waitqueue_prepare_task n t s"
  let ?ms = "seq_insert (wq_prio ?s q) (int (static_priority (entry_task ?s n))) n ns"
  have ok': "wait_ok ?s q ns" by (rule wait_ok_prepare [OF ok n])
  have t': "task_ready ?s (wtask (wentries ?s n))" using t by (simp add: task_ready_def)
  obtain s' where s': "waitqueue_insert_core q n WQ_INSERT_SLEEP_UNR ?s = Some (0, s')" "wait_ok s' q ?ms"
    "inserted ?s q n ns s'" "sched_frame t (wsched s) (wsched s')"
    using insert_blocks [OF ok' _ b t'] by auto
  have nn: "n \<notin> set ns" using ok n by (auto simp: wait_ok_def waiters_def)
  have e: "wentries s' m = wentries s m" if "m \<noteq> n" for m using s'(3) that by (auto simp: inserted_def Let_def)
  have wn: "wtask (wentries s' n) = t" using s'(3) by (auto simp: inserted_def Let_def)
  have set: "set ?ms = insert n (set ns)" by (simp add: seq_insert_def) (metis set_append takeWhile_dropWhile_id)
  have len: "length ?ms = Suc (length ns)" by (simp add: seq_insert_def) (metis length_append takeWhile_dropWhile_id)
  have im: "wtasks s' ns = wtasks s ns" by (rule image_cong) (use e nn in metis)+
  have "wtasks s' ?ms = insert t (wtasks s ns)" unfolding set using im wn by simp
  moreover have "task_ready s' u = task_ready s u" if "u \<noteq> t" for u
    using s'(4) that by (auto simp: task_ready_def sched_frame_def schedulable_def is_idle_def)
  moreover have "wait_ok s' p ps \<and> wtasks s' ps = wtasks s ps" if p: "p \<noteq> q" "wait_ok s p ps" for p ps
  proof
    have pn: "n \<notin> set ps" using p n by (auto simp: wait_ok_def waiters_def)
    then show "wtasks s' ps = wtasks s ps" by (intro image_cong refl) (use e pn in metis)
    have "t \<notin> wtasks ?s ps" using wait_ok_not_ready [OF p(2)] t wait_ok_prepare(2) [OF p(2) n] by metis
    then show "wait_ok s' p ps"
      using wait_ok_other [OF wait_ok_prepare(1) [OF p(2) n] disjI2 [OF s'(3)] p(1)] s'(2,4) ok'
      by (auto simp: wait_ok_def)
  qed
  ultimately show ?thesis using s'(1,2) len by blast
qed

lemma waitqueue_len: "wait_ok s q ns \<Longrightarrow> unat (num_waiters (wqueues s q)) = length ns"
  by (auto simp: wait_ok_def waiters_def unat_of_nat take_bit_nat_eq_self)

section \<open>Tasks that share a mutex\<close>

text \<open>
  The first component holds the tasks that have called \<^verbatim>\<open>mutex_lock\<close> and not yet \<^verbatim>\<open>mutex_unlock\<close>.
  Such a task is past \<^verbatim>\<open>mutex_lock\<close> when it is ready to run. Only ready tasks act.
\<close>

inductive mutex_step :: "nat set \<times> mutex \<times> wstate \<Rightarrow> nat set \<times> mutex \<times> wstate \<Rightarrow> bool" where
  lock: "task_ready s t \<Longrightarrow> t \<notin> E \<Longrightarrow> wq (wentries s n) = None \<Longrightarrow>
     unat (num_waiters (wqueues s (mwq m))) + 1 < 2 ^ 32 \<Longrightarrow>
     mutex_lock t n (m, s) = Some (m', s') \<Longrightarrow> mutex_step (E, m, s) (insert t E, m', s')"
| unlock: "task_ready s t \<Longrightarrow> t \<in> E \<Longrightarrow> mutex_unlock (m, s) = Some (m', s') \<Longrightarrow>
     mutex_step (E, m, s) (E - {t}, m', s')"
| other: "sched_step (wsched s) sc \<Longrightarrow> idle_tasks sc = idle_tasks (wsched s) \<Longrightarrow>
     (\<forall>n. wq (wentries s n) = Some (mwq m) \<longrightarrow> tasks sc (wtask (wentries s n)) = entry_task s n) \<Longrightarrow>
     mutex_step (E, m, s) (E, m, s\<lparr>wsched := sc\<rparr>)"

definition mutex_inv :: "nat set \<times> mutex \<times> wstate \<Rightarrow> bool" where
  "mutex_inv = (\<lambda>(E, m, s). \<exists>ns. wait_ok s (mwq m) ns \<and> (executer m = None \<longrightarrow> ns = []) \<and>
     (\<forall>t. executer m = Some t \<longrightarrow> t \<notin> wtasks s ns) \<and> E = set_option (executer m) \<union> wtasks s ns)"

lemma mutex_unlock_empty:
  "wait_ok s (mwq m) [] \<Longrightarrow> mutex_unlock (m, s) = Some (m\<lparr>executer := None\<rparr>, s)"
  using waitqueue_is_empty_iff by (auto simp: mutex_unlock_def wait_ok_def)

lemma mutex_unlock_next:
  assumes ok: "wait_ok s (mwq m) (n # ns)"
  shows "\<exists>s'. mutex_unlock (m, s) = Some (m\<lparr>executer := Some (wtask (wentries s n))\<rparr>, s') \<and> wait_ok s' (mwq m) ns \<and>
    task_ready s' (wtask (wentries s n)) \<and> (\<forall>t. task_ready s t \<longrightarrow> task_ready s' t) \<and>
    (\<forall>m. wtask (wentries s' m) = wtask (wentries s m))"
  using wl.pop_cons [OF ok] waitqueue_is_empty_iff [of s "mwq m" "n # ns"] ok
  by (auto simp: mutex_unlock_def wait_ok_def)

lemma mutex_lock_inv:
  assumes inv: "mutex_inv (E, m, s)" and t: "task_ready s t" "t \<notin> E" and n: "wq (wentries s n) = None"
    and b: "unat (num_waiters (wqueues s (mwq m))) + 1 < 2 ^ 32"
  shows "\<exists>m' s'. mutex_lock t n (m, s) = Some (m', s') \<and> mutex_inv (insert t E, m', s')"
proof (cases "executer m")
  case None
  have "mutex_inv (insert t E, m\<lparr>executer := Some t\<rparr>, s)"
    using inv t None by (auto simp: mutex_inv_def)
  then show ?thesis using None by (auto simp: mutex_lock_def mutex_is_locked_def)
next
  case (Some e)
  then obtain ns where ns: "wait_ok s (mwq m) ns" "e \<notin> wtasks s ns" "E = insert e (wtasks s ns)"
    using inv by (auto simp: mutex_inv_def)
  obtain s' ms where s': "waitqueue_insert_core (mwq m) n WQ_INSERT_SLEEP_UNR (waitqueue_prepare_task n t s) = Some (0, s')"
    "wait_ok s' (mwq m) ms" "wtasks s' ms = insert t (wtasks s ns)"
    using push_spec [OF ns(1) n _ t(1)] b waitqueue_len [OF ns(1)] by auto
  have "mutex_inv (insert t E, m, s')"
    using s'(2,3) ns Some t(2) by (auto simp: mutex_inv_def intro!: exI [of _ ms])
  moreover have "mutex_lock t n (m, s) = Some (m, s')"
    using s'(1) Some by (simp add: mutex_lock_def mutex_is_locked_def waitqueue_insert_def)
  ultimately show ?thesis by blast
qed

lemma mutex_ready_executer:
  assumes "mutex_inv (E, m, s)" "t \<in> E" "task_ready s t"
  shows "executer m = Some t"
  using assms wait_ok_not_ready by (fastforce simp: mutex_inv_def)

lemma mutex_unlock_inv:
  assumes inv: "mutex_inv (E, m, s)" and t: "task_ready s t" "t \<in> E"
  shows "\<exists>m' s'. mutex_unlock (m, s) = Some (m', s') \<and> mutex_inv (E - {t}, m', s')"
proof -
  have e: "executer m = Some t" by (rule mutex_ready_executer [OF inv t(2,1)])
  obtain ns where ns: "wait_ok s (mwq m) ns" "t \<notin> wtasks s ns" "E = insert t (wtasks s ns)"
    using inv e by (auto simp: mutex_inv_def)
  show ?thesis
  proof (cases ns)
    case Nil
    then show ?thesis using ns mutex_unlock_empty [of s m] by (auto simp: mutex_inv_def intro!: exI [of _ "[]"])
  next
    case (Cons n ms)
    obtain s' where s': "mutex_unlock (m, s) = Some (m\<lparr>executer := Some (wtask (wentries s n))\<rparr>, s')"
      "wait_ok s' (mwq m) ms" "\<forall>m. wtask (wentries s' m) = wtask (wentries s m)"
      using mutex_unlock_next ns(1) unfolding Cons by blast
    have "wtask (wentries s n) \<notin> wtasks s' ms" using ns(1) s'(3) unfolding Cons by (auto simp: wait_ok_def)
    moreover have "E - {t} = insert (wtask (wentries s n)) (wtasks s' ms)" using ns(2,3) s'(3) unfolding Cons by auto
    ultimately have "mutex_inv (E - {t}, m\<lparr>executer := Some (wtask (wentries s n))\<rparr>, s')"
      using s'(2) by (auto simp: mutex_inv_def intro!: exI [of _ ms])
    then show ?thesis using s'(1) by blast
  qed
qed

lemma wait_ok_sched:
  assumes ok: "wait_ok s q ns" and sc: "sched_inv sc" "idle_tasks sc = idle_tasks (wsched s)"
    and e: "\<And>n. n \<in> set ns \<Longrightarrow> tasks sc (wtask (wentries s n)) = entry_task s n"
  shows "wait_ok (s\<lparr>wsched := sc\<rparr>) q ns"
proof -
  have "schedulable sc (wtask (wentries s n)) \<and> \<not> runs (tstate (tasks sc (wtask (wentries s n))))" if "n \<in> set ns" for n
  proof -
    have "schedulable (wsched s) (wtask (wentries s n)) \<and> \<not> runs (tstate (entry_task s n))"
      using ok that unfolding wait_ok_def by blast
    then show ?thesis using e [OF that] sc(2) by (simp add: schedulable_def is_idle_def entry_task_def)
  qed
  then show ?thesis using ok sc(1) by (simp add: wait_ok_def entry_task_def)
qed

lemma mutex_step_inv:
  assumes "mutex_step x y" "mutex_inv x"
  shows "mutex_inv y"
  using assms
proof (induction rule: mutex_step.induct)
  case (lock s t E n m m' s')
  then show ?case using mutex_lock_inv [of E m s t n] by auto
next
  case (unlock s t E m m' s')
  then show ?case using mutex_unlock_inv [of E m s t] by auto
next
  case (other s sc m E)
  then obtain ns where ns: "wait_ok s (mwq m) ns" "executer m = None \<longrightarrow> ns = []"
    "\<forall>t. executer m = Some t \<longrightarrow> t \<notin> wtasks s ns" "E = set_option (executer m) \<union> wtasks s ns"
    by (auto simp: mutex_inv_def)
  have "sched_inv sc" using sched_step_inv [OF other(1)] ns(1) by (simp add: wait_ok_def)
  moreover have "tasks sc (wtask (wentries s n)) = entry_task s n" if "n \<in> set ns" for n
    using other(3) ns(1) that by (auto simp: wait_ok_def waiters_def)
  ultimately have "wait_ok (s\<lparr>wsched := sc\<rparr>) (mwq m) ns" using wait_ok_sched [OF ns(1)] other(2) by blast
  then show ?case using ns by (auto simp: mutex_inv_def intro!: exI [of _ ns])
qed

inductive mutex_reach :: "nat set \<times> mutex \<times> wstate \<Rightarrow> nat set \<times> mutex \<times> wstate \<Rightarrow> bool" for x where
  start: "mutex_reach x x"
| step: "mutex_reach x y \<Longrightarrow> mutex_step y z \<Longrightarrow> mutex_reach x z"

lemma mutex_reach_inv: "mutex_reach x y \<Longrightarrow> mutex_inv x \<Longrightarrow> mutex_inv y"
  by (induction rule: mutex_reach.induct) (auto intro: mutex_step_inv)

lemma mutex_initial_inv:
  assumes "wait_ok s (mwq m) []" "executer m = None"
  shows "mutex_inv ({}, m, s)"
  using assms by (auto simp: mutex_inv_def)

section \<open>Properties\<close>


definition wit_mutex :: mutex where "wit_mutex = \<lparr>executer = None, mwq = 3\<rparr>"


fun mutex_unlocks :: "nat \<Rightarrow> mutex \<times> wstate \<Rightarrow> (nat option list \<times> mutex \<times> wstate) option" where
  "mutex_unlocks 0 ms = Some ([], ms)"
| "mutex_unlocks (Suc k) ms =
     do { ms \<leftarrow> mutex_unlock ms;
          (es, ms') \<leftarrow> mutex_unlocks k ms;
          Some (executer (fst ms) # es, ms') }"

lemma mutex_unlocks_all:
  assumes "wait_ok s (mwq m) ns"
  shows "\<exists>s'. mutex_unlocks (Suc (length ns)) (m, s) =
      Some (map (\<lambda>n. Some (wtask (wentries s n))) ns @ [None], m\<lparr>executer := None\<rparr>, s') \<and>
    (\<forall>n \<in> set ns. task_ready s' (wtask (wentries s n))) \<and> (\<forall>t. task_ready s t \<longrightarrow> task_ready s' t)"
  using assms
proof (induction ns arbitrary: m s)
  case Nil
  then show ?case using mutex_unlock_empty [of s m] by simp
next
  case (Cons n ns)
  let ?m = "m\<lparr>executer := Some (wtask (wentries s n))\<rparr>"
  obtain s1 where s1: "mutex_unlock (m, s) = Some (?m, s1)" "wait_ok s1 (mwq ?m) ns"
    "task_ready s1 (wtask (wentries s n))" "\<forall>t. task_ready s t \<longrightarrow> task_ready s1 t"
    "\<forall>m. wtask (wentries s1 m) = wtask (wentries s m)"
    using mutex_unlock_next [OF Cons.prems] by auto
  obtain s2 where s2: "mutex_unlocks (Suc (length ns)) (?m, s1) =
      Some (map (\<lambda>n. Some (wtask (wentries s1 n))) ns @ [None], ?m\<lparr>executer := None\<rparr>, s2)"
    "\<forall>n \<in> set ns. task_ready s2 (wtask (wentries s1 n))" "\<forall>t. task_ready s1 t \<longrightarrow> task_ready s2 t"
    using Cons.IH [OF s1(2)] by blast
  have "mutex_unlocks (Suc (length (n # ns))) (m, s) =
      Some (map (\<lambda>n. Some (wtask (wentries s n))) (n # ns) @ [None], m\<lparr>executer := None\<rparr>, s2)"
    unfolding list.size(4) add_Suc_right add_0_right mutex_unlocks.simps(2) [of "Suc (length ns)"] s1(1)
    using s2(1) s1(5) by (simp del: mutex_unlocks.simps)
  then show ?case using s1(3,4,5) s2(2,3) by (intro exI [of _ s2]) (simp del: mutex_unlocks.simps)
qed

text \<open>
  C15. No waiter is lost or overtaken: if the entries \<open>ns\<close> wait for a mutex, then unlocking it once
  for each of them and once more hands it to the waiting tasks one after the other in the order of
  their priorities, makes each of them ready to run, and leaves the mutex free.
\<close>

theorem mutex_handover:
  assumes "wait_ok s (mwq m) ns"
  shows "\<exists>s'. mutex_unlocks (Suc (length ns)) (m, s) =
      Some (map (\<lambda>n. Some (wtask (wentries s n))) ns @ [None], m\<lparr>executer := None\<rparr>, s') \<and>
    sorted (map (wq_prio s (mwq m)) ns) \<and> (\<forall>n \<in> set ns. task_ready s' (wtask (wentries s n)))"
  using mutex_unlocks_all [OF assms] seq_insert_sorted_prio [OF assms] by blast

theorem mutex_handover_witness:
  "\<exists>s s'. wait_ok s 3 [5] \<and> mutex_unlocks 2 (wit_mutex\<lparr>executer := Some 1\<rparr>, s) =
     Some ([Some (wtask (wentries s 5)), None], wit_mutex, s') \<and> task_ready s' (wtask (wentries s 5))"
proof -
  obtain s where s: "wait_ok s 3 [5]"
    using insert_blocks [OF wit_ws_ok(1) [of False 3], of 5 WQ_INSERT_SLEEP_UNR] wit_ws_ok(2) [of False]
    by (auto simp: wit_ws_def seq_insert_def)
  then have "wait_ok s (mwq (wit_mutex\<lparr>executer := Some 1\<rparr>)) [5]" by (simp add: wit_mutex_def)
  from mutex_handover [OF this] s show ?thesis
    by (auto simp: wit_mutex_def numeral_2_eq_2 simp del: mutex_unlocks.simps)
qed

text \<open>
  \<^verbatim>\<open>mutex_trylock\<close> decides without the lock: when another CPU locks the mutex in between, the call
  still reports success while the caller is queued and suspended.
\<close>

lemma mutex_trylock_may_block:
  assumes ok: "wait_ok s (mwq m) []" and m: "executer m = None" and n: "wq (wentries s n) = None" and t: "task_ready s t"
  shows "\<exists>s' ms. mutex_trylock t n (mutex_lock u k) (m, s) = Some (True, m\<lparr>executer := Some u\<rparr>, s') \<and>
    wait_ok s' (mwq m) ms \<and> t \<in> wtasks s' ms \<and> \<not> task_ready s' t"
proof -
  obtain s' ms where s': "waitqueue_insert_core (mwq m) n WQ_INSERT_SLEEP_UNR (waitqueue_prepare_task n t s) = Some (0, s')"
    "wait_ok s' (mwq m) ms" "wtasks s' ms = insert t (wtasks s [])"
    using push_spec [OF ok n _ t] by auto
  have "mutex_trylock t n (mutex_lock u k) (m, s) = Some (True, m\<lparr>executer := Some u\<rparr>, s')"
    using m s'(1) by (simp add: mutex_trylock_def mutex_lock_def mutex_is_locked_def waitqueue_insert_def)
  then show ?thesis using s'(2,3) wait_ok_not_ready [OF s'(2), of t] by blast
qed

end
