(* ===== verification/Rwsem.thy ===== *)
theory Rwsem
  imports Mutex
begin

text \<open>
  Reader/writer semaphores (\<^verbatim>\<open>kernel/sync/rwsem.c\<close>, \<^verbatim>\<open>include/sync/rwsem.h\<close>). The counter \<^verbatim>\<open>stat\<close>
  counts the active readers when it is positive; when it is negative there is an active writer and
  its absolute value counts this writer and the waiting ones. \<open>rwsem_step\<close> runs any number of
  tasks that enter and leave as readers and writers. The counter is an integer: it is bounded by
  the number of tasks, far below its 32 bits.
\<close>

section \<open>Operations\<close>

record rwsem =
  stat :: int
  writers_wq :: nat
  readers_wq :: nat

definition rwsem_is_locked :: "rwsem \<Rightarrow> bool" where
  "rwsem_is_locked r \<longleftrightarrow> stat r \<noteq> 0"

definition rwsem_is_locked4write :: "rwsem \<Rightarrow> bool" where
  "rwsem_is_locked4write r \<longleftrightarrow> stat r < 0"

definition rwsem_initialize :: "rwsem \<times> wstate \<Rightarrow> rwsem \<times> wstate" where
  "rwsem_initialize = (\<lambda>(r, s).
     (r\<lparr>stat := 0\<rparr>, waitqueue_initialize (readers_wq r) (waitqueue_initialize (writers_wq r) s)))"

definition rwsem_down_read_core :: "nat \<Rightarrow> nat \<Rightarrow> wqueue_insop \<Rightarrow> rwsem \<times> wstate \<Rightarrow> (rwsem \<times> wstate) option" where
  "rwsem_down_read_core cur n iop = (\<lambda>(r, s).
     if rwsem_is_locked4write r
     then do { let s = waitqueue_prepare_task n cur s;
               (_, s) \<leftarrow> waitqueue_insert_core (readers_wq r) n iop s;
               Some (r, s) }
     else Some (r\<lparr>stat := stat r + 1\<rparr>, s))"

definition rwsem_down_write_core :: "nat \<Rightarrow> nat \<Rightarrow> wqueue_insop \<Rightarrow> rwsem \<times> wstate \<Rightarrow> (rwsem \<times> wstate) option" where
  "rwsem_down_write_core cur n iop = (\<lambda>(r, s).
     if rwsem_is_locked r
     then do { let r = (if stat r < 0 then r\<lparr>stat := stat r - 1\<rparr> else r);
               let s = waitqueue_prepare_task n cur s;
               (ret, s) \<leftarrow> waitqueue_insert_core (writers_wq r) n iop s;
               Some (if ret = ERR EINTR \<and> stat r < 0 then r\<lparr>stat := stat r + 1\<rparr> else r, s) }
     else Some (r\<lparr>stat := stat r - 1\<rparr>, s))"

definition rwsem_down_write :: "nat \<Rightarrow> nat \<Rightarrow> wqueue_insop \<Rightarrow> rwsem \<times> wstate \<Rightarrow> (rwsem \<times> wstate) option" where
  "rwsem_down_write cur n iop rs = rwsem_down_write_core cur n iop rs"

definition rwsem_down_read :: "nat \<Rightarrow> nat \<Rightarrow> wqueue_insop \<Rightarrow> rwsem \<times> wstate \<Rightarrow> (rwsem \<times> wstate) option" where
  "rwsem_down_read cur n iop rs = rwsem_down_read_core cur n iop rs"

definition rwsem_up_write :: "rwsem \<times> wstate \<Rightarrow> (rwsem \<times> wstate) option" where
  "rwsem_up_write = (\<lambda>(r, s).
     if \<not> stat r < 0 then None
     else let r = r\<lparr>stat := stat r + 1\<rparr>
          in if stat r < 0
             then do { (_, _, s) \<leftarrow> waitqueue_pop (writers_wq r) s;
                       Some (r, s) }
             else if \<not> waitqueue_is_empty (readers_wq r) s
             then do { let k = unat (num_waiters (wqueues s (readers_wq r)));
                       let r = r\<lparr>stat := stat r + int k\<rparr>;
                       (_, s) \<leftarrow> pop_n (waitqueue_pop (readers_wq r)) k s;
                       Some (r, s) }
             else Some (r, s))"

definition rwsem_up_read :: "rwsem \<times> wstate \<Rightarrow> (rwsem \<times> wstate) option" where
  "rwsem_up_read = (\<lambda>(r, s).
     if \<not> stat r > 0 then None
     else let r = r\<lparr>stat := stat r - 1\<rparr>
          in if stat r = 0 \<and> \<not> waitqueue_is_empty (writers_wq r) s
             then do { let r = r\<lparr>stat := stat r - uint (num_waiters (wqueues s (writers_wq r)))\<rparr>;
                       (ret, _, s) \<leftarrow> waitqueue_pop (writers_wq r) s;
                       if ret = 0 then Some (r, s) else None }
             else Some (r, s))"

text \<open>
  The try operations test before they take the lock and again under it; \<open>other\<close> is what the other
  CPUs do in between.
\<close>

definition rwsem_try_down_read ::
  "nat \<Rightarrow> nat \<Rightarrow> wqueue_insop \<Rightarrow> (rwsem \<times> wstate \<Rightarrow> (rwsem \<times> wstate) option) \<Rightarrow> rwsem \<times> wstate \<Rightarrow>
     (bool \<times> rwsem \<times> wstate) option" where
  "rwsem_try_down_read cur n iop other rs =
     (if rwsem_is_locked4write (fst rs) then Some (False, rs)
      else do { rs \<leftarrow> other rs;
                if \<not> rwsem_is_locked4write (fst rs)
                then do { rs \<leftarrow> rwsem_down_read_core cur n iop rs; Some (True, rs) }
                else Some (False, rs) })"

definition rwsem_try_down_write ::
  "nat \<Rightarrow> nat \<Rightarrow> wqueue_insop \<Rightarrow> (rwsem \<times> wstate \<Rightarrow> (rwsem \<times> wstate) option) \<Rightarrow> rwsem \<times> wstate \<Rightarrow>
     (bool \<times> rwsem \<times> wstate) option" where
  "rwsem_try_down_write cur n iop other rs =
     (if rwsem_is_locked (fst rs) then Some (False, rs)
      else do { rs \<leftarrow> other rs;
                if \<not> rwsem_is_locked (fst rs)
                then do { rs \<leftarrow> rwsem_down_write_core cur n iop rs; Some (True, rs) }
                else Some (False, rs) })"

section \<open>Readers and writers\<close>

text \<open>
  \<open>R\<close> and \<open>W\<close> hold the tasks that have called the entry operation for reading or writing and not
  yet left. Such a task is inside when it is ready to run. \<open>fits\<close> bounds the number of waiters.
\<close>

definition fits :: "wstate \<Rightarrow> nat \<Rightarrow> bool" where
  "fits s q \<longleftrightarrow> unat (num_waiters (wqueues s q)) + 1 < 2 ^ 32"

inductive rwsem_step :: "nat set \<times> nat set \<times> rwsem \<times> wstate \<Rightarrow> nat set \<times> nat set \<times> rwsem \<times> wstate \<Rightarrow> bool" where
  enter_read: "task_ready s t \<Longrightarrow> t \<notin> R \<union> W \<Longrightarrow> wq (wentries s n) = None \<Longrightarrow> fits s (readers_wq r) \<Longrightarrow>
     rwsem_down_read t n WQ_INSERT_SLEEP_UNR (r, s) = Some (r', s') \<Longrightarrow> rwsem_step (R, W, r, s) (insert t R, W, r', s')"
| enter_write: "task_ready s t \<Longrightarrow> t \<notin> R \<union> W \<Longrightarrow> wq (wentries s n) = None \<Longrightarrow> fits s (writers_wq r) \<Longrightarrow>
     rwsem_down_write t n WQ_INSERT_SLEEP_UNR (r, s) = Some (r', s') \<Longrightarrow> rwsem_step (R, W, r, s) (R, insert t W, r', s')"
| leave_read: "task_ready s t \<Longrightarrow> t \<in> R \<Longrightarrow> rwsem_up_read (r, s) = Some (r', s') \<Longrightarrow>
     rwsem_step (R, W, r, s) (R - {t}, W, r', s')"
| leave_write: "task_ready s t \<Longrightarrow> t \<in> W \<Longrightarrow> rwsem_up_write (r, s) = Some (r', s') \<Longrightarrow>
     rwsem_step (R, W, r, s) (R, W - {t}, r', s')"

text \<open>\<open>A\<close> are the readers inside, \<open>w\<close> is the writer inside, \<open>rs\<close> and \<open>ws\<close> wait.\<close>

definition rw_rep :: "nat set \<times> nat set \<times> rwsem \<times> wstate \<Rightarrow> nat set \<Rightarrow> nat option \<Rightarrow> nat list \<Rightarrow> nat list \<Rightarrow> bool" where
  "rw_rep = (\<lambda>(R, W, r, s) A w rs ws.
     readers_wq r \<noteq> writers_wq r \<and> wait_ok s (readers_wq r) rs \<and> wait_ok s (writers_wq r) ws \<and> finite A \<and>
     R = A \<union> wtasks s rs \<and> W = set_option w \<union> wtasks s ws \<and> R \<inter> W = {} \<and>
     A \<inter> wtasks s rs = {} \<and> set_option w \<inter> wtasks s ws = {} \<and>
     (case w of Some _ \<Rightarrow> A = {} \<and> stat r = - (1 + int (length ws))
      | None \<Rightarrow> rs = [] \<and> stat r = int (card A) \<and> (A = {} \<longrightarrow> ws = [])))"

definition rw_inv :: "nat set \<times> nat set \<times> rwsem \<times> wstate \<Rightarrow> bool" where
  "rw_inv x \<longleftrightarrow> (\<exists>A w rs ws. rw_rep x A w rs ws)"

lemma rw_ready:
  assumes "rw_rep (R, W, r, s) A w rs ws" "task_ready s t"
  shows "t \<in> R \<Longrightarrow> t \<in> A" "t \<in> W \<Longrightarrow> w = Some t"
  using assms wait_ok_not_ready [of s _ _ t] by (auto simp: rw_rep_def)

lemma down_read_inv:
  assumes rep: "rw_rep (R, W, r, s) A w rs ws" and t: "task_ready s t" "t \<notin> R \<union> W" and n: "wq (wentries s n) = None"
    and b: "fits s (readers_wq r)"
  shows "\<exists>r' s' A' w' rs' ws'. rwsem_down_read t n WQ_INSERT_SLEEP_UNR (r, s) = Some (r', s') \<and>
    rw_rep (insert t R, W, r', s') A' w' rs' ws'"
proof (cases w)
  case None
  have "rw_rep (insert t R, W, r\<lparr>stat := stat r + 1\<rparr>, s) (insert t A) None [] ws"
    using rep t None by (auto simp: rw_rep_def)
  moreover have "rwsem_down_read t n WQ_INSERT_SLEEP_UNR (r, s) = Some (r\<lparr>stat := stat r + 1\<rparr>, s)"
    using rep None by (simp add: rw_rep_def rwsem_down_read_def rwsem_down_read_core_def rwsem_is_locked4write_def)
  ultimately show ?thesis by blast
next
  case (Some x)
  have ok: "wait_ok s (readers_wq r) rs" "wait_ok s (writers_wq r) ws" "readers_wq r \<noteq> writers_wq r"
    using rep by (auto simp: rw_rep_def)
  obtain s' ms where s': "waitqueue_insert_core (readers_wq r) n WQ_INSERT_SLEEP_UNR (waitqueue_prepare_task n t s) = Some (0, s')"
    "wait_ok s' (readers_wq r) ms" "wtasks s' ms = insert t (wtasks s rs)"
    "\<forall>p ps. p \<noteq> readers_wq r \<longrightarrow> wait_ok s p ps \<longrightarrow> wait_ok s' p ps \<and> wtasks s' ps = wtasks s ps"
    using push_spec [OF ok(1) n _ t(1)] b waitqueue_len [OF ok(1)] by (auto simp: fits_def)
  have "wait_ok s' (writers_wq r) ws" "wtasks s' ws = wtasks s ws" using s'(4) ok by metis+
  then have "rw_rep (insert t R, W, r, s') A w ms ws"
    using rep t(2) s'(2,3) Some by (auto simp: rw_rep_def)
  moreover have "rwsem_down_read t n WQ_INSERT_SLEEP_UNR (r, s) = Some (r, s')"
    using rep Some s'(1) by (simp add: rw_rep_def rwsem_down_read_def rwsem_down_read_core_def rwsem_is_locked4write_def)
  ultimately show ?thesis by blast
qed

lemma down_write_inv:
  assumes rep: "rw_rep (R, W, r, s) A w rs ws" and t: "task_ready s t" "t \<notin> R \<union> W" and n: "wq (wentries s n) = None"
    and b: "fits s (writers_wq r)"
  shows "\<exists>r' s' A' w' rs' ws'. rwsem_down_write t n WQ_INSERT_SLEEP_UNR (r, s) = Some (r', s') \<and>
    rw_rep (R, insert t W, r', s') A' w' rs' ws'"
proof (cases "stat r = 0")
  case True
  have "w = None \<and> A = {} \<and> ws = [] \<and> rs = []" using rep True by (auto simp: rw_rep_def split: option.splits)
  then have "rw_rep (R, insert t W, r\<lparr>stat := stat r - 1\<rparr>, s) A (Some t) rs ws"
    using rep t True by (auto simp: rw_rep_def)
  moreover have "rwsem_down_write t n WQ_INSERT_SLEEP_UNR (r, s) = Some (r\<lparr>stat := stat r - 1\<rparr>, s)"
    using True by (simp add: rwsem_down_write_def rwsem_down_write_core_def rwsem_is_locked_def)
  ultimately show ?thesis by blast
next
  case False
  have ok: "wait_ok s (readers_wq r) rs" "wait_ok s (writers_wq r) ws" "readers_wq r \<noteq> writers_wq r"
    using rep by (auto simp: rw_rep_def)
  let ?r = "if stat r < 0 then r\<lparr>stat := stat r - 1\<rparr> else r"
  obtain s' ms where s': "waitqueue_insert_core (writers_wq r) n WQ_INSERT_SLEEP_UNR (waitqueue_prepare_task n t s) = Some (0, s')"
    "wait_ok s' (writers_wq r) ms" "wtasks s' ms = insert t (wtasks s ws)" "length ms = Suc (length ws)"
    "\<forall>p ps. p \<noteq> writers_wq r \<longrightarrow> wait_ok s p ps \<longrightarrow> wait_ok s' p ps \<and> wtasks s' ps = wtasks s ps"
    using push_spec [OF ok(2) n _ t(1)] b waitqueue_len [OF ok(2)] by (auto simp: fits_def)
  have k: "wait_ok s' (readers_wq r) rs" "wtasks s' rs = wtasks s rs" using s'(5) ok by metis+
  have "rw_rep (R, insert t W, ?r, s') A w rs ms"
    using rep t(2) s'(2,3,4) k False by (cases w) (auto simp: rw_rep_def)
  moreover have "rwsem_down_write t n WQ_INSERT_SLEEP_UNR (r, s) = Some (?r, s')"
    using False s'(1) by (simp add: rwsem_down_write_def rwsem_down_write_core_def rwsem_is_locked_def)
  ultimately show ?thesis by blast
qed

text \<open>Waking the first waiting writer makes it the writer inside.\<close>

lemma pop_writer:
  assumes rep: "rw_rep (R, W, r, s) A w rs ws" and ws: "ws = n # ms" and t: "T \<inter> W = {}" "T \<subseteq> R"
    and st: "stat r' = - int (length ws)" "readers_wq r' = readers_wq r" "writers_wq r' = writers_wq r"
    and R': "R - T = wtasks s rs"
  shows "\<exists>s'. waitqueue_pop (writers_wq r) s = Some (0, Some (wtask (wentries s n)), s') \<and>
    rw_rep (R - T, W - set_option w, r', s') {} (Some (wtask (wentries s n))) rs ms"
proof -
  let ?t = "wtask (wentries s n)"
  have ok: "wait_ok s (readers_wq r) rs" "wait_ok s (writers_wq r) (n # ms)" "readers_wq r \<noteq> writers_wq r"
    and sets: "W = set_option w \<union> wtasks s (n # ms)" "R \<inter> W = {}" "set_option w \<inter> wtasks s (n # ms) = {}"
    using rep by (auto simp: rw_rep_def ws)
  obtain s' where s': "waitqueue_pop (writers_wq r) s = Some (0, Some ?t, s')" "wait_ok s' (writers_wq r) ms"
    "\<forall>m. wtask (wentries s' m) = wtask (wentries s m)"
    "\<forall>p ps. p \<noteq> writers_wq r \<longrightarrow> wait_ok s p ps \<longrightarrow> ?t \<notin> wtasks s ps \<longrightarrow> wait_ok s' p ps"
    using wl.pop_cons [OF ok(2)] by blast
  have e: "wtasks s' ps = wtasks s ps" for ps using s'(3) by simp
  have "wait_ok s' (readers_wq r) rs"
    using s'(4) ok(1,3) sets(1,2) R' by auto
  moreover have "?t \<notin> wtasks s ms" using ok(2) by (auto simp: wait_ok_def)
  moreover have "W - set_option w = insert ?t (wtasks s ms)" using sets(1,3) by auto
  moreover have "(R - T) \<inter> (W - set_option w) = {}" using sets(2) by blast
  ultimately have "rw_rep (R - T, W - set_option w, r', s') {} (Some ?t) rs ms"
    using s'(2) st ok(3) R' by (simp add: rw_rep_def e ws)
  then show ?thesis using s'(1) by blast
qed

lemma up_read_inv:
  assumes rep: "rw_rep (R, W, r, s) A w rs ws" and t: "task_ready s t" "t \<in> R"
  shows "\<exists>r' s' A' w' rs' ws'. rwsem_up_read (r, s) = Some (r', s') \<and> rw_rep (R - {t}, W, r', s') A' w' rs' ws'"
proof -
  have tA: "t \<in> A" by (rule rw_ready(1) [OF rep t])
  then have w: "w = None" "rs = []" "stat r = int (card A)" "finite A" "R = A"
    using rep by (auto simp: rw_rep_def split: option.splits)
  have ok: "wait_ok s (writers_wq r) ws" using rep by (simp add: rw_rep_def)
  have pos: "0 < card A" using tA w(4) card_gt_0_iff by blast
  show ?thesis
  proof (cases "card A = 1 \<and> ws \<noteq> []")
    case False
    have "rw_rep (R - {t}, W, r\<lparr>stat := stat r - 1\<rparr>, s) (A - {t}) None [] ws"
      using rep w tA False pos by (auto simp: rw_rep_def card_Diff_singleton_if of_nat_diff card_1_singleton_iff)
    moreover have "rwsem_up_read (r, s) = Some (r\<lparr>stat := stat r - 1\<rparr>, s)"
      using w(3) False pos waitqueue_is_empty_iff [of s "writers_wq r" ws] ok
      by (auto simp: rwsem_up_read_def wait_ok_def)
    ultimately show ?thesis by blast
  next
    case True
    then obtain n ms where ws: "ws = n # ms" by (cases ws) auto
    have A: "A = {t}" using True tA by (metis card_1_singletonE singletonD)
    let ?r = "r\<lparr>stat := 0 - uint (num_waiters (wqueues s (writers_wq r)))\<rparr>"
    have len: "uint (num_waiters (wqueues s (writers_wq r))) = int (length ws)"
      using waitqueue_len [OF ok] by (metis uint_nat)
    obtain s' where s': "waitqueue_pop (writers_wq r) s = Some (0, Some (wtask (wentries s n)), s')"
      "rw_rep (R - {t}, W - set_option w, ?r, s') {} (Some (wtask (wentries s n))) rs ms"
      using pop_writer [OF rep ws, of "{t}" ?r] rep t(2) A w len by (auto simp: rw_rep_def)
    have "rwsem_up_read (r, s) = Some (?r, s')"
      using w(3) True waitqueue_is_empty_iff [of s "writers_wq r" ws] ok s'(1)
      by (auto simp: rwsem_up_read_def wait_ok_def Let_def)
    then show ?thesis using s'(2) w(1) by auto
  qed
qed

lemma up_write_inv:
  assumes rep: "rw_rep (R, W, r, s) A w rs ws" and t: "task_ready s t" "t \<in> W"
  shows "\<exists>r' s' A' w' rs' ws'. rwsem_up_write (r, s) = Some (r', s') \<and> rw_rep (R, W - {t}, r', s') A' w' rs' ws'"
proof -
  have w: "w = Some t" by (rule rw_ready(2) [OF rep t])
  have st: "stat r = - (1 + int (length ws))" "A = {}" and ok: "wait_ok s (readers_wq r) rs" "wait_ok s (writers_wq r) ws"
    and sets: "W = insert t (wtasks s ws)" "t \<notin> wtasks s ws" "R = wtasks s rs" "R \<inter> W = {}" "readers_wq r \<noteq> writers_wq r"
    using rep w by (auto simp: rw_rep_def)
  let ?r = "r\<lparr>stat := stat r + 1\<rparr>"
  show ?thesis
  proof (cases ws)
    case (Cons n ms)
    obtain s' where s': "waitqueue_pop (writers_wq r) s = Some (0, Some (wtask (wentries s n)), s')"
      "rw_rep (R - {}, W - set_option w, ?r, s') {} (Some (wtask (wentries s n))) rs ms"
      using pop_writer [OF rep Cons, of "{}" ?r] sets(3) st by auto
    have "rwsem_up_write (r, s) = Some (?r, s')" using st Cons s'(1) by (simp add: rwsem_up_write_def)
    then show ?thesis using s'(2) w by auto
  next
    case Nil
    have len: "unat (num_waiters (wqueues s (readers_wq r))) = length rs" by (rule waitqueue_len [OF ok(1)])
    let ?r = "r\<lparr>stat := int (length rs)\<rparr>"
    obtain s' where s': "pop_n (waitqueue_pop (readers_wq r)) (length rs) s = Some (map (\<lambda>n. wtask (wentries s n)) rs, s')"
      "wait_ok s' (readers_wq r) []" "\<forall>m. wtask (wentries s' m) = wtask (wentries s m)"
      "\<forall>p ms. p \<noteq> readers_wq r \<longrightarrow> wait_ok s p ms \<longrightarrow> wtasks s rs \<inter> wtasks s ms = {} \<longrightarrow> wait_ok s' p ms"
      using wl.pop_n_spec [OF ok(1) le_refl] by auto
    have d: "card (wtasks s rs) = length rs" using ok(1) by (metis distinct_card length_map list.set_map wait_ok_def)
    have "wait_ok s' (writers_wq r) []" using s'(4) sets ok Nil by auto
    then have "rw_rep (R, W - {t}, ?r, s') (wtasks s rs) None [] []"
      using s'(2) sets Nil d by (simp add: rw_rep_def)
    moreover have "rwsem_up_write (r, s) = Some (?r, s')"
    proof (cases rs)
      case Nil': Nil
      then have "s' = s" using s'(1) by simp
      then show ?thesis using st Nil Nil' waitqueue_is_empty_iff [of s "readers_wq r" rs] ok(1)
        by (simp add: rwsem_up_write_def wait_ok_def)
    next
      case (Cons a x)
      then have ne: "\<not> waitqueue_is_empty (readers_wq r) s"
        using waitqueue_is_empty_iff [of s "readers_wq r" rs] ok(1) by (simp add: wait_ok_def)
      then show ?thesis using st Nil s'(1) unfolding len [symmetric] by (simp add: rwsem_up_write_def Let_def)
    qed
    ultimately show ?thesis by blast
  qed
qed

lemma rwsem_step_inv:
  assumes "rwsem_step x y" "rw_inv x"
  shows "rw_inv y"
  using assms
proof (induction rule: rwsem_step.induct)
  case (enter_read s t R W n r r' s')
  then obtain A w rs ws where "rw_rep (R, W, r, s) A w rs ws" by (auto simp: rw_inv_def)
  from down_read_inv [OF this enter_read(1,2,3,4)] show ?case using enter_read(5) by (auto simp: rw_inv_def)
next
  case (enter_write s t R W n r r' s')
  then obtain A w rs ws where "rw_rep (R, W, r, s) A w rs ws" by (auto simp: rw_inv_def)
  from down_write_inv [OF this enter_write(1,2,3,4)] show ?case using enter_write(5) by (auto simp: rw_inv_def)
next
  case (leave_read s t R r r' s' W)
  then obtain A w rs ws where "rw_rep (R, W, r, s) A w rs ws" by (auto simp: rw_inv_def)
  from up_read_inv [OF this leave_read(1,2)] show ?case using leave_read(3) by (auto simp: rw_inv_def)
next
  case (leave_write s t W r r' s' R)
  then obtain A w rs ws where "rw_rep (R, W, r, s) A w rs ws" by (auto simp: rw_inv_def)
  from up_write_inv [OF this leave_write(1,2)] show ?case using leave_write(3) by (auto simp: rw_inv_def)
qed

inductive rwsem_reach :: "nat set \<times> nat set \<times> rwsem \<times> wstate \<Rightarrow> nat set \<times> nat set \<times> rwsem \<times> wstate \<Rightarrow> bool" for x where
  start: "rwsem_reach x x"
| step: "rwsem_reach x y \<Longrightarrow> rwsem_step y z \<Longrightarrow> rwsem_reach x z"

lemma rwsem_reach_inv: "rwsem_reach x y \<Longrightarrow> rw_inv x \<Longrightarrow> rw_inv y"
  by (induction rule: rwsem_reach.induct) (auto intro: rwsem_step_inv)

definition rwsem_free :: "rwsem \<Rightarrow> wstate \<Rightarrow> bool" where
  "rwsem_free r s \<longleftrightarrow> stat r = 0 \<and> readers_wq r \<noteq> writers_wq r \<and> wait_ok s (readers_wq r) [] \<and> wait_ok s (writers_wq r) []"

lemma rwsem_free_inv: "rwsem_free r s \<Longrightarrow> rw_inv ({}, {}, r, s)"
  unfolding rw_inv_def by (intro exI [of _ "{}"] exI [of _ None] exI [of _ "[]"]) (auto simp: rwsem_free_def rw_rep_def)

section \<open>Properties\<close>


definition wit_rwsem :: rwsem where "wit_rwsem = \<lparr>stat = 0, writers_wq = 1, readers_wq = 2\<rparr>"


text \<open>
  C33. A writer that a signal interrupts corrupts the count: when the semaphore is held for writing
  and nobody waits, an interruptible attempt to enter for writing by a task with a pending signal
  leaves the counter as if nobody waited while its entry waits in the queue; after the writer
  leaves, the semaphore is free with a waiter that nobody will wake.
\<close>

theorem rwsem_intr_strands_entry:
  assumes "stat r = - 1" "waiters s (writers_wq r) []" "waiters s (readers_wq r) []" "readers_wq r \<noteq> writers_wq r"
    "wq (wentries s n) = None" "runs (tstate (tasks (wsched s) t))" "interrupted (tasks (wsched s) t)"
  shows "\<exists>s'. rwsem_down_write t n WQ_INSERT_SLEEP_INR (r, s) = Some (r, s') \<and> waiters s' (writers_wq r) [n] \<and>
    rwsem_up_write (r, s') = Some (r\<lparr>stat := 0\<rparr>, s')"
proof -
  let ?s = "waitqueue_prepare_task n t s"
  have wqs: "wq (wentries ?s m) = wq (wentries s m)" for m using assms(5) by (cases "m = n") simp_all
  have w: "waiters ?s (writers_wq r) []" "waiters ?s (readers_wq r) []" using assms(2,3) wqs by (simp_all add: waiters_def)
  have i: "sched_change_task_state (wtask (wentries ?s n)) TASK_STATE_SLEEPING (wsched ?s) = Some (ERR EINTR, wsched ?s)"
    using sleep_interrupted [OF assms(6,7)] by simp
  obtain s1 where s1: "inserted ?s (writers_wq r) n [] s1" "wsched s1 = wsched ?s"
    "waitqueue_insert_core (writers_wq r) n WQ_INSERT_SLEEP_INR ?s = Some (ERR EINTR, s1\<lparr>wsched := wsched ?s\<rparr>)"
    using insert_core_spec [OF w(1), of n] i by fastforce
  have s1': "s1\<lparr>wsched := wsched ?s\<rparr> = s1" using s1(2) by simp
  have "waiters s1 (writers_wq r) [n]" using s1(1) by (simp add: inserted_def Let_def seq_insert_def)
  moreover have "waitqueue_is_empty (readers_wq r) s1"
    using s1(1) assms(3,4) waitqueue_is_empty_iff [of s "readers_wq r" "[]"]
    by (simp add: inserted_def Let_def waitqueue_is_empty_def)
  ultimately show ?thesis using s1(3) assms(1) unfolding s1'
    by (intro exI [of _ s1]) (simp add: rwsem_down_write_def rwsem_down_write_core_def rwsem_is_locked_def rwsem_up_write_def)
qed

theorem rwsem_intr_strands_entry_witness:
  "\<exists>s'. rwsem_down_write 7 5 WQ_INSERT_SLEEP_INR (wit_rwsem\<lparr>stat := - 1\<rparr>, wit_ws True) =
       Some (wit_rwsem\<lparr>stat := - 1\<rparr>, s') \<and> waiters s' 1 [5] \<and>
     rwsem_up_write (wit_rwsem\<lparr>stat := - 1\<rparr>, s') = Some (wit_rwsem, s')"
proof -
  have "waiters (wit_ws True) q []" for q using wit_ws_ok(1) by (simp add: wait_ok_def)
  moreover have "wq (wentries (wit_ws True) 5) = None" "interrupted (tasks (wsched (wit_ws True)) 7)"
    by (simp_all add: wit_ws_def)
  ultimately show ?thesis
    using rwsem_intr_strands_entry [of "wit_rwsem\<lparr>stat := - 1\<rparr>" "wit_ws True" 5 7] wit_ws_ok(3) [of True]
    by (simp add: wit_rwsem_def)
qed

end
