(* ===== verification/Security.thy ===== *)
theory Security
  imports Prelude
begin

text \<open>
  Mandatory access control (\<^verbatim>\<open>kernel/security/core.c\<close>, \<^verbatim>\<open>kernel/security/toplevel.c\<close>,
  \<^verbatim>\<open>include/security/security.h\<close>) and task limits (\<^verbatim>\<open>kernel/generic/limits.c\<close>). Tasks are named by
  their pid, ports by their owner's pid and number. What \<^verbatim>\<open>copy_from_user\<close> reads is an argument,
  \<open>None\<close> for a fault; whether \<^verbatim>\<open>copy_to_user\<close> succeeds is an argument too.
\<close>

section \<open>Credentials\<close>

record s_creds =
  mac_label :: "32 word"
  uid :: "16 word"
  gid :: "16 word"

datatype s_system_caps = SYS_CAP_ADMIN | SYS_CAP_IO_PORT | SYS_CAP_CREATE_PROCESS | SYS_CAP_CREATE_THREAD
  | SYS_CAP_REINCARNATE | SYS_CAP_TASK_EVENTS | SYS_CAP_IPC_CHANNEL | SYS_CAP_IPC_PORT | SYS_CAP_IPC_CONTROL
  | SYS_CAP_IRQ | SYS_CAP_SCHEDULER | SYS_CAP_SYNC | SYS_CAP_TIMER | SYS_CAP_REMOTE_MAP | SYS_CAP_MEMOBJ
  | SYS_CAP_DMA | SYS_CAP_PTRACE

definition SYS_CAP_MAX :: nat where "SYS_CAP_MAX = 17"

datatype s_cred_type = S_CRED_WHOLE | S_CRED_MAC_LABEL | S_CRED_UID

definition S_MAC_LABEL_MIN :: "32 word" where "S_MAC_LABEL_MIN = 1"

definition S_MAC_LABEL_MAX :: "32 word" where "S_MAC_LABEL_MAX = 65535"

definition S_UID_MAX :: "16 word" where "S_UID_MAX = 65535"

definition S_INITIAL_MAC_LABEL :: "32 word" where "S_INITIAL_MAC_LABEL = S_MAC_LABEL_MIN"

definition S_MACS_WE :: "32 word \<Rightarrow> 32 word \<Rightarrow> bool" where
  "S_MACS_WE mac1 mac2 \<longleftrightarrow> mac1 \<ge> mac2"

definition S_MACS_SE :: "32 word \<Rightarrow> 32 word \<Rightarrow> bool" where
  "S_MACS_SE mac1 mac2 \<longleftrightarrow> mac1 \<le> mac2"

definition S_MAC_OK :: "32 word \<Rightarrow> 32 word \<Rightarrow> bool" where
  "S_MAC_OK actor_label object_label \<longleftrightarrow> S_MACS_SE actor_label object_label"

definition S_MAC_LABEL_VALID :: "32 word \<Rightarrow> bool" where
  "S_MAC_LABEL_VALID label \<longleftrightarrow> label \<ge> S_MAC_LABEL_MIN \<and> label \<le> S_MAC_LABEL_MAX"

definition S_UID_VALID :: "16 word \<Rightarrow> bool" where
  "S_UID_VALID u \<longleftrightarrow> u < S_UID_MAX"

section \<open>Locking two objects\<close>

text \<open>The lock operations of the macros, in order; objects are named by their addresses.\<close>

datatype s_lock = S_LOCK_OBJECT_R nat | S_LOCK_OBJECT_W nat

fun lock_addr :: "s_lock \<Rightarrow> nat" where
  "lock_addr (S_LOCK_OBJECT_R a) = a"
| "lock_addr (S_LOCK_OBJECT_W a) = a"

definition S_LOCK_OBJS_RR :: "nat \<Rightarrow> nat \<Rightarrow> s_lock list" where
  "S_LOCK_OBJS_RR actor obj =
     (if actor \<noteq> obj
      then if actor > obj then [S_LOCK_OBJECT_R actor, S_LOCK_OBJECT_R obj]
           else [S_LOCK_OBJECT_R obj, S_LOCK_OBJECT_R actor]
      else [S_LOCK_OBJECT_R actor])"

definition S_UNLOCK_OBJS_RR :: "nat \<Rightarrow> nat \<Rightarrow> s_lock list" where
  "S_UNLOCK_OBJS_RR actor obj =
     (if actor \<noteq> obj
      then if actor < obj then [S_LOCK_OBJECT_R actor, S_LOCK_OBJECT_R obj]
           else [S_LOCK_OBJECT_R obj, S_LOCK_OBJECT_R actor]
      else [S_LOCK_OBJECT_R actor])"

definition S_LOCK_OBJS_RW :: "nat \<Rightarrow> nat \<Rightarrow> s_lock list" where
  "S_LOCK_OBJS_RW actor obj =
     (if actor \<noteq> obj
      then if actor > obj then [S_LOCK_OBJECT_R actor, S_LOCK_OBJECT_W obj]
           else [S_LOCK_OBJECT_W obj, S_LOCK_OBJECT_R actor]
      else [S_LOCK_OBJECT_W actor])"

definition S_UNLOCK_OBJS_RW :: "nat \<Rightarrow> nat \<Rightarrow> s_lock list" where
  "S_UNLOCK_OBJS_RW actor obj =
     (if actor \<noteq> obj
      then if actor < obj then [S_LOCK_OBJECT_R actor, S_LOCK_OBJECT_W obj]
           else [S_LOCK_OBJECT_W obj, S_LOCK_OBJECT_R actor]
      else [S_LOCK_OBJECT_W actor])"

section \<open>The core\<close>

record sec =
  task_creds :: "nat \<Rightarrow> s_creds option"
  port_creds :: "nat \<times> nat \<Rightarrow> s_creds option"
  system_caps :: "nat \<Rightarrow> 32 word"

text \<open>Both checks return before they compare any label.\<close>

definition s_check_access :: "s_creds \<Rightarrow> s_creds \<Rightarrow> bool" where
  "s_check_access actor obj = True"

definition s_check_system_capability :: "s_system_caps \<Rightarrow> bool" where
  "s_check_system_capability cap = True"

definition initialize_security :: "sec \<Rightarrow> sec" where
  "initialize_security s = s\<lparr>system_caps := (\<lambda>i. if i < SYS_CAP_MAX then S_INITIAL_MAC_LABEL else system_caps s i)\<rparr>"

definition s_alloc_task_object :: "bool \<Rightarrow> 32 word \<Rightarrow> 16 word \<Rightarrow> 16 word \<Rightarrow> s_creds option" where
  "s_alloc_task_object mem label u g = (if mem then Some \<lparr>mac_label = label, uid = u, gid = g\<rparr> else None)"

definition s_clone_task_object :: "bool \<Rightarrow> s_creds option \<Rightarrow> s_creds option" where
  "s_clone_task_object mem orig =
     (case orig of None \<Rightarrow> None | Some c \<Rightarrow> s_alloc_task_object mem (mac_label c) (uid c) (gid c))"

definition s_copy_mac_label :: "s_creds \<Rightarrow> s_creds \<Rightarrow> s_creds" where
  "s_copy_mac_label src dst = dst\<lparr>mac_label := mac_label src, uid := uid src, gid := gid src\<rparr>"

fun s_set_obj_cred :: "s_creds \<Rightarrow> s_cred_type \<Rightarrow> s_creds \<Rightarrow> int \<times> s_creds" where
  "s_set_obj_cred target S_CRED_MAC_LABEL new =
     (if S_MAC_LABEL_VALID (mac_label new) then (0, target\<lparr>mac_label := mac_label new\<rparr>) else (ERR EINVAL, target))"
| "s_set_obj_cred target S_CRED_UID new =
     (if S_UID_VALID (uid new) then (0, target\<lparr>uid := uid new\<rparr>) else (ERR EINVAL, target))"
| "s_set_obj_cred target S_CRED_WHOLE new =
     (if S_MAC_LABEL_VALID (mac_label new) \<and> S_UID_VALID (uid new) then (0, new) else (ERR EINVAL, target))"

fun s_get_obj_cred :: "s_creds \<Rightarrow> s_cred_type \<Rightarrow> s_creds \<Rightarrow> int \<times> s_creds" where
  "s_get_obj_cred target S_CRED_MAC_LABEL out = (0, out\<lparr>mac_label := mac_label target\<rparr>)"
| "s_get_obj_cred target S_CRED_UID out = (0, out\<lparr>uid := uid target\<rparr>)"
| "s_get_obj_cred target S_CRED_WHOLE out = (0, target)"

definition s_get_sys_mac_label :: "nat \<Rightarrow> s_creds \<Rightarrow> sec \<Rightarrow> int \<times> s_creds" where
  "s_get_sys_mac_label cap out s =
     (if cap < SYS_CAP_MAX then (0, out\<lparr>mac_label := system_caps s cap\<rparr>) else (ERR EINVAL, out))"

definition s_set_sys_mac_label :: "nat \<Rightarrow> 32 word \<Rightarrow> sec \<Rightarrow> int \<times> sec" where
  "s_set_sys_mac_label cap l s =
     (if cap < SYS_CAP_MAX then (0, s\<lparr>system_caps := (system_caps s)(cap := l)\<rparr>) else (ERR EINVAL, s))"

section \<open>The system call\<close>

record mac_ctl_arg =
  creds :: s_creds
  port :: nat

datatype s_handler = set_task_label_handler | get_task_creds_handler | set_task_uid_handler | get_sys_cap_handler
  | set_sys_cap_handler | set_ipc_port_label | get_ipc_port_label

datatype s_flag = PID_AS_ARG | IN_DATA | OUT_DATA | ADMIN_OP | IPC_OBJ | ONLY_WEAKENING

record s_op_descr =
  handler :: s_handler
  flags :: "s_flag list"
  cmd :: nat

definition S_MAX_CTL_LAST_CMD :: nat where "S_MAX_CTL_LAST_CMD = 6"

definition s_op_descrs :: "s_op_descr list" where
  "s_op_descrs =
     [\<lparr>handler = set_task_label_handler, flags = [PID_AS_ARG, IN_DATA, ONLY_WEAKENING], cmd = 0\<rparr>,
      \<lparr>handler = get_task_creds_handler, flags = [PID_AS_ARG, OUT_DATA], cmd = 1\<rparr>,
      \<lparr>handler = set_task_uid_handler, flags = [PID_AS_ARG, IN_DATA, ADMIN_OP], cmd = 2\<rparr>,
      \<lparr>handler = get_sys_cap_handler, flags = [OUT_DATA], cmd = 3\<rparr>,
      \<lparr>handler = set_sys_cap_handler, flags = [IN_DATA, ADMIN_OP], cmd = 4\<rparr>,
      \<lparr>handler = set_ipc_port_label, flags = [IN_DATA, OUT_DATA, ONLY_WEAKENING, IPC_OBJ], cmd = 5\<rparr>,
      \<lparr>handler = get_ipc_port_label, flags = [OUT_DATA, IN_DATA, IPC_OBJ], cmd = 6\<rparr>]"

text \<open>The target of an operation: a task, a port, or neither.\<close>

datatype s_target = No_target | Task_target nat | Port_target "nat \<times> nat"

fun target_creds :: "sec \<Rightarrow> s_target \<Rightarrow> s_creds option" where
  "target_creds s No_target = None"
| "target_creds s (Task_target p) = task_creds s p"
| "target_creds s (Port_target p) = port_creds s p"

fun set_target_creds :: "s_target \<Rightarrow> s_creds \<Rightarrow> sec \<Rightarrow> sec" where
  "set_target_creds No_target c s = s"
| "set_target_creds (Task_target p) c s = s\<lparr>task_creds := (task_creds s)(p \<mapsto> c)\<rparr>"
| "set_target_creds (Port_target p) c s = s\<lparr>port_creds := (port_creds s)(p \<mapsto> c)\<rparr>"

text \<open>
  The task an operation names: the error and the task, if there is one. The caller's pid is \<open>cur\<close>.
  A weakening operation that names another task leaves the task variable of the source unset and
  then uses it, which is a fault.
\<close>

definition decode_task :: "nat \<Rightarrow> bool \<Rightarrow> nat \<Rightarrow> sec \<Rightarrow> (int \<times> nat option) option" where
  "decode_task arg weakening cur s =
     (if arg \<noteq> 0
      then if weakening \<and> arg \<noteq> cur then None
           else if task_creds s arg = None then Some (ERR ESRCH, None)
           else Some (0, Some arg)
      else Some (0, Some cur))"

definition decode_targets :: "nat \<Rightarrow> s_op_descr \<Rightarrow> mac_ctl_arg \<Rightarrow> nat \<Rightarrow> sec \<Rightarrow> (int \<times> s_target) option" where
  "decode_targets arg d inp cur s =
     (let weakening = ONLY_WEAKENING \<in> set (flags d) \<and> \<not> s_check_system_capability SYS_CAP_ADMIN
      in do { (r, target) \<leftarrow>
                (if PID_AS_ARG \<in> set (flags d)
                 then do { (r, t) \<leftarrow> decode_task arg weakening cur s;
                           Some (r, case t of None \<Rightarrow> No_target | Some p \<Rightarrow> Task_target p) }
                 else if IPC_OBJ \<in> set (flags d)
                 then do { (r, t) \<leftarrow> decode_task arg weakening cur s;
                           Some (case t of
                                   None \<Rightarrow> (r, No_target)
                                 | Some p \<Rightarrow> if port_creds s (p, port inp) = None then (ERR EINVAL, No_target)
                                             else (r, Port_target (p, port inp))) }
                 else Some (0, No_target));
              case target of
                No_target \<Rightarrow> Some (r, No_target)
              | _ \<Rightarrow> do { actor \<leftarrow> task_creds s cur;
                           obj \<leftarrow> target_creds s target;
                           let r = (if s_check_access actor obj
                                    then if weakening \<and> \<not> S_MACS_WE (mac_label (creds inp)) (mac_label obj)
                                         then ERR EPERM else r
                                    else ERR EPERM);
                           Some (r, if r \<noteq> 0 then No_target else target) } })"

definition set_handler :: "s_target \<Rightarrow> s_cred_type \<Rightarrow> s_creds \<Rightarrow> s_creds \<Rightarrow> sec \<Rightarrow> (int \<times> s_creds \<times> sec) option" where
  "set_handler target ct new out s =
     do { c \<leftarrow> target_creds s target;
          let (r, c) = s_set_obj_cred c ct new;
          Some (r, out, set_target_creds target c s) }"

definition get_handler :: "s_target \<Rightarrow> s_cred_type \<Rightarrow> s_creds \<Rightarrow> sec \<Rightarrow> (int \<times> s_creds \<times> sec) option" where
  "get_handler target ct out s =
     do { c \<leftarrow> target_creds s target;
          let (r, out) = s_get_obj_cred c ct out;
          Some (r, out, s) }"

fun run_handler :: "s_handler \<Rightarrow> s_target \<Rightarrow> nat \<Rightarrow> s_creds \<Rightarrow> s_creds \<Rightarrow> sec \<Rightarrow> (int \<times> s_creds \<times> sec) option" where
  "run_handler set_task_label_handler target arg new out s = set_handler target S_CRED_MAC_LABEL new out s"
| "run_handler get_task_creds_handler target arg new out s = get_handler target S_CRED_WHOLE out s"
| "run_handler set_task_uid_handler target arg new out s = set_handler target S_CRED_UID new out s"
| "run_handler set_sys_cap_handler target arg new out s =
     (case s_set_sys_mac_label arg (mac_label new) s of (r, s) \<Rightarrow> Some (r, out, s))"
| "run_handler get_sys_cap_handler target arg new out s =
     (case s_get_sys_mac_label arg out s of (r, out) \<Rightarrow> Some (r, out, s))"
| "run_handler set_ipc_port_label target arg new out s = set_handler target S_CRED_MAC_LABEL new out s"
| "run_handler get_ipc_port_label target arg new out s = get_handler target S_CRED_MAC_LABEL out s"

definition zero_creds :: s_creds where
  "zero_creds = \<lparr>mac_label = 0, uid = 0, gid = 0\<rparr>"

text \<open>
  The result is the return value, the credentials written to user memory, if any, and the state.
  \<open>junk\<close> is the content of the uninitialised parameter block.
\<close>

definition sys_security_control ::
  "nat \<Rightarrow> nat \<Rightarrow> mac_ctl_arg option \<Rightarrow> bool \<Rightarrow> mac_ctl_arg \<Rightarrow> nat \<Rightarrow> sec \<Rightarrow> (int \<times> s_creds option \<times> sec) option" where
  "sys_security_control c arg inp out_ok junk cur s =
     (if c > S_MAX_CTL_LAST_CMD then Some (ERR EINVAL, None, s)
      else let d = s_op_descrs ! c
           in if cmd d \<noteq> c then None
              else if ADMIN_OP \<in> set (flags d) \<and> \<not> s_check_system_capability SYS_CAP_ADMIN
              then Some (ERR EPERM, None, s)
              else if IN_DATA \<in> set (flags d) \<and> inp = None then Some (ERR EFAULT, None, s)
              else let indata = (if IN_DATA \<in> set (flags d) then the inp else junk)
                   in do { (r, target) \<leftarrow> decode_targets arg d indata cur s;
                           if r \<noteq> 0 then Some (r, None, s)
                           else do { let out = (if OUT_DATA \<in> set (flags d) then zero_creds else creds junk);
                                     (r, out, s) \<leftarrow> run_handler (handler d) target arg (creds indata) out s;
                                     Some (if r = 0 \<and> OUT_DATA \<in> set (flags d)
                                           then if out_ok then (0, Some out, s) else (ERR EFAULT, None, s)
                                           else (r, None, s)) } })"

definition set_task_creds :: "nat \<Rightarrow> nat \<Rightarrow> (16 word \<times> 16 word) option \<Rightarrow> sec \<Rightarrow> (int \<times> sec) option" where
  "set_task_creds target cur uidgid s =
     do { t \<leftarrow> task_creds s target;
          a \<leftarrow> task_creds s cur;
          if \<not> s_check_system_capability SYS_CAP_ADMIN \<or> \<not> s_check_access a t then Some (ERR EPERM, s)
          else case uidgid of
                 None \<Rightarrow> Some (ERR EFAULT, s)
               | Some (u, g) \<Rightarrow> Some (0, s\<lparr>task_creds := (task_creds s)(target \<mapsto> t\<lparr>uid := u, gid := g\<rparr>)\<rparr>) }"

definition get_task_creds :: "nat \<Rightarrow> nat \<Rightarrow> bool \<Rightarrow> sec \<Rightarrow> (int \<times> (16 word \<times> 16 word) option) option" where
  "get_task_creds target cur out_ok s =
     do { t \<leftarrow> task_creds s target;
          a \<leftarrow> task_creds s cur;
          if \<not> s_check_access a t then Some (ERR EPERM, None)
          else if out_ok then Some (0, Some (uid t, gid t)) else Some (ERR EFAULT, None) }"

section \<open>Valid labels\<close>

definition sec_ok :: "sec \<Rightarrow> bool" where
  "sec_ok s \<longleftrightarrow> (\<forall>p c. task_creds s p = Some c \<longrightarrow> S_MAC_LABEL_VALID (mac_label c)) \<and>
     (\<forall>p c. port_creds s p = Some c \<longrightarrow> S_MAC_LABEL_VALID (mac_label c))"

lemma decode_targets_ok:
  assumes "task_creds s cur \<noteq> None"
  shows "\<exists>r target. decode_targets arg d inp cur s = Some (r, target) \<and>
    (r = 0 \<longrightarrow> (PID_AS_ARG \<in> set (flags d) \<or> IPC_OBJ \<in> set (flags d)) \<longrightarrow> target_creds s target \<noteq> None)"
proof -
  have d: "\<exists>r t. decode_task arg False cur s = Some (r, t) \<and> (t = None \<longrightarrow> r \<noteq> 0) \<and>
      (\<forall>p. t = Some p \<longrightarrow> task_creds s p \<noteq> None)"
    using assms by (auto simp: decode_task_def)
  then show ?thesis using assms
    by (auto simp: decode_targets_def s_check_system_capability_def s_check_access_def Let_def split: option.splits)
qed

lemma set_target_creds_ok:
  assumes "sec_ok s" "target_creds s t \<noteq> None" "S_MAC_LABEL_VALID (mac_label c)"
  shows "sec_ok (set_target_creds t c s)" "dom (task_creds (set_target_creds t c s)) = dom (task_creds s)"
  using assms by (cases t; auto simp: sec_ok_def)+

lemma s_set_obj_cred_valid:
  assumes "s_set_obj_cred c ct new = (r, c')" "S_MAC_LABEL_VALID (mac_label c)"
  shows "S_MAC_LABEL_VALID (mac_label c')"
  using assms by (cases ct) (auto split: if_splits)

lemma target_valid: "sec_ok s \<Longrightarrow> target_creds s t = Some c \<Longrightarrow> S_MAC_LABEL_VALID (mac_label c)"
  by (cases t) (auto simp: sec_ok_def)

lemma set_handler_ok:
  assumes "sec_ok s" "target_creds s t \<noteq> None"
  shows "\<exists>r out' s'. set_handler t ct new out s = Some (r, out', s') \<and> sec_ok s' \<and> dom (task_creds s') = dom (task_creds s)"
proof -
  obtain c where c: "target_creds s t = Some c" using assms(2) by blast
  obtain r c' where c': "s_set_obj_cred c ct new = (r, c')" by fastforce
  have "S_MAC_LABEL_VALID (mac_label c')" using s_set_obj_cred_valid [OF c' target_valid [OF assms(1) c]] .
  then show ?thesis using c c' set_target_creds_ok [OF assms] by (simp add: set_handler_def)
qed

lemma get_handler_ok:
  assumes "sec_ok s" "target_creds s t \<noteq> None"
  shows "\<exists>r out'. get_handler t ct out s = Some (r, out', s)"
  using assms(2) by (auto simp: get_handler_def split: prod.splits)

lemma run_handler_ok:
  assumes "sec_ok s" "target_creds s t \<noteq> None \<or> h = set_sys_cap_handler \<or> h = get_sys_cap_handler"
  shows "\<exists>r out' s'. run_handler h t arg new out s = Some (r, out', s') \<and> sec_ok s' \<and> dom (task_creds s') = dom (task_creds s)"
proof -
  have sys: "sec_ok (snd (s_set_sys_mac_label arg l s))" "task_creds (snd (s_set_sys_mac_label arg l s)) = task_creds s" for l
    using assms(1) by (auto simp: s_set_sys_mac_label_def sec_ok_def)
  show ?thesis
  proof (cases "target_creds s t = None")
    case True
    then show ?thesis using assms sys [of "mac_label new"] by (auto split: prod.splits)
  next
    case False
    then show ?thesis
      using set_handler_ok [OF assms(1) False] get_handler_ok [OF assms(1) False] sys [of "mac_label new"] assms(1)
      by (cases h) (auto split: prod.splits, metis+)
  qed
qed

lemma s_op_descrs_cmd: "c \<le> S_MAX_CTL_LAST_CMD \<Longrightarrow> cmd (s_op_descrs ! c) = c"
  by (simp add: S_MAX_CTL_LAST_CMD_def s_op_descrs_def nth_Cons' le_Suc_eq numeral_eq_Suc) arith

lemma s_op_descrs_target:
  "c \<le> S_MAX_CTL_LAST_CMD \<Longrightarrow> PID_AS_ARG \<in> set (flags (s_op_descrs ! c)) \<or> IPC_OBJ \<in> set (flags (s_op_descrs ! c)) \<or>
     handler (s_op_descrs ! c) = set_sys_cap_handler \<or> handler (s_op_descrs ! c) = get_sys_cap_handler"
  by (auto simp: S_MAX_CTL_LAST_CMD_def s_op_descrs_def nth_Cons' le_Suc_eq numeral_eq_Suc)

section \<open>Properties\<close>


definition wit_sec :: sec where
  "wit_sec = \<lparr>task_creds = [1 \<mapsto> \<lparr>mac_label = 1, uid = 0, gid = 0\<rparr>, 5 \<mapsto> \<lparr>mac_label = 900, uid = 12, gid = 3\<rparr>],
     port_creds = Map.empty, system_caps = (\<lambda>_. 1)\<rparr>"

lemma wit_sec_ok: "sec_ok wit_sec" "task_creds wit_sec 5 \<noteq> None"
  by (simp_all add: sec_ok_def wit_sec_def S_MAC_LABEL_VALID_def S_MAC_LABEL_MIN_def S_MAC_LABEL_MAX_def)


text \<open>
  C40. Nothing is enforced: whatever the labels of the caller and of the target are, in particular
  when the caller's label does not dominate the target's, setting the label of any existing task to
  any valid label succeeds, changes exactly that label, and reading the credentials back returns
  the new label with the user and group the task had.
\<close>

theorem security_set_label_unrestricted:
  assumes "task_creds s cur = Some a" "p \<noteq> 0" "task_creds s p = Some t" "S_MAC_LABEL_VALID (mac_label (creds arg))"
  shows "\<exists>s'. sys_security_control 0 p (Some arg) b junk cur s = Some (0, None, s') \<and>
    task_creds s' = (task_creds s)(p \<mapsto> t\<lparr>mac_label := mac_label (creds arg)\<rparr>) \<and>
    sys_security_control 1 p inp True junk cur s' = Some (0, Some (t\<lparr>mac_label := mac_label (creds arg)\<rparr>), s')"
  using assms
  by (auto simp: sys_security_control_def S_MAX_CTL_LAST_CMD_def s_op_descrs_def s_check_system_capability_def Let_def
      decode_targets_def decode_task_def s_check_access_def set_handler_def get_handler_def)

theorem security_set_label_unrestricted_witness:
  "\<not> S_MAC_OK 900 1 \<and> (\<exists>s'. sys_security_control 0 1 (Some \<lparr>creds = \<lparr>mac_label = 65535, uid = 0, gid = 0\<rparr>, port = 0\<rparr>) True
      \<lparr>creds = zero_creds, port = 0\<rparr> 5 wit_sec = Some (0, None, s') \<and>
    map_option mac_label (task_creds s' 1) = Some 65535)"
proof -
  have "task_creds wit_sec 5 = Some \<lparr>mac_label = 900, uid = 12, gid = 3\<rparr>"
    "task_creds wit_sec 1 = Some \<lparr>mac_label = 1, uid = 0, gid = 0\<rparr>" by (simp_all add: wit_sec_def)
  from security_set_label_unrestricted [OF this(1) _ this(2), of "\<lparr>creds = \<lparr>mac_label = 65535, uid = 0, gid = 0\<rparr>, port = 0\<rparr>"
      True "\<lparr>creds = zero_creds, port = 0\<rparr>" None]
  show ?thesis
    by (auto simp: S_MAC_OK_def S_MACS_SE_def S_MAC_LABEL_VALID_def S_MAC_LABEL_MIN_def S_MAC_LABEL_MAX_def
        word_le_nat_alt)
qed

text \<open>
  C30. The order of the locks excludes deadlocks: however two objects are locked, for reading or for
  reading and writing, the locks are taken in strictly descending order of addresses, each once,
  the target of a copy for writing, and they are released in the reverse order.
\<close>

theorem s_lock_order:
  "sorted_wrt (>) (map lock_addr (S_LOCK_OBJS_RR a b)) \<and> sorted_wrt (>) (map lock_addr (S_LOCK_OBJS_RW a b)) \<and>
   set (map lock_addr (S_LOCK_OBJS_RR a b)) = {a, b} \<and> set (map lock_addr (S_LOCK_OBJS_RW a b)) = {a, b} \<and>
   S_LOCK_OBJECT_W b \<in> set (S_LOCK_OBJS_RW a b) \<and>
   S_UNLOCK_OBJS_RR a b = rev (S_LOCK_OBJS_RR a b) \<and> S_UNLOCK_OBJS_RW a b = rev (S_LOCK_OBJS_RW a b)"
  by (auto simp: S_LOCK_OBJS_RR_def S_LOCK_OBJS_RW_def S_UNLOCK_OBJS_RR_def S_UNLOCK_OBJS_RW_def)

end
