(* ===== verification/Ioports.thy ===== *)
theory Ioports
  imports Security
begin

text \<open>
  Ownership of I/O ports (\<^verbatim>\<open>kernel/generic/resources/ioports.c\<close>) and the I/O permission bitmap of a
  task (\<^verbatim>\<open>kernel/arch/amd64/src/resources/ioports.c\<close>). The ranges in use form a binary search tree
  under \<^verbatim>\<open>ioports_root\<close>; every node is linked red and never recoloured, so \<^verbatim>\<open>rb_erase\<close> of
  \<^verbatim>\<open>kernel/ds/rbtree.c\<close> is its unbalanced part. Port numbers are natural numbers: a range that is
  stored lies below the number of ports. The system calls compute on 64-bit words.
\<close>

unbundle bit_operations_syntax

section \<open>The tree of ranges\<close>

record ioport_range =
  start_port :: nat
  end_port :: nat
  holder :: nat

datatype iotree = Tip | Fork iotree ioport_range iotree

primrec inorder :: "iotree \<Rightarrow> ioport_range list" where
  "inorder Tip = []"
| "inorder (Fork l r t) = inorder l @ r # inorder t"

text \<open>The answer and the holder, 0 when there is none.\<close>

fun check_ioports_range :: "iotree \<Rightarrow> nat \<Rightarrow> nat \<Rightarrow> bool \<times> nat" where
  "check_ioports_range Tip first_port last_port = (True, 0)"
| "check_ioports_range (Fork l r rt) first_port last_port =
     (if first_port \<ge> start_port r \<and> last_port \<le> end_port r then (False, holder r)
      else if last_port < start_port r then check_ioports_range l first_port last_port
      else if first_port > end_port r then check_ioports_range rt first_port last_port
      else (False, 0))"

fun take_min :: "iotree \<Rightarrow> ioport_range \<Rightarrow> iotree \<Rightarrow> ioport_range \<times> iotree" where
  "take_min Tip r t = (r, t)"
| "take_min (Fork l1 r1 t1) r t = (case take_min l1 r1 t1 of (m, l) \<Rightarrow> (m, Fork l r t))"

fun rb_erase :: "iotree \<Rightarrow> ioport_range \<Rightarrow> iotree \<Rightarrow> iotree" where
  "rb_erase Tip r t = t"
| "rb_erase l r Tip = l"
| "rb_erase l r (Fork t1 r1 t2) = (case take_min t1 r1 t2 of (m, t) \<Rightarrow> Fork l m t)"

text \<open>
  \<^verbatim>\<open>__free_ioports_range\<close>; \<open>mem\<close> says whether memory for a new range is available. When a range is
  split, \<^verbatim>\<open>rb_link_node\<close> clears the children of the new node it links as the left child.
\<close>

fun free_ioports_range :: "bool \<Rightarrow> iotree \<Rightarrow> nat \<Rightarrow> nat \<Rightarrow> int \<times> iotree" where
  "free_ioports_range mem Tip start stop = (0, Tip)"
| "free_ioports_range mem (Fork l r t) start stop =
     (if start \<ge> start_port r \<and> stop \<le> end_port r
      then if start = start_port r
           then if stop = end_port r then (0, rb_erase l r t)
                else (0, Fork l (r\<lparr>start_port := stop + 1\<rparr>) t)
           else if stop = end_port r then (0, Fork l (r\<lparr>end_port := start - 1\<rparr>) t)
           else if mem
           then (0, Fork (Fork Tip \<lparr>start_port = start_port r, end_port = start - 1, holder = holder r\<rparr> Tip)
                         (r\<lparr>start_port := stop + 1\<rparr>) t)
           else (ERR ENOMEM, Fork l r t)
      else if stop < start_port r
      then (case free_ioports_range mem l start stop of (e, l) \<Rightarrow> (e, Fork l r t))
      else if start > end_port r
      then (case free_ioports_range mem t start stop of (e, t) \<Rightarrow> (e, Fork l r t))
      else (ERR EINVAL, Fork l r t))"

text \<open>
  The end of \<^verbatim>\<open>__add_ioports_range\<close>: the new range joins the last visited node when it is adjacent
  to it, else it is linked below it. The result is the error, the holder, the changed last node
  and the subtree to link, if any.
\<close>

definition merge_range :: "ioport_range \<Rightarrow> nat \<Rightarrow> nat \<Rightarrow> ioport_range option" where
  "merge_range r start stop =
     (if stop + 1 = start_port r then Some (r\<lparr>start_port := start\<rparr>)
      else if start > 0 \<and> start - 1 = end_port r then Some (r\<lparr>end_port := stop\<rparr>)
      else None)"

fun add_ioports_range :: "bool \<Rightarrow> nat \<Rightarrow> iotree \<Rightarrow> nat \<Rightarrow> nat \<Rightarrow> int \<times> nat \<times> iotree" where
  "add_ioports_range mem cur Tip start stop =
     (if mem then (0, cur, Fork Tip \<lparr>start_port = start, end_port = stop, holder = cur\<rparr> Tip)
      else (ERR ENOMEM, 0, Tip))"
| "add_ioports_range mem cur (Fork l r t) start stop =
     (if start \<ge> start_port r \<and> stop \<le> end_port r then (ERR EBUSY, holder r, Fork l r t)
      else if stop < start_port r
      then case (if l = Tip then merge_range r start stop else None) of
             Some r' \<Rightarrow> (0, holder r, Fork l r' t)
           | None \<Rightarrow> (case add_ioports_range mem cur l start stop of (e, h, l) \<Rightarrow> (e, h, Fork l r t))
      else if start > end_port r
      then case (if t = Tip then merge_range r start stop else None) of
             Some r' \<Rightarrow> (0, holder r, Fork l r' t)
           | None \<Rightarrow> (case add_ioports_range mem cur t start stop of (e, h, t) \<Rightarrow> (e, h, Fork l r t))
      else (ERR EBUSY, 0, Fork l r t))"

section \<open>The permission bitmap\<close>

definition TSS_BASIC_SIZE :: nat where "TSS_BASIC_SIZE = 104"

definition TSS_IOPORTS_PAGES :: nat where "TSS_IOPORTS_PAGES = 2"

definition TSS_IOPORTS_LIMIT :: nat where
  "TSS_IOPORTS_LIMIT = TSS_IOPORTS_PAGES * 4096 * 8 - 1 - TSS_BASIC_SIZE - 8"

text \<open>The bytes of the allocated pages that lie behind the fixed part of the task state segment.\<close>

definition iomap_bytes :: nat where
  "iomap_bytes = TSS_IOPORTS_PAGES * 4096 - TSS_BASIC_SIZE"

definition first_mask :: "nat \<Rightarrow> 8 word" where
  "first_mask start_bit = push_bit start_bit 1 - 1"

definition last_mask :: "nat \<Rightarrow> 8 word" where
  "last_mask end_bit = push_bit 1 (NOT (push_bit end_bit 1 - 1))"

definition upd_byte :: "nat \<Rightarrow> (8 word \<Rightarrow> 8 word) \<Rightarrow> 8 word list \<Rightarrow> 8 word list option" where
  "upd_byte i f bs = (if i < length bs then Some (bs[i := f (bs ! i)]) else None)"

fun fill_bytes :: "nat \<Rightarrow> nat \<Rightarrow> 8 word \<Rightarrow> 8 word list \<Rightarrow> 8 word list option" where
  "fill_bytes i 0 v bs = Some bs"
| "fill_bytes i (Suc k) v bs = do { bs \<leftarrow> upd_byte i (\<lambda>_. v) bs; fill_bytes (Suc i) k v bs }"

definition clear_ports :: "nat \<Rightarrow> nat \<Rightarrow> 8 word list \<Rightarrow> 8 word list option" where
  "clear_ports start stop bs =
     (let si = start div 8; sb = start mod 8; ei = stop div 8; eb = stop mod 8
      in if si = ei then upd_byte si (\<lambda>b. b AND (first_mask sb OR last_mask eb)) bs
         else do { bs \<leftarrow> upd_byte si (\<lambda>b. b AND first_mask sb) bs;
                   bs \<leftarrow> upd_byte ei (\<lambda>b. b AND last_mask eb) bs;
                   fill_bytes (si + 1) (ei - (si + 1)) 0 bs })"

definition set_ports :: "nat \<Rightarrow> nat \<Rightarrow> 8 word list \<Rightarrow> 8 word list option" where
  "set_ports start stop bs =
     (let si = start div 8; sb = start mod 8; ei = stop div 8; eb = stop mod 8
      in if si = ei then upd_byte si (\<lambda>b. b OR NOT (first_mask sb OR last_mask eb)) bs
         else do { bs \<leftarrow> upd_byte si (\<lambda>b. b OR NOT (first_mask sb)) bs;
                   bs \<leftarrow> upd_byte ei (\<lambda>b. b OR NOT (last_mask eb)) bs;
                   fill_bytes (si + 1) (ei - (si + 1)) 0xFF bs })"

text \<open>The tree and, for every task that has one, the bitmap of its own task state segment.\<close>

record iostate =
  ioports_root :: iotree
  iomap :: "nat \<Rightarrow> 8 word list option"

definition arch_allocate_ioports :: "bool \<Rightarrow> nat \<Rightarrow> nat \<Rightarrow> nat \<Rightarrow> iostate \<Rightarrow> (int \<times> iostate) option" where
  "arch_allocate_ioports mem task start stop s =
     (case (case iomap s task of
              Some bs \<Rightarrow> Some bs
            | None \<Rightarrow> if mem then Some (replicate iomap_bytes 0xFF) else None) of
        None \<Rightarrow> Some (ERR ENOMEM, s)
      | Some bs \<Rightarrow> do { bs \<leftarrow> clear_ports start stop bs;
                        Some (0, s\<lparr>iomap := (iomap s)(task \<mapsto> bs)\<rparr>) })"

definition arch_free_ioports :: "nat \<Rightarrow> nat \<Rightarrow> nat \<Rightarrow> iostate \<Rightarrow> (int \<times> iostate) option" where
  "arch_free_ioports task start stop s =
     (case iomap s task of
        None \<Rightarrow> Some (ERR EINVAL, s)
      | Some bs \<Rightarrow> do { bs \<leftarrow> set_ports start stop bs;
                        Some (0, s\<lparr>iomap := (iomap s)(task \<mapsto> bs)\<rparr>) })"

section \<open>System calls\<close>

definition check_ioports :: "64 word \<Rightarrow> 64 word \<Rightarrow> int" where
  "check_ioports first_port last_port =
     (if \<not> s_check_system_capability SYS_CAP_IO_PORT then ERR EPERM
      else if last_port < first_port \<or> first_port \<ge> of_nat TSS_IOPORTS_LIMIT \<or> last_port \<ge> of_nat TSS_IOPORTS_LIMIT
      then ERR EINVAL else 0)"

text \<open>\<open>mem\<close>, \<open>mem_tss\<close> and \<open>mem_split\<close>: memory for a range, for a task state segment, for a split.\<close>

definition sys_allocate_ioports ::
  "bool \<Rightarrow> bool \<Rightarrow> bool \<Rightarrow> nat \<Rightarrow> 64 word \<Rightarrow> 64 word \<Rightarrow> iostate \<Rightarrow> (int \<times> iostate) option" where
  "sys_allocate_ioports mem mem_tss mem_split cur first_port num_ports s =
     (let last_port = first_port + num_ports - 1; r = check_ioports first_port last_port
      in if r \<noteq> 0 then Some (r, s)
         else case add_ioports_range mem cur (ioports_root s) (unat first_port) (unat last_port) of
                (r, port_owner, t) \<Rightarrow>
                  if r \<noteq> 0
                  then Some (if r = ERR EBUSY \<and> port_owner = cur then 0 else r, s)
                  else do { (r, s) \<leftarrow> arch_allocate_ioports mem_tss cur (unat first_port) (unat last_port)
                                        (s\<lparr>ioports_root := t\<rparr>);
                            Some (r, if r \<noteq> 0
                                     then s\<lparr>ioports_root := snd (free_ioports_range mem_split (ioports_root s)
                                                                    (unat first_port) (unat last_port))\<rparr>
                                     else s) })"

definition sys_free_ioports :: "bool \<Rightarrow> nat \<Rightarrow> 64 word \<Rightarrow> 64 word \<Rightarrow> iostate \<Rightarrow> (int \<times> iostate) option" where
  "sys_free_ioports mem cur first_port num_ports s =
     (let last_port = first_port + num_ports - 1; r = check_ioports first_port last_port
      in if r \<noteq> 0 then Some (r, s)
         else let port_owner = snd (check_ioports_range (ioports_root s) (unat first_port) (unat last_port))
              in if port_owner \<noteq> cur then Some (if port_owner \<noteq> 0 then ERR EACCES else ERR EINVAL, s)
                 else arch_free_ioports cur (unat first_port) (unat last_port)
                        (s\<lparr>ioports_root := snd (free_ioports_range mem (ioports_root s) (unat first_port) (unat last_port))\<rparr>))"

section \<open>Ordered ranges\<close>

abbreviation before :: "ioport_range \<Rightarrow> ioport_range \<Rightarrow> bool" where
  "before a b \<equiv> end_port a < start_port b"

definition ranges_ok :: "ioport_range list \<Rightarrow> bool" where
  "ranges_ok rs \<longleftrightarrow> sorted_wrt before rs \<and> (\<forall>r \<in> set rs. start_port r \<le> end_port r)"

definition ports_of :: "ioport_range list \<Rightarrow> nat set" where
  "ports_of rs = (\<Union>r \<in> set rs. {start_port r .. end_port r})"

text \<open>Where a range that overlaps no range goes.\<close>

definition add_result :: "ioport_range list \<Rightarrow> nat \<Rightarrow> nat \<Rightarrow> nat \<Rightarrow> nat \<Rightarrow> ioport_range list \<Rightarrow> bool" where
  "add_result rs s e cur h rs' \<longleftrightarrow> (\<exists>xs ys. rs = xs @ ys \<and> (\<forall>x \<in> set xs. end_port x < s) \<and> (\<forall>y \<in> set ys. e < start_port y) \<and>
     (rs' = xs @ \<lparr>start_port = s, end_port = e, holder = cur\<rparr> # ys \<and> h = cur \<or>
      (\<exists>r zs. xs = zs @ [r] \<and> end_port r + 1 = s \<and> rs' = zs @ r\<lparr>end_port := e\<rparr> # ys \<and> h = holder r) \<or>
      (\<exists>r zs. ys = r # zs \<and> e + 1 = start_port r \<and> rs' = xs @ r\<lparr>start_port := s\<rparr> # zs \<and> h = holder r)))"

lemma ranges_ok_append:
  "ranges_ok (xs @ ys) \<longleftrightarrow> ranges_ok xs \<and> ranges_ok ys \<and> (\<forall>x \<in> set xs. \<forall>y \<in> set ys. before x y)"
  by (auto simp: ranges_ok_def sorted_wrt_append)

lemma ranges_ok_Cons:
  "ranges_ok (r # ys) \<longleftrightarrow> start_port r \<le> end_port r \<and> ranges_ok ys \<and> (\<forall>y \<in> set ys. before r y)"
  by (auto simp: ranges_ok_def)

lemma ports_of_append [simp]: "ports_of (xs @ ys) = ports_of xs \<union> ports_of ys"
  by (simp add: ports_of_def)

lemma ports_of_Cons [simp]: "ports_of (r # ys) = {start_port r .. end_port r} \<union> ports_of ys"
  by (simp add: ports_of_def)

lemma ports_of_Nil [simp]: "ports_of [] = {}"
  by (simp add: ports_of_def)

lemma add_result_extend:
  assumes "add_result rs s e cur h rs'"
    and "\<forall>x \<in> set ls. end_port x < s" "\<forall>y \<in> set ks. e < start_port y"
  shows "add_result (ls @ rs @ ks) s e cur h (ls @ rs' @ ks)"
proof -
  obtain xs ys where x: "rs = xs @ ys" "\<forall>x \<in> set xs. end_port x < s" "\<forall>y \<in> set ys. e < start_port y"
    "rs' = xs @ \<lparr>start_port = s, end_port = e, holder = cur\<rparr> # ys \<and> h = cur \<or>
      (\<exists>r zs. xs = zs @ [r] \<and> end_port r + 1 = s \<and> rs' = zs @ r\<lparr>end_port := e\<rparr> # ys \<and> h = holder r) \<or>
      (\<exists>r zs. ys = r # zs \<and> e + 1 = start_port r \<and> rs' = xs @ r\<lparr>start_port := s\<rparr> # zs \<and> h = holder r)"
    using assms(1) unfolding add_result_def by blast
  show ?thesis unfolding add_result_def
    by (intro exI [of _ "ls @ xs"] exI [of _ "ys @ ks"]) (use x assms(2,3) in auto)
qed

lemma add_result_ok:
  assumes "add_result rs s e cur h rs'" "ranges_ok rs" "s \<le> e"
  shows "ranges_ok rs' \<and> ports_of rs' = ports_of rs \<union> {s..e} \<and> ports_of rs \<inter> {s..e} = {}"
proof -
  obtain xs ys where x: "rs = xs @ ys" "\<forall>x \<in> set xs. end_port x < s" "\<forall>y \<in> set ys. e < start_port y"
    "rs' = xs @ \<lparr>start_port = s, end_port = e, holder = cur\<rparr> # ys \<or>
      (\<exists>r zs. xs = zs @ [r] \<and> end_port r + 1 = s \<and> rs' = zs @ r\<lparr>end_port := e\<rparr> # ys) \<or>
      (\<exists>r zs. ys = r # zs \<and> e + 1 = start_port r \<and> rs' = xs @ r\<lparr>start_port := s\<rparr> # zs)"
    using assms(1) unfolding add_result_def by blast
  have "ports_of rs \<inter> {s..e} = {}" using x(1,2,3) by (fastforce simp: ports_of_def)
  then show ?thesis using x(4)
  proof (elim disjE)
    assume "\<exists>r zs. xs = zs @ [r] \<and> end_port r + 1 = s \<and> rs' = zs @ r\<lparr>end_port := e\<rparr> # ys"
    then obtain r zs where r: "xs = zs @ [r]" "end_port r + 1 = s" "rs' = zs @ r\<lparr>end_port := e\<rparr> # ys" by blast
    have o: "start_port r \<le> end_port r" using assms(2) x(1) r(1) by (auto simp: ranges_ok_append ranges_ok_Cons)
    then have "{start_port r .. e} = {start_port r .. end_port r} \<union> {s..e}" using r(2) assms(3) by auto
    then show ?thesis using r x assms o \<open>ports_of rs \<inter> {s..e} = {}\<close>
      by (auto simp: ranges_ok_append ranges_ok_Cons)
  next
    assume "\<exists>r zs. ys = r # zs \<and> e + 1 = start_port r \<and> rs' = xs @ r\<lparr>start_port := s\<rparr> # zs"
    then obtain r zs where r: "ys = r # zs" "e + 1 = start_port r" "rs' = xs @ r\<lparr>start_port := s\<rparr> # zs" by blast
    have o: "start_port r \<le> end_port r" using assms(2) x(1) r(1) by (auto simp: ranges_ok_append ranges_ok_Cons)
    then have "{s .. end_port r} = {start_port r .. end_port r} \<union> {s..e}" using r(2) assms(3) by auto
    then show ?thesis using r x assms o \<open>ports_of rs \<inter> {s..e} = {}\<close>
      by (auto simp: ranges_ok_append ranges_ok_Cons)
  qed (use x assms(2,3) in \<open>auto simp: ranges_ok_append ranges_ok_Cons\<close>)
qed

lemma add_range_result:
  assumes "add_ioports_range mem cur t s e = (0, h, t')" "ranges_ok (inorder t)" "s \<le> e"
  shows "add_result (inorder t) s e cur h (inorder t')"
  using assms
proof (induction t arbitrary: h t')
  case Tip
  then show ?case by (auto simp: add_result_def split: if_splits)
next
  case (Fork l r t)
  have ok: "ranges_ok (inorder l)" "ranges_ok (inorder t)" "start_port r \<le> end_port r"
    "\<forall>x \<in> set (inorder l). before x r" "\<forall>y \<in> set (inorder t). before r y"
    using Fork.prems(2) by (auto simp: ranges_ok_append ranges_ok_Cons)
  have nz: "\<not> (start_port r \<le> s \<and> e \<le> end_port r)" using Fork.prems(1) by (auto split: if_splits)
  consider (left) "e < start_port r" | (right) "end_port r < s" "\<not> e < start_port r"
    using Fork.prems(1) nz by (auto split: if_splits)
  then show ?case
  proof cases
    case left
    have ks: "\<forall>y \<in> set (r # inorder t). e < start_port y" using left ok(3,5) by fastforce
    show ?thesis
    proof (cases "l = Tip \<and> merge_range r s e \<noteq> None")
      case True
      then have m: "e + 1 = start_port r" "merge_range r s e = Some (r\<lparr>start_port := s\<rparr>)"
        using left ok(3) Fork.prems(3) by (auto simp: merge_range_def split: if_splits)
      then have eq: "h = holder r" "t' = Fork Tip (r\<lparr>start_port := s\<rparr>) t" using Fork.prems(1) nz left True by auto
      show ?thesis unfolding add_result_def
        by (intro exI [of _ "[]"] exI [of _ "inorder (Fork l r t)"]) (use ks eq True m(1) in auto)
    next
      case False
      then have "(if l = Tip then merge_range r s e else None) = None" by auto
      then obtain l' where l': "add_ioports_range mem cur l s e = (0, h, l')" "t' = Fork l' r t"
        using Fork.prems(1) nz left by (auto split: prod.splits)
      show ?thesis using add_result_extend [OF Fork.IH(1) [OF l'(1) ok(1) Fork.prems(3)], of "[]" "r # inorder t"] ks l'(2)
        by simp
    qed
  next
    case right
    have ls: "\<forall>x \<in> set (inorder l @ [r]). end_port x < s" using right ok(3,4) by fastforce
    show ?thesis
    proof (cases "t = Tip \<and> merge_range r s e \<noteq> None")
      case True
      then have m: "end_port r + 1 = s" "merge_range r s e = Some (r\<lparr>end_port := e\<rparr>)"
        using right ok(3) Fork.prems(3) by (auto simp: merge_range_def split: if_splits)
      then have eq: "h = holder r" "t' = Fork l (r\<lparr>end_port := e\<rparr>) Tip" using Fork.prems(1) nz right True by auto
      show ?thesis unfolding add_result_def
        by (intro exI [of _ "inorder (Fork l r t)"] exI [of _ "[]"]) (use ls eq True m(1) in auto)
    next
      case False
      then have "(if t = Tip then merge_range r s e else None) = None" by auto
      then obtain u where u: "add_ioports_range mem cur t s e = (0, h, u)" "t' = Fork l r u"
        using Fork.prems(1) nz right by (auto split: prod.splits)
      show ?thesis using add_result_extend [OF Fork.IH(2) [OF u(1) ok(2) Fork.prems(3)], of "inorder l @ [r]" "[]"] ls u(2)
        by simp
    qed
  qed
qed

lemma add_range_error:
  assumes "add_ioports_range mem cur t s e = (x, h, t')" "x \<noteq> 0" "ranges_ok (inorder t)" "s \<le> e"
  shows "t' = t \<and> (x = ERR EBUSY \<and> ports_of (inorder t) \<inter> {s..e} \<noteq> {} \<or> x = ERR ENOMEM \<and> \<not> mem)"
  using assms
proof (induction t arbitrary: h t')
  case Tip
  then show ?case by (auto split: if_splits)
next
  case (Fork l r t)
  have ok: "ranges_ok (inorder l)" "ranges_ok (inorder t)" "start_port r \<le> end_port r"
    using Fork.prems(3) by (auto simp: ranges_ok_append ranges_ok_Cons)
  consider (busy) "\<not> e < start_port r" "\<not> end_port r < s" | (left) "e < start_port r" | (right) "end_port r < s" "\<not> e < start_port r"
    by blast
  then show ?case
  proof cases
    case busy
    then have "max s (start_port r) \<in> ports_of (inorder (Fork l r t)) \<inter> {s..e}" using ok(3) Fork.prems(4) by auto
    then have "ports_of (inorder (Fork l r t)) \<inter> {s..e} \<noteq> {}" by blast
    then show ?thesis using busy Fork.prems(1) by (auto split: if_splits)
  next
    case left
    then obtain l' where "add_ioports_range mem cur l s e = (x, h, l')" "t' = Fork l' r t"
      using Fork.prems(1,2,4) ok(3) by (auto split: prod.splits if_splits option.splits)
    then show ?thesis using Fork.IH(1) [OF _ Fork.prems(2) ok(1) Fork.prems(4)] by auto
  next
    case right
    then obtain u where "add_ioports_range mem cur t s e = (x, h, u)" "t' = Fork l r u"
      using Fork.prems(1,2,4) ok(3) by (auto split: prod.splits if_splits option.splits)
    then show ?thesis using Fork.IH(2) [OF _ Fork.prems(2) ok(2) Fork.prems(4)] by auto
  qed
qed

lemma take_min_inorder: "take_min l r t = (m, u) \<Longrightarrow> m # inorder u = inorder l @ r # inorder t"
  by (induction l r t arbitrary: m u rule: take_min.induct) (auto split: prod.splits)

lemma rb_erase_inorder: "inorder (rb_erase l r t) = inorder l @ inorder t"
  by (cases "(l, r, t)" rule: rb_erase.cases) (auto split: prod.splits dest: take_min_inorder)

text \<open>Freeing a part of a range that reaches one of its ends.\<close>

lemma free_range_edge:
  assumes "r0 \<in> set (inorder t)" "start_port r0 \<le> s" "s \<le> e" "e \<le> end_port r0" "s = start_port r0 \<or> e = end_port r0"
    and "ranges_ok (inorder t)"
  shows "\<exists>t'. free_ioports_range mem t s e = (0, t') \<and> ranges_ok (inorder t') \<and>
    ports_of (inorder t') = ports_of (inorder t) - {s..e} \<and>
    (\<forall>x \<in> set (inorder t'). \<exists>y \<in> set (inorder t). start_port y \<le> start_port x \<and> end_port x \<le> end_port y \<and> holder x = holder y)"
  using assms
proof (induction t)
  case Tip
  then show ?case by simp
next
  case (Fork l r t)
  have ok: "ranges_ok (inorder l)" "ranges_ok (inorder t)" "start_port r \<le> end_port r"
    and bl: "\<forall>x \<in> set (inorder l). before x r" and br: "\<forall>y \<in> set (inorder t). before r y"
    and lt: "\<forall>x \<in> set (inorder l). \<forall>y \<in> set (inorder t). before x y"
    using Fork.prems(6) by (auto simp: ranges_ok_append ranges_ok_Cons)
  have lok: "\<forall>x \<in> set (inorder l). start_port x \<le> end_port x" and tok: "\<forall>x \<in> set (inorder t). start_port x \<le> end_port x"
    using ok by (auto simp: ranges_ok_def)
  have pl: "ports_of (inorder l) \<inter> {start_port r ..} = {}" using bl by (fastforce simp: ports_of_def)
  have pt: "ports_of (inorder t) \<inter> {.. end_port r} = {}" using br by (fastforce simp: ports_of_def)
  consider (here) "r0 = r" | (left) "r0 \<in> set (inorder l)" | (right) "r0 \<in> set (inorder t)"
    using Fork.prems(1) by auto
  then show ?case
  proof cases
    case here
    have p: "ports_of (inorder l) \<inter> {s..e} = {}" "ports_of (inorder t) \<inter> {s..e} = {}"
      using pl pt here Fork.prems(2,4) by fastforce+
    show ?thesis
    proof (cases "s = start_port r \<and> e = end_port r")
      case True
      have "ports_of (inorder (rb_erase l r t)) = ports_of (inorder (Fork l r t)) - {s..e}"
        using True p by (auto simp: rb_erase_inorder)
      then show ?thesis using True ok lt by (auto simp: rb_erase_inorder ranges_ok_append)
    next
      case False
      let ?r = "if s = start_port r then r\<lparr>start_port := e + 1\<rparr> else r\<lparr>end_port := s - 1\<rparr>"
      have f: "free_ioports_range mem (Fork l r t) s e = (0, Fork l ?r t)"
        using False Fork.prems(2-5) here by auto
      have b: "start_port r \<le> start_port ?r" "end_port ?r \<le> end_port r" "start_port ?r \<le> end_port ?r" "holder ?r = holder r"
        using False Fork.prems(2-5) here by auto
      have "{start_port ?r .. end_port ?r} = {start_port r .. end_port r} - {s..e}"
        using False Fork.prems(2-5) here by auto
      then have pp: "ports_of (inorder (Fork l ?r t)) = ports_of (inorder (Fork l r t)) - {s..e}" using p by auto
      have "ranges_ok (inorder (Fork l ?r t))"
        using ok(1,2) b bl br lt by (simp add: ranges_ok_append ranges_ok_Cons del: if_split_asm split del: if_split) (meson le_less_trans less_le_trans)
      then show ?thesis using f pp b by (intro exI [of _ "Fork l ?r t"]) auto
    qed
  next
    case left
    then have "e < start_port r" "\<not> (s \<ge> start_port r \<and> e \<le> end_port r)" using bl Fork.prems(2-4) by fastforce+
    moreover obtain l' where l': "free_ioports_range mem l s e = (0, l')" "ranges_ok (inorder l')"
      "ports_of (inorder l') = ports_of (inorder l) - {s..e}"
      "\<forall>x \<in> set (inorder l'). \<exists>y \<in> set (inorder l). start_port y \<le> start_port x \<and> end_port x \<le> end_port y \<and> holder x = holder y"
      using Fork.IH(1) [OF left Fork.prems(2-5) ok(1)] by blast
    moreover have "ports_of (inorder t) \<inter> {s..e} = {}" using pt \<open>e < start_port r\<close> ok(3) by fastforce
    moreover have "\<forall>x \<in> set (inorder l'). before x r \<and> (\<forall>y \<in> set (inorder t). before x y)"
      using l'(4) bl lt by (meson le_less_trans)
    ultimately show ?thesis using ok br
      by (intro exI [of _ "Fork l' r t"]) (auto simp: ranges_ok_append ranges_ok_Cons)
  next
    case right
    then have "end_port r < s" "\<not> (s \<ge> start_port r \<and> e \<le> end_port r)" "\<not> e < start_port r"
      using br ok(3) Fork.prems(2-4) by fastforce+
    moreover obtain t' where t': "free_ioports_range mem t s e = (0, t')" "ranges_ok (inorder t')"
      "ports_of (inorder t') = ports_of (inorder t) - {s..e}"
      "\<forall>x \<in> set (inorder t'). \<exists>y \<in> set (inorder t). start_port y \<le> start_port x \<and> end_port x \<le> end_port y \<and> holder x = holder y"
      using Fork.IH(2) [OF right Fork.prems(2-5) ok(2)] by blast
    moreover have "ports_of (inorder l) \<inter> {s..e} = {}" using pl \<open>end_port r < s\<close> ok(3) by fastforce
    moreover have "\<forall>y \<in> set (inorder t'). before r y \<and> (\<forall>x \<in> set (inorder l). before x y)"
      using t'(4) br lt by (meson less_le_trans)
    ultimately show ?thesis using ok bl
      by (intro exI [of _ "Fork l r t'"]) (auto simp: ranges_ok_append ranges_ok_Cons)
  qed
qed

section \<open>Permission bits\<close>

definition port_denied :: "8 word list \<Rightarrow> nat \<Rightarrow> bool" where
  "port_denied bs p \<longleftrightarrow> bit (bs ! (p div 8)) (p mod 8)"

lemma bit_first_mask: "i < 8 \<Longrightarrow> b < 8 \<Longrightarrow> bit (first_mask b) i \<longleftrightarrow> i < b"
  unfolding first_mask_def push_bit_eq_mult mult_1 by (simp flip: mask_eq_exp_minus_1 add: bit_mask_iff)

lemma bit_last_mask:
  assumes "i < 8" "b < 8"
  shows "bit (last_mask b) i \<longleftrightarrow> b < i"
proof -
  have "(push_bit b 1 - 1 :: 8 word) = mask b" by (simp add: push_bit_eq_mult mask_eq_exp_minus_1)
  then have "bit (last_mask b) i \<longleftrightarrow> 1 \<le> i \<and> possible_bit TYPE(8 word) i \<and> \<not> (i - 1 < b)"
    using assms unfolding last_mask_def by (simp only: bit_push_bit_iff bit_not_iff bit_mask_iff possible_bit_word) auto
  then show ?thesis using assms by auto
qed

lemma upd_byte_denied:
  assumes "upd_byte i f bs = Some bs'" "p div 8 < length bs"
  shows "port_denied bs' p \<longleftrightarrow> (if p div 8 = i then bit (f (bs ! i)) (p mod 8) else port_denied bs p)"
    and "length bs' = length bs"
  using assms by (auto simp: upd_byte_def port_denied_def split: if_splits)

lemma fill_bytes_spec:
  "i + k \<le> length bs \<Longrightarrow> \<exists>bs'. fill_bytes i k v bs = Some bs' \<and> length bs' = length bs \<and>
     (\<forall>j < length bs. bs' ! j = (if i \<le> j \<and> j < i + k then v else bs ! j))"
proof (induction k arbitrary: i bs)
  case 0
  then show ?case by auto
next
  case (Suc k)
  have u: "upd_byte i (\<lambda>_. v) bs = Some (bs[i := v])" using Suc.prems by (simp add: upd_byte_def)
  obtain bs' where "fill_bytes (Suc i) k v (bs[i := v]) = Some bs'" "length bs' = length bs"
    "\<forall>j < length bs. bs' ! j = (if Suc i \<le> j \<and> j < Suc i + k then v else bs[i := v] ! j)"
    using Suc.IH [of "Suc i" "bs[i := v]"] Suc.prems by auto
  then show ?case using u by (intro exI [of _ bs']) (auto simp: nth_list_update)
qed

text \<open>
  What both bitmap updates do: the bits of the ports from \<open>start\<close> to \<open>stop\<close> become \<open>v\<close>, the others
  stay, as long as the last port lies in the bitmap.
\<close>

definition ports_become :: "bool \<Rightarrow> nat \<Rightarrow> nat \<Rightarrow> 8 word list \<Rightarrow> 8 word list \<Rightarrow> bool" where
  "ports_become v start stop bs bs' \<longleftrightarrow> length bs' = length bs \<and>
     (\<forall>p < 8 * length bs. port_denied bs' p \<longleftrightarrow> (if start \<le> p \<and> p \<le> stop then v else port_denied bs p))"

lemma port_byte: "p < 8 * n \<longleftrightarrow> p div 8 < (n :: nat)"
  by (simp add: less_mult_imp_div_less div_less_iff_less_mult mult.commute)

lemma port_split: "start \<le> (p :: nat) \<longleftrightarrow> start div 8 < p div 8 \<or> start div 8 = p div 8 \<and> start mod 8 \<le> p mod 8"
proof -
  have lex: "8 * a + b \<le> 8 * c + d \<longleftrightarrow> a < c \<or> a = c \<and> b \<le> d" if "b < 8" "d < 8" for a b c d :: nat
    using that by linarith
  have "start = 8 * (start div 8) + start mod 8" "p = 8 * (p div 8) + p mod 8" by simp_all
  then show ?thesis using lex [of "start mod 8" "p mod 8" "start div 8" "p div 8"] by simp
qed

lemma same_byte:
  assumes "start div 8 = stop div 8" "start \<le> stop" "stop div 8 < length bs"
    and f: "\<And>b i. i < 8 \<Longrightarrow> bit (f b) i \<longleftrightarrow> (if start mod 8 \<le> i \<and> i \<le> stop mod 8 then v else bit b i)"
  shows "\<exists>bs'. upd_byte (start div 8) f bs = Some bs' \<and> ports_become v start stop bs bs'"
proof -
  let ?bs = "bs[start div 8 := f (bs ! (start div 8))]"
  have u: "upd_byte (start div 8) f bs = Some ?bs" using assms(1,3) by (simp add: upd_byte_def)
  have "port_denied ?bs p \<longleftrightarrow> (if start \<le> p \<and> p \<le> stop then v else port_denied bs p)" if "p < 8 * length bs" for p
  proof -
    have "p div 8 < length bs" using that port_byte by blast
    then show ?thesis
      using upd_byte_denied(1) [OF u, of p] f [of "p mod 8"] port_split [of start p] port_split [of p stop] assms(1)
      by (auto simp: port_denied_def)
  qed
  then show ?thesis using u by (auto simp: ports_become_def)
qed

lemma other_bytes:
  assumes "start div 8 < stop div 8" "stop div 8 < length bs"
    and f: "\<And>b i. i < 8 \<Longrightarrow> bit (f b) i \<longleftrightarrow> (if start mod 8 \<le> i then v else bit b i)"
    and g: "\<And>b i. i < 8 \<Longrightarrow> bit (g b) i \<longleftrightarrow> (if i \<le> stop mod 8 then v else bit b i)"
    and w: "\<And>i. i < 8 \<Longrightarrow> bit w i \<longleftrightarrow> v"
  shows "\<exists>bs'. do { bs \<leftarrow> upd_byte (start div 8) f bs; bs \<leftarrow> upd_byte (stop div 8) g bs;
      fill_bytes (start div 8 + 1) (stop div 8 - (start div 8 + 1)) w bs } = Some bs' \<and> ports_become v start stop bs bs'"
proof -
  let ?b1 = "bs[start div 8 := f (bs ! (start div 8))]"
  let ?b2 = "?b1[stop div 8 := g (?b1 ! (stop div 8))]"
  obtain b3 where b3: "fill_bytes (start div 8 + 1) (stop div 8 - (start div 8 + 1)) w ?b2 = Some b3" "length b3 = length bs"
    "\<forall>j < length bs. b3 ! j = (if start div 8 + 1 \<le> j \<and> j < start div 8 + 1 + (stop div 8 - (start div 8 + 1)) then w else ?b2 ! j)"
    using fill_bytes_spec [of "start div 8 + 1" "stop div 8 - (start div 8 + 1)" ?b2 w] assms(1,2) by auto
  have "port_denied b3 p \<longleftrightarrow> (if start \<le> p \<and> p \<le> stop then v else port_denied bs p)" if "p < 8 * length bs" for p
  proof -
    have "p div 8 < length bs" using that port_byte by blast
    then have "b3 ! (p div 8) = (if start div 8 < p div 8 \<and> p div 8 < stop div 8 then w
        else if p div 8 = start div 8 then f (bs ! (p div 8)) else if p div 8 = stop div 8 then g (bs ! (p div 8)) else bs ! (p div 8))"
      using b3(3) assms(1,2) by (auto simp: nth_list_update)
    then show ?thesis
      using f [of "p mod 8"] g [of "p mod 8"] w [of "p mod 8"] port_split [of start p] port_split [of p stop] assms(1)
      by (auto simp: port_denied_def)
  qed
  then have "ports_become v start stop bs b3" using b3(2) by (simp add: ports_become_def)
  then show ?thesis using b3(1) assms(1,2) by (simp add: upd_byte_def)
qed

lemma clear_ports_spec:
  assumes "start \<le> stop" "stop div 8 < length bs"
  shows "\<exists>bs'. clear_ports start stop bs = Some bs' \<and> ports_become False start stop bs bs'"
proof (cases "start div 8 = stop div 8")
  case True
  have "bit (b AND (first_mask (start mod 8) OR last_mask (stop mod 8))) i \<longleftrightarrow>
      (if start mod 8 \<le> i \<and> i \<le> stop mod 8 then False else bit b i)" if "i < 8" for b i
    using that by (auto simp: bit_and_iff bit_or_iff bit_first_mask bit_last_mask)
  from same_byte [OF True assms this] show ?thesis using True by (simp add: clear_ports_def Let_def)
next
  case False
  then have lt: "start div 8 < stop div 8" using assms(1) by (simp add: div_le_mono le_neq_implies_less)
  have "bit (b AND first_mask (start mod 8)) i \<longleftrightarrow> (if start mod 8 \<le> i then False else bit b i)"
    "bit (b AND last_mask (stop mod 8)) i \<longleftrightarrow> (if i \<le> stop mod 8 then False else bit b i)" if "i < 8" for b i
    using that by (auto simp: bit_and_iff bit_first_mask bit_last_mask)
  from other_bytes [OF lt assms(2) this, of 0] show ?thesis using False by (simp add: clear_ports_def Let_def)
qed

lemma set_ports_spec:
  assumes "start \<le> stop" "stop div 8 < length bs"
  shows "\<exists>bs'. set_ports start stop bs = Some bs' \<and> ports_become True start stop bs bs'"
proof (cases "start div 8 = stop div 8")
  case True
  have "bit (b OR NOT (first_mask (start mod 8) OR last_mask (stop mod 8))) i \<longleftrightarrow>
      (if start mod 8 \<le> i \<and> i \<le> stop mod 8 then True else bit b i)" if "i < 8" for b i
    using that by (auto simp: bit_or_iff bit_and_iff bit_not_iff bit_first_mask bit_last_mask)
  from same_byte [OF True assms this] show ?thesis using True by (simp add: set_ports_def Let_def)
next
  case False
  then have lt: "start div 8 < stop div 8" using assms(1) by (simp add: div_le_mono le_neq_implies_less)
  have m: "bit (b OR NOT (first_mask (start mod 8))) i \<longleftrightarrow> (if start mod 8 \<le> i then True else bit b i)"
    "bit (b OR NOT (last_mask (stop mod 8))) i \<longleftrightarrow> (if i \<le> stop mod 8 then True else bit b i)" if "i < 8" for b i
    using that by (auto simp: bit_or_iff bit_not_iff bit_first_mask bit_last_mask)
  have "(0xFF :: 8 word) = mask 8" by (simp add: mask_eq_exp_minus_1)
  then have "bit (0xFF :: 8 word) i \<longleftrightarrow> True" if "i < 8" for i using that by (simp only: bit_mask_iff) simp
  from other_bytes [OF lt assms(2) m this] show ?thesis using False by (simp add: set_ports_def Let_def)
qed

section \<open>Properties\<close>

definition task_iomap :: "iostate \<Rightarrow> nat \<Rightarrow> 8 word list" where
  "task_iomap s task = (case iomap s task of Some bs \<Rightarrow> bs | None \<Rightarrow> replicate iomap_bytes 0xFF)"

lemma last_port_word:
  fixes f n :: "64 word"
  assumes "0 < n" "unat f + unat n \<le> 64704"
  shows "unat (f + n - 1) = unat f + unat n - 1"
proof -
  have n: "1 \<le> unat n" using assms(1) by (simp add: Suc_le_eq unat_gt_0)
  have "unat (f + n) = unat f + unat n" using assms(2) by (simp add: unat_word_ariths(1))
  then show ?thesis using n by (simp add: unat_sub word_le_nat_alt)
qed

lemma check_ioports_ok:
  fixes f n :: "64 word"
  assumes "0 < n" "unat f + unat n \<le> 64704"
  shows "check_ioports f (f + n - 1) = 0"
proof -
  have n: "1 \<le> unat n" using assms(1) by (simp add: Suc_le_eq unat_gt_0)
  then have "\<not> unat f + unat n - 1 < unat f" "\<not> 65423 \<le> unat f + unat n - 1" "\<not> 65423 \<le> unat f" using assms(2) by linarith+
  then show ?thesis using last_port_word [OF assms]
    by (simp add: check_ioports_def s_check_system_capability_def word_less_nat_alt word_le_nat_alt TSS_IOPORTS_LIMIT_def
        TSS_IOPORTS_PAGES_def TSS_BASIC_SIZE_def)
qed

text \<open>
  C18. Allocation is exact: when memory is available, the ports lie in the bitmap of a task and none
  of them is in use, \<^verbatim>\<open>sys_allocate_ioports\<close> succeeds, the tree keeps disjoint ordered ranges that
  cover exactly the ports in use before and the new ones, and in the caller's permission bitmap the
  bits of the new ports are cleared and all other bits are as they were.
\<close>

theorem ioports_allocate_exact:
  fixes f n :: "64 word"
  assumes "ranges_ok (inorder (ioports_root s))" "length (task_iomap s cur) = iomap_bytes"
    "0 < n" "unat f + unat n \<le> 64704" "ports_of (inorder (ioports_root s)) \<inter> {unat f ..< unat f + unat n} = {}"
  shows "\<exists>s' bs. sys_allocate_ioports True True ms cur f n s = Some (0, s') \<and> ranges_ok (inorder (ioports_root s')) \<and>
    ports_of (inorder (ioports_root s')) = ports_of (inorder (ioports_root s)) \<union> {unat f ..< unat f + unat n} \<and>
    iomap s' = (iomap s)(cur \<mapsto> bs) \<and> ports_become False (unat f) (unat f + unat n - 1) (task_iomap s cur) bs"
proof -
  let ?l = "f + n - 1"
  have n: "1 \<le> unat n" using assms(3) by (simp add: Suc_le_eq unat_gt_0)
  have l: "unat ?l = unat f + unat n - 1" by (rule last_port_word [OF assms(3,4)])
  have le: "unat f \<le> unat ?l" using l n by simp
  have iv: "{unat f .. unat ?l} = {unat f ..< unat f + unat n}" using l n by auto
  obtain e h t where t: "add_ioports_range True cur (ioports_root s) (unat f) (unat ?l) = (e, h, t)" by (metis prod_cases3)
  have "e = 0" using add_range_error [OF t _ assms(1) le] assms(5) iv by auto
  note t0 = t [unfolded this]
  have ok: "ranges_ok (inorder t)" "ports_of (inorder t) = ports_of (inorder (ioports_root s)) \<union> {unat f .. unat ?l}"
    using add_result_ok [OF add_range_result [OF t0 assms(1) le] assms(1) le] by auto
  have "unat ?l div 8 < length (task_iomap s cur)"
    using l assms(2,4) n by (simp add: iomap_bytes_def TSS_IOPORTS_PAGES_def TSS_BASIC_SIZE_def)
  then obtain bs where bs: "clear_ports (unat f) (unat ?l) (task_iomap s cur) = Some bs"
    "ports_become False (unat f) (unat ?l) (task_iomap s cur) bs" using clear_ports_spec [OF le] by blast
  have "arch_allocate_ioports True cur (unat f) (unat ?l) (s\<lparr>ioports_root := t\<rparr>) =
      Some (0, s\<lparr>ioports_root := t, iomap := (iomap s)(cur \<mapsto> bs)\<rparr>)"
    using bs(1) by (auto simp: arch_allocate_ioports_def task_iomap_def split: option.splits)
  then have "sys_allocate_ioports True True ms cur f n s = Some (0, s\<lparr>ioports_root := t, iomap := (iomap s)(cur \<mapsto> bs)\<rparr>)"
    using t0 check_ioports_ok [OF assms(3,4)] by (simp add: sys_allocate_ioports_def)
  then show ?thesis using ok bs(2) iv l
    by (intro exI [of _ "s\<lparr>ioports_root := t, iomap := (iomap s)(cur \<mapsto> bs)\<rparr>"] exI [of _ bs]) simp
qed

definition wit_io :: iostate where
  "wit_io = \<lparr>ioports_root = Fork Tip \<lparr>start_port = 10, end_port = 19, holder = 3\<rparr> Tip, iomap = (\<lambda>_. None)\<rparr>"

lemma wit_io_ok: "ranges_ok (inorder (ioports_root wit_io))" "length (task_iomap wit_io c) = iomap_bytes"
  by (simp_all add: wit_io_def ranges_ok_def task_iomap_def)

theorem ioports_allocate_exact_witness:
  "\<exists>s' bs. sys_allocate_ioports True True True 4 32 8 wit_io = Some (0, s') \<and> ranges_ok (inorder (ioports_root s')) \<and>
    ports_of (inorder (ioports_root s')) = {10..<20} \<union> {32..<40} \<and> iomap s' 4 = Some bs \<and>
    ports_become False 32 39 (replicate iomap_bytes 0xFF) bs"
proof -
  have p: "ports_of (inorder (ioports_root wit_io)) = {10..<20}" "task_iomap wit_io 4 = replicate iomap_bytes 0xFF"
    by (auto simp: wit_io_def task_iomap_def)
  have u: "unat (8 :: 64 word) = 8" "unat (32 :: 64 word) = 32" by simp_all
  obtain s' bs where "sys_allocate_ioports True True True 4 32 8 wit_io = Some (0, s')" "ranges_ok (inorder (ioports_root s'))"
    "ports_of (inorder (ioports_root s')) = {10..<20} \<union> {32..<32 + 8}" "iomap s' = (iomap wit_io)(4 \<mapsto> bs)"
    "ports_become False 32 (32 + 8 - 1) (replicate iomap_bytes 0xFF) bs"
    using ioports_allocate_exact [where s = wit_io and cur = 4 and n = 8 and f = 32 and ms = True] wit_io_ok p unfolding u by auto
  then show ?thesis by (intro exI [of _ s'] exI [of _ bs]) simp
qed

text \<open>
  C19. Freeing ports at either end of an owned range is exact: exactly these ports leave the tree,
  whose ranges stay ordered and disjoint and keep their holders, and exactly their bits are set
  again in the caller's permission bitmap.
\<close>

theorem ioports_free_exact:
  fixes f n :: "64 word"
  assumes "ranges_ok (inorder (ioports_root s))" "iomap s cur = Some bm" "length bm = iomap_bytes"
    "0 < n" "unat f + unat n \<le> 64704" "r \<in> set (inorder (ioports_root s))"
    "start_port r \<le> unat f" "unat f + unat n \<le> end_port r + 1" "unat f = start_port r \<or> unat f + unat n = end_port r + 1"
    "snd (check_ioports_range (ioports_root s) (unat f) (unat f + unat n - 1)) = cur"
  shows "\<exists>s' bs. sys_free_ioports mem cur f n s = Some (0, s') \<and> ranges_ok (inorder (ioports_root s')) \<and>
    ports_of (inorder (ioports_root s')) = ports_of (inorder (ioports_root s)) - {unat f ..< unat f + unat n} \<and>
    iomap s' = (iomap s)(cur \<mapsto> bs) \<and> ports_become True (unat f) (unat f + unat n - 1) bm bs"
proof -
  let ?l = "f + n - 1"
  have n: "1 \<le> unat n" using assms(4) by (simp add: Suc_le_eq unat_gt_0)
  have l: "unat ?l = unat f + unat n - 1" by (rule last_port_word [OF assms(4,5)])
  have le: "unat f \<le> unat ?l" using l n by simp
  have iv: "{unat f .. unat ?l} = {unat f ..< unat f + unat n}" using l n by auto
  have edge: "unat ?l \<le> end_port r" "unat f = start_port r \<or> unat ?l = end_port r" using l n assms(8,9) by auto
  obtain t where t: "free_ioports_range mem (ioports_root s) (unat f) (unat ?l) = (0, t)" "ranges_ok (inorder t)"
    "ports_of (inorder t) = ports_of (inorder (ioports_root s)) - {unat f .. unat ?l}"
    using free_range_edge [OF assms(6,7) le edge assms(1)] by blast
  have "unat ?l div 8 < length bm"
    using l assms(3,5) n by (simp add: iomap_bytes_def TSS_IOPORTS_PAGES_def TSS_BASIC_SIZE_def)
  then obtain bs where bs: "set_ports (unat f) (unat ?l) bm = Some bs" "ports_become True (unat f) (unat ?l) bm bs"
    using set_ports_spec [OF le] by blast
  have "sys_free_ioports mem cur f n s = Some (0, s\<lparr>ioports_root := t, iomap := (iomap s)(cur \<mapsto> bs)\<rparr>)"
    using t(1) check_ioports_ok [OF assms(4,5)] assms(2,10) bs(1) l by (simp add: sys_free_ioports_def arch_free_ioports_def)
  then show ?thesis using t(2,3) bs(2) iv l
    by (intro exI [of _ "s\<lparr>ioports_root := t, iomap := (iomap s)(cur \<mapsto> bs)\<rparr>"] exI [of _ bs]) simp
qed

theorem ioports_free_exact_witness:
  "\<exists>s' bs. sys_free_ioports True 3 10 4 (wit_io\<lparr>iomap := [3 \<mapsto> replicate iomap_bytes 0]\<rparr>) = Some (0, s') \<and>
    ports_of (inorder (ioports_root s')) = {10..<20} - {10..<14} \<and> iomap s' 3 = Some bs \<and>
    ports_become True 10 13 (replicate iomap_bytes 0) bs"
proof -
  let ?s = "wit_io\<lparr>iomap := [3 \<mapsto> replicate iomap_bytes 0]\<rparr>"
  let ?r = "\<lparr>start_port = 10, end_port = 19, holder = 3\<rparr>"
  have p: "ports_of (inorder (ioports_root ?s)) = {10..<20}" by (auto simp: wit_io_def)
  have a: "ranges_ok (inorder (ioports_root ?s))" using wit_io_ok(1) by (simp add: wit_io_def)
  have b: "?r \<in> set (inorder (ioports_root ?s))" "snd (check_ioports_range (ioports_root ?s) 10 13) = 3"
    by (simp_all add: wit_io_def)
  have u: "unat (4 :: 64 word) = 4" "unat (10 :: 64 word) = 10" by simp_all
  obtain s' bs where "sys_free_ioports True 3 10 4 ?s = Some (0, s')" "ports_of (inorder (ioports_root s')) = {10..<20} - {10..<10 + 4}"
    "iomap s' = (iomap ?s)(3 \<mapsto> bs)" "ports_become True 10 (10 + 4 - 1) (replicate iomap_bytes 0) bs"
    using ioports_free_exact [where s = ?s and cur = 3 and bm = "replicate iomap_bytes 0" and n = 4 and f = 10 and r = ?r and mem = True]
      a b p unfolding u by auto
  then show ?thesis by (intro exI [of _ s'] exI [of _ bs]) simp
qed




text \<open>
  Splitting a range forgets the ranges below it: freeing ports strictly inside a range drops the
  whole left subtree of its node, whose ports then appear to be free although their holders did
  not free them.
\<close>

theorem ioports_split_forgets:
  assumes "start_port r < s" "s \<le> e" "e < end_port r" "ranges_ok (inorder (Fork l r t))"
  shows "\<exists>t'. free_ioports_range True (Fork l r t) s e = (0, t') \<and>
    ports_of (inorder t') = ports_of (inorder (Fork l r t)) - {s..e} - ports_of (inorder l)"
proof -
  have bl: "\<forall>x \<in> set (inorder l). before x r" and br: "\<forall>y \<in> set (inorder t). before r y"
    using assms(4) by (auto simp: ranges_ok_append ranges_ok_Cons)
  have lr: "x < start_port r" if "x \<in> ports_of (inorder l)" for x using bl that by (fastforce simp: ports_of_def)
  have tr: "end_port r < x" if "x \<in> ports_of (inorder t)" for x using br that by (fastforce simp: ports_of_def)
  let ?t = "Fork (Fork Tip \<lparr>start_port = start_port r, end_port = s - 1, holder = holder r\<rparr> Tip) (r\<lparr>start_port := e + 1\<rparr>) t"
  have "x \<in> ports_of (inorder ?t) \<longleftrightarrow> x \<in> ports_of (inorder (Fork l r t)) - {s..e} - ports_of (inorder l)" for x
    using lr [of x] tr [of x] assms(1-3) by auto
  then show ?thesis using assms(1-3) by (intro exI [of _ ?t] conjI set_eqI) auto
qed

theorem ioports_split_forgets_witness:
  "\<exists>t'. free_ioports_range True (Fork (Fork Tip \<lparr>start_port = 0, end_port = 1, holder = 3\<rparr> Tip)
       \<lparr>start_port = 10, end_port = 19, holder = 3\<rparr> Tip) 12 13 = (0, t') \<and> 0 \<notin> ports_of (inorder t') \<and>
     check_ioports_range t' 0 1 = (True, 0)"
  using ioports_split_forgets [of "\<lparr>start_port = 10, end_port = 19, holder = 3\<rparr>" 12 13
      "Fork Tip \<lparr>start_port = 0, end_port = 1, holder = 3\<rparr> Tip" Tip]
  by (auto simp: ranges_ok_def)

end
