(* ===== verification/Def_Actions.thy ===== *)
theory Def_Actions
  imports Pqueue
begin

text \<open>
  Deferred interrupt actions (\<^verbatim>\<open>kernel/generic/def_actions.c\<close>) and the skip lists of
  \<^verbatim>\<open>include/ds/skiplist.h\<close>. A skip list is the list of its leaders in the order of their priorities,
  each with the list of the elements of the same priority that hang off it; it is modelled by the
  groups of the priority queue, over lists of nodes as in \<^verbatim>\<open>DList\<close>. The operations of a CPU's list run
  under its lock and are one step each. Executing an action (raising an event, sending a signal,
  waking a task) is recorded in the list of fired actions.
\<close>

section \<open>Skip lists\<close>

fun skiplist_add_group :: "(nat \<Rightarrow> int) \<Rightarrow> nat \<Rightarrow> nat list \<Rightarrow> groups \<Rightarrow> groups" where
  "skiplist_add_group prio a as [] = [(a, as)]"
| "skiplist_add_group prio a as ((d, ds) # gs) =
     (if prio d > prio a then (a, as) # (d, ds) # gs
      else if prio d = prio a then (d, ds @ a # as) # gs
      else (d, ds) # skiplist_add_group prio a as gs)"

definition skiplist_add :: "(nat \<Rightarrow> int) \<Rightarrow> nat \<Rightarrow> groups \<Rightarrow> groups" where
  "skiplist_add prio a gs = skiplist_add_group prio a [] gs"

text \<open>Removing a leader puts its first follower in its place, with the rest behind it.\<close>

fun skiplist_del :: "nat \<Rightarrow> groups \<Rightarrow> groups" where
  "skiplist_del a [] = []"
| "skiplist_del a ((d, ds) # gs) =
     (if d = a then (case ds of [] \<Rightarrow> gs | b # bs \<Rightarrow> (b, bs) # gs)
      else if a \<in> set ds then (d, remove1 a ds) # gs
      else (d, ds) # skiplist_del a gs)"

lemma skiplist_add_group_flat:
  assumes "prio_ok prio gs" "\<forall>x \<in> set as. prio x = prio a"
  shows "flat (skiplist_add_group prio a as gs) =
    takeWhile (\<lambda>x. prio x \<le> prio a) (flat gs) @ a # as @ dropWhile (\<lambda>x. prio x \<le> prio a) (flat gs) \<and>
    prio_ok prio (skiplist_add_group prio a as gs)"
  using assms
proof (induction prio a as gs rule: skiplist_add_group.induct)
  case (1 prio a as)
  then show ?case by auto
next
  case (2 prio a as d ds gs)
  have ok: "\<forall>f \<in> set ds. prio f = prio d" "\<forall>x \<in> set (flat gs). prio d < prio x" "prio_ok prio gs" using "2.prems"(1) by auto
  consider (gt) "prio d > prio a" | (eq) "prio d = prio a" | (lt) "prio d < prio a" by linarith
  then show ?case
  proof cases
    case gt
    then have lt: "prio a < prio x" if "x \<in> set (flat ((d, ds) # gs))" for x using ok(1,2) that by auto
    have "takeWhile (\<lambda>x. prio x \<le> prio a) (flat ((d, ds) # gs)) = []"
      "dropWhile (\<lambda>x. prio x \<le> prio a) (flat ((d, ds) # gs)) = flat ((d, ds) # gs)" using gt by simp_all
    moreover have "skiplist_add_group prio a as ((d, ds) # gs) = (a, as) # (d, ds) # gs" using gt by simp
    moreover have "prio_ok prio ((a, as) # (d, ds) # gs)"
      unfolding prio_ok.simps(2) [of prio a as]
      by (intro conjI ballI lt "2.prems"(1)) (rule "2.prems"(2) [rule_format])
    ultimately show ?thesis by (simp only: flat_simps append_Nil append_Cons append_assoc simp_thms)
  next
    case eq
    have t: "prio x \<le> prio a" if "x \<in> set (d # ds)" for x using ok(1) eq that by (metis order_refl set_ConsD)
    have u: "\<not> prio x \<le> prio a" if "x \<in> set (flat gs)" for x using ok(2) eq that by (metis not_le)
    have w: "takeWhile (\<lambda>x. prio x \<le> prio a) (flat gs) = []" "dropWhile (\<lambda>x. prio x \<le> prio a) (flat gs) = flat gs"
      using u by (cases "flat gs"; simp)+
    have fl: "flat ((d, ds) # gs) = (d # ds) @ flat gs" by simp
    have "takeWhile (\<lambda>x. prio x \<le> prio a) (flat ((d, ds) # gs)) = d # ds"
      "dropWhile (\<lambda>x. prio x \<le> prio a) (flat ((d, ds) # gs)) = flat gs"
      unfolding fl using w takeWhile_append2 [of "d # ds", OF t] dropWhile_append2 [of "d # ds", OF t]
      by (simp_all only: append_Nil2)
    moreover have "prio_ok prio ((d, ds @ a # as) # gs)"
    proof -
      have "prio f = prio d" if "f \<in> set (ds @ a # as)" for f using ok(1) "2.prems"(2) eq that by (metis Un_iff set_ConsD set_append)
      then show ?thesis using ok(2,3) unfolding prio_ok.simps(2) by blast
    qed
    moreover have "skiplist_add_group prio a as ((d, ds) # gs) = (d, ds @ a # as) # gs" using eq by simp
    ultimately show ?thesis by (simp only: flat_simps append_Cons append_assoc simp_thms)
  next
    case lt
    have ih: "flat (skiplist_add_group prio a as gs) =
        takeWhile (\<lambda>x. prio x \<le> prio a) (flat gs) @ a # as @ dropWhile (\<lambda>x. prio x \<le> prio a) (flat gs)"
      "prio_ok prio (skiplist_add_group prio a as gs)" using "2.IH" lt ok(3) "2.prems"(2) by auto
    have t: "prio x \<le> prio a" if "x \<in> set (d # ds)" for x using ok(1) lt that by (metis order_less_imp_le set_ConsD)
    have fl: "flat ((d, ds) # gs) = (d # ds) @ flat gs" by simp
    have "takeWhile (\<lambda>x. prio x \<le> prio a) (flat ((d, ds) # gs)) = (d # ds) @ takeWhile (\<lambda>x. prio x \<le> prio a) (flat gs)"
      "dropWhile (\<lambda>x. prio x \<le> prio a) (flat ((d, ds) # gs)) = dropWhile (\<lambda>x. prio x \<le> prio a) (flat gs)"
      unfolding fl using takeWhile_append2 [of "d # ds", OF t] dropWhile_append2 [of "d # ds", OF t] by (simp_all only:)
    moreover have "prio_ok prio ((d, ds) # skiplist_add_group prio a as gs)"
    proof -
      have "prio d < prio x" if "x \<in> set (flat (skiplist_add_group prio a as gs))" for x
      proof -
        have "x \<in> insert a (set as \<union> set (flat gs))"
          using that unfolding ih(1) by (auto dest: set_takeWhileD set_dropWhileD)
        then show ?thesis using ok(2) lt "2.prems"(2) by (metis Un_iff insert_iff)
      qed
      then show ?thesis using ok(1) ih(2) unfolding prio_ok.simps(2) by blast
    qed
    moreover have "skiplist_add_group prio a as ((d, ds) # gs) = (d, ds) # skiplist_add_group prio a as gs" using lt by simp
    ultimately show ?thesis using ih(1) by (simp only: flat_simps append_Cons append_assoc simp_thms)
  qed
qed

lemma skiplist_add_flat:
  assumes "prio_ok prio gs"
  shows "flat (skiplist_add prio a gs) = seq_insert prio (prio a) a (flat gs)" "prio_ok prio (skiplist_add prio a gs)"
  using skiplist_add_group_flat [OF assms, of "[]" a] by (auto simp: skiplist_add_def seq_insert_def)

lemma skiplist_del_flat:
  assumes "prio_ok prio gs" "distinct (flat gs)"
  shows "flat (skiplist_del a gs) = remove1 a (flat gs) \<and> prio_ok prio (skiplist_del a gs)"
  using assms
proof (induction a gs rule: skiplist_del.induct)
  case (2 a d ds gs)
  have ok: "\<forall>f \<in> set ds. prio f = prio d" "\<forall>x \<in> set (flat gs). prio d < prio x" "prio_ok prio gs" using "2.prems"(1) by auto
  show ?case
  proof (cases "d = a \<or> a \<in> set ds")
    case True
    show ?thesis
    proof (cases "d = a")
      case True
      then show ?thesis using ok by (cases ds) simp_all
    next
      case False
      then have "a \<in> set ds" using \<open>d = a \<or> a \<in> set ds\<close> by blast
      moreover have "\<forall>f \<in> set (remove1 a ds). prio f = prio d" using ok(1) by (auto dest: notin_set_remove1)
      ultimately show ?thesis using False ok by (simp add: remove1_append)
    qed
  next
    case False
    have ih: "flat (skiplist_del a gs) = remove1 a (flat gs)" "prio_ok prio (skiplist_del a gs)"
      using "2.IH" False "2.prems"(2) ok(3) by auto
    have "set (remove1 a (flat gs)) \<subseteq> set (flat gs)" by (rule set_remove1_subset)
    then show ?thesis using ih False ok by (auto simp: remove1_append)
  qed
qed simp

section \<open>The list of a CPU\<close>

datatype def_action_type = DEF_ACTION_EVENT | DEF_ACTION_SIGACTION | DEF_ACTION_UNBLOCK

record deffered_irq_action =
  da_type :: def_action_type
  da_priority :: nat
  da_host :: "nat option"

record percpu_def_actions =
  pending_actions :: groups
  executers :: nat
  works_pending :: bool

record da_state =
  cpu_actions :: "nat \<Rightarrow> percpu_def_actions"
  actions :: "nat \<Rightarrow> deffered_irq_action"

definition da_prio :: "da_state \<Rightarrow> nat \<Rightarrow> int" where
  "da_prio s a = int (da_priority (actions s a))"

abbreviation upd_cpu :: "nat \<Rightarrow> (percpu_def_actions \<Rightarrow> percpu_def_actions) \<Rightarrow> da_state \<Rightarrow> da_state" where
  "upd_cpu c f s \<equiv> s\<lparr>cpu_actions := (cpu_actions s)(c := f (cpu_actions s c))\<rparr>"

definition set_pending :: "nat \<Rightarrow> groups \<Rightarrow> da_state \<Rightarrow> da_state" where
  "set_pending c gs = upd_cpu c (\<lambda>p. p\<lparr>pending_actions := gs\<rparr>)"

definition initialize_deffered_actions :: "da_state \<Rightarrow> da_state" where
  "initialize_deffered_actions s = s\<lparr>cpu_actions := (\<lambda>_. \<lparr>pending_actions = [], executers = 0, works_pending = False\<rparr>)\<rparr>"

text \<open>\<open>cur\<close> is the priority of the current task, \<open>c\<close> the current CPU.\<close>

definition mark_works :: "nat \<Rightarrow> nat \<Rightarrow> nat \<Rightarrow> da_state \<Rightarrow> da_state" where
  "mark_works c cur a s =
     (if da_priority (actions s a) \<le> cur then upd_cpu c (\<lambda>p. p\<lparr>works_pending := True\<rparr>) s else s)"

definition schedule_deffered_action :: "nat \<Rightarrow> nat \<Rightarrow> nat \<Rightarrow> da_state \<Rightarrow> da_state" where
  "schedule_deffered_action c cur a s =
     (if da_host (actions s a) \<noteq> None then s
      else let s = s\<lparr>actions := (actions s)(a := (actions s a)\<lparr>da_host := Some c\<rparr>)\<rparr>;
               s = set_pending c (skiplist_add_group (da_prio s) a [] (pending_actions (cpu_actions s c))) s
           in mark_works c cur a s)"

fun schedule_groups :: "nat \<Rightarrow> nat \<Rightarrow> groups \<Rightarrow> da_state \<Rightarrow> da_state" where
  "schedule_groups c cur [] s = s"
| "schedule_groups c cur ((a, as) # gs) s =
     (let s = mark_works c cur a s;
          s = set_pending c (skiplist_add_group (da_prio s) a as (pending_actions (cpu_actions s c))) s
      in schedule_groups c cur gs s)"

definition schedule_deffered_actions :: "nat \<Rightarrow> nat \<Rightarrow> groups \<Rightarrow> da_state \<Rightarrow> da_state" where
  "schedule_deffered_actions c cur acts s =
     (case acts of
        [] \<Rightarrow> s
      | (a, as) # gs \<Rightarrow>
          if pending_actions (cpu_actions s c) = [] then mark_works c cur a (set_pending c acts s)
          else schedule_groups c cur acts s)"

fun fire_loop :: "nat \<Rightarrow> nat \<Rightarrow> nat \<Rightarrow> da_state \<Rightarrow> nat list \<times> da_state" where
  "fire_loop c cur 0 s = ([], s)"
| "fire_loop c cur (Suc k) s =
     (case pending_actions (cpu_actions s c) of
        [] \<Rightarrow> ([], upd_cpu c (\<lambda>p. p\<lparr>works_pending := False\<rparr>) s)
      | (a, as) # gs \<Rightarrow>
          if cur \<ge> da_priority (actions s a)
          then let s = s\<lparr>actions := (actions s)(a := (actions s a)\<lparr>da_host := None\<rparr>)\<rparr>;
                   s = set_pending c (skiplist_del a (pending_actions (cpu_actions s c))) s;
                   (fired, s) = fire_loop c cur k s
               in (a # fired, s)
          else ([], upd_cpu c (\<lambda>p. p\<lparr>works_pending := False\<rparr>) s))"

text \<open>\<open>budget\<close> is \<^verbatim>\<open>CONFIG_MAX_DEFERRED_IRQ_ACTIONS_PER_TICK\<close>; the result lists the executed actions.\<close>

definition fire_deffered_actions :: "nat \<Rightarrow> nat \<Rightarrow> nat \<Rightarrow> da_state \<Rightarrow> nat list \<times> da_state" where
  "fire_deffered_actions budget c cur s =
     (if executers (cpu_actions s c) \<noteq> 0 \<or> pending_actions (cpu_actions s c) = [] then ([], s)
      else let s = upd_cpu c (\<lambda>p. p\<lparr>executers := executers p + 1\<rparr>) s;
               (fired, s) = fire_loop c cur budget s
           in (fired, upd_cpu c (\<lambda>p. p\<lparr>executers := executers p - 1\<rparr>) s))"

text \<open>Removing an action takes it out of the list it is linked into and leaves its host as it is.\<close>

definition deschedule_deffered_action :: "nat \<Rightarrow> da_state \<Rightarrow> da_state" where
  "deschedule_deffered_action a s =
     s\<lparr>cpu_actions := (\<lambda>c. (cpu_actions s c)\<lparr>pending_actions := skiplist_del a (pending_actions (cpu_actions s c))\<rparr>)\<rparr>"

definition update_deferred_actions :: "nat \<Rightarrow> nat \<Rightarrow> da_state \<Rightarrow> da_state" where
  "update_deferred_actions c cur s =
     (case pending_actions (cpu_actions s c) of
        [] \<Rightarrow> s
      | (a, as) # gs \<Rightarrow> mark_works c cur a s)"

section \<open>The sequence of pending actions\<close>

definition da_ok :: "da_state \<Rightarrow> nat \<Rightarrow> bool" where
  "da_ok s c \<longleftrightarrow> prio_ok (da_prio s) (pending_actions (cpu_actions s c)) \<and>
     distinct (flat (pending_actions (cpu_actions s c)))"

abbreviation pending :: "da_state \<Rightarrow> nat \<Rightarrow> nat list" where
  "pending s c \<equiv> flat (pending_actions (cpu_actions s c))"

lemma da_prio_host [simp]: "da_prio (s\<lparr>actions := (actions s)(a := (actions s a)\<lparr>da_host := h\<rparr>)\<rparr>) = da_prio s"
  by (auto simp: da_prio_def)

lemma da_prio_cpu [simp]: "da_prio (s\<lparr>cpu_actions := x\<rparr>) = da_prio s"
  by (auto simp: da_prio_def)

lemma set_pending_simps [simp]:
  "pending_actions (cpu_actions (set_pending c gs s) c) = gs" "da_prio (set_pending c gs s) = da_prio s"
  "actions (set_pending c gs s) = actions s" "executers (cpu_actions (set_pending c gs s) d) = executers (cpu_actions s d)"
  by (auto simp: set_pending_def da_prio_def)

lemma mark_works_simps [simp]:
  "pending_actions (cpu_actions (mark_works c cur a s) d) = pending_actions (cpu_actions s d)"
  "da_prio (mark_works c cur a s) = da_prio s" "actions (mark_works c cur a s) = actions s"
  by (auto simp: mark_works_def da_prio_def)

fun seq_insert_all :: "(nat \<Rightarrow> int) \<Rightarrow> nat list \<Rightarrow> nat list \<Rightarrow> nat list" where
  "seq_insert_all prio [] xs = xs"
| "seq_insert_all prio (a # as) xs = seq_insert_all prio as (seq_insert prio (prio a) a xs)"

lemma seq_insert_all_append: "seq_insert_all prio (as @ bs) xs = seq_insert_all prio bs (seq_insert_all prio as xs)"
  by (induction as arbitrary: xs) auto

text \<open>Inserting a group at once is inserting its elements one after the other.\<close>

lemma seq_insert_group:
  assumes "\<forall>x \<in> set as. prio x = p" "\<forall>x \<in> set xs. prio x \<le> p" "\<forall>y \<in> set ys. p < prio y"
  shows "seq_insert_all prio as (xs @ ys) = xs @ as @ ys"
  using assms
proof (induction as arbitrary: xs)
  case (Cons a as)
  have "seq_insert prio (prio a) a (xs @ ys) = (xs @ [a]) @ ys" using seq_insert_at [of xs prio "prio a" ys a] Cons.prems by simp
  then show ?case using Cons.IH [of "xs @ [a]"] Cons.prems by simp
qed simp

lemma dropWhile_sorted_gt:
  assumes "sorted (map prio xs)" "y \<in> set (dropWhile (\<lambda>x. prio x \<le> p) xs)"
  shows "p < (prio y :: int)"
  using assms by (induction xs) (auto split: if_splits)

lemma skiplist_add_group_seq:
  assumes "prio_ok prio gs" "\<forall>x \<in> set as. prio x = prio a"
  shows "flat (skiplist_add_group prio a as gs) = seq_insert_all prio (a # as) (flat gs)"
proof -
  let ?t = "takeWhile (\<lambda>x. prio x \<le> prio a) (flat gs)" and ?d = "dropWhile (\<lambda>x. prio x \<le> prio a) (flat gs)"
  have "\<forall>y \<in> set ?d. prio a < prio y" using dropWhile_sorted_gt [OF prio_ok_sorted [OF assms(1)]] by blast
  then have "seq_insert_all prio (a # as) (?t @ ?d) = ?t @ (a # as) @ ?d"
    using assms(2) by (intro seq_insert_group) (auto dest: set_takeWhileD)
  then show ?thesis using skiplist_add_group_flat [OF assms] by simp
qed

lemma set_seq_insert [simp]: "set (seq_insert prio p n xs) = insert n (set xs)"
  by (simp add: seq_insert_def) (metis set_append takeWhile_dropWhile_id)

lemma distinct_seq_insert [simp]: "distinct (seq_insert prio p (n :: 'a) xs) \<longleftrightarrow> distinct xs \<and> n \<notin> set xs"
proof -
  have "distinct (ys @ n # zs) \<longleftrightarrow> distinct (n # ys @ zs)" for ys zs :: "'a list" by auto
  from this [of "takeWhile (\<lambda>m. prio m \<le> p) xs" "dropWhile (\<lambda>m. prio m \<le> p) xs"] show ?thesis
    unfolding seq_insert_def takeWhile_dropWhile_id by auto
qed

lemma set_seq_insert_all [simp]: "set (seq_insert_all prio as xs) = set as \<union> set xs"
  by (induction prio as xs rule: seq_insert_all.induct) auto

lemma distinct_seq_insert_all [simp]:
  "distinct (seq_insert_all prio as xs) \<longleftrightarrow> distinct xs \<and> distinct as \<and> set as \<inter> set xs = {}"
  by (induction prio as xs rule: seq_insert_all.induct) auto

lemma schedule_groups_spec:
  assumes "prio_ok (da_prio s) gs" "da_ok s c" "distinct (flat gs)" "set (flat gs) \<inter> set (pending s c) = {}"
  shows "pending (schedule_groups c cur gs s) c = seq_insert_all (da_prio s) (flat gs) (pending s c) \<and>
    da_ok (schedule_groups c cur gs s) c \<and> actions (schedule_groups c cur gs s) = actions s"
  using assms
proof (induction c cur gs s rule: schedule_groups.induct)
  case (2 c cur a as gs s)
  let ?s = "set_pending c (skiplist_add_group (da_prio s) a as (pending_actions (cpu_actions s c))) (mark_works c cur a s)"
  have ok: "prio_ok (da_prio s) (pending_actions (cpu_actions s c))" "distinct (pending s c)" using "2.prems"(2) by (auto simp: da_ok_def)
  have eq: "\<forall>x \<in> set as. da_prio s x = da_prio s a" using "2.prems"(1) by simp
  have p: "pending ?s c = seq_insert_all (da_prio s) (a # as) (pending s c)"
    using skiplist_add_group_seq [OF ok(1) eq] by simp
  have "da_ok ?s c" using skiplist_add_group_flat [OF ok(1) eq] p ok(2) "2.prems"(3,4) by (auto simp: da_ok_def)
  moreover have "prio_ok (da_prio ?s) gs" "distinct (flat gs)" "set (flat gs) \<inter> set (pending ?s c) = {}"
    using "2.prems" unfolding p by auto
  ultimately show ?case
    using "2.IH" [of "mark_works c cur a s" ?s] p by (simp add: seq_insert_all_append Let_def)
qed simp

lemma seq_insert_all_nil:
  assumes "prio_ok prio gs"
  shows "seq_insert_all prio (flat gs) [] = flat gs"
proof -
  have "seq_insert_all prio (flat gs) xs = xs @ flat gs" if "prio_ok prio gs" "\<forall>x \<in> set xs. \<forall>y \<in> set (flat gs). prio x < prio y" for xs gs
    using that
  proof (induction gs arbitrary: xs)
    case (Cons g gs)
    obtain d ds where g: "g = (d, ds)" by (cases g)
    have "seq_insert_all prio (d # ds) (xs @ []) = xs @ (d # ds) @ []"
      using Cons.prems by (intro seq_insert_group) (auto simp: g)
    moreover have "seq_insert_all prio (flat gs) (xs @ d # ds) = (xs @ d # ds) @ flat gs"
      using Cons.prems by (intro Cons.IH) (auto simp: g)
    ultimately show ?case by (simp add: g seq_insert_all_append)
  qed simp
  then show ?thesis using assms by fastforce
qed

text \<open>Both ways of scheduling a list of actions insert its actions by priority.\<close>

lemma schedule_actions_spec:
  assumes "prio_ok (da_prio s) gs" "da_ok s c" "distinct (flat gs)" "set (flat gs) \<inter> set (pending s c) = {}"
  shows "pending (schedule_deffered_actions c cur gs s) c = seq_insert_all (da_prio s) (flat gs) (pending s c) \<and>
    da_ok (schedule_deffered_actions c cur gs s) c \<and> actions (schedule_deffered_actions c cur gs s) = actions s"
proof (cases gs)
  case (Cons g gs')
  obtain a as where g: "g = (a, as)" by (cases g)
  show ?thesis
  proof (cases "pending_actions (cpu_actions s c) = []")
    case True
    then show ?thesis using Cons g assms seq_insert_all_nil [OF assms(1)] by (simp add: schedule_deffered_actions_def da_ok_def)
  next
    case False
    then show ?thesis using schedule_groups_spec [OF assms] by (simp add: schedule_deffered_actions_def Cons g)
  qed
qed (use assms in \<open>simp add: schedule_deffered_actions_def\<close>)

lemma schedule_action_spec:
  assumes "da_ok s c" "da_host (actions s a) = None" "a \<notin> set (pending s c)"
  shows "pending (schedule_deffered_action c cur a s) c = seq_insert (da_prio s) (da_prio s a) a (pending s c)"
    "da_ok (schedule_deffered_action c cur a s) c"
  using assms skiplist_add_flat [of "da_prio s" "pending_actions (cpu_actions s c)" a]
  by (auto simp: schedule_deffered_action_def da_ok_def Let_def skiplist_add_def)

lemma fire_loop_spec:
  assumes "da_ok s c" "fire_loop c cur k s = (fired, s')"
  shows "fired = take k (takeWhile (\<lambda>a. da_prio s a \<le> int cur) (pending s c)) \<and>
    pending s' c = drop (length fired) (pending s c) \<and> da_ok s' c \<and> da_prio s' = da_prio s"
  using assms
proof (induction c cur k s arbitrary: fired s' rule: fire_loop.induct)
  case (1 c cur s)
  then show ?case by simp
next
  case (2 c cur k s)
  show ?case
  proof (cases "pending_actions (cpu_actions s c)")
    case Nil
    then show ?thesis using "2.prems" by (auto simp: da_ok_def)
  next
    case (Cons g gs)
    obtain a as where g: "g = (a, as)" by (cases g)
    show ?thesis
    proof (cases "cur \<ge> da_priority (actions s a)")
      case False
      then show ?thesis using "2.prems" Cons g by (auto simp: da_ok_def da_prio_def)
    next
      case True
      let ?s = "s\<lparr>actions := (actions s)(a := (actions s a)\<lparr>da_host := None\<rparr>)\<rparr>"
      let ?t = "set_pending c (skiplist_del a (pending_actions (cpu_actions ?s c))) ?s"
      obtain f u where f: "fire_loop c cur k ?t = (f, u)" by fastforce
      have fu: "fired = a # f" "s' = u" using "2.prems"(2) True Cons g f by (simp_all add: Let_def)
      have p: "pending ?t c = tl (pending s c)"
        using skiplist_del_flat [of "da_prio s" "pending_actions (cpu_actions s c)" a] "2.prems"(1) Cons g by (auto simp: da_ok_def)
      have "da_ok ?t c"
        using skiplist_del_flat [of "da_prio s" "pending_actions (cpu_actions s c)" a] "2.prems"(1) by (auto simp: da_ok_def)
      then have "f = take k (takeWhile (\<lambda>a. da_prio s a \<le> int cur) (pending ?t c)) \<and>
          pending u c = drop (length f) (pending ?t c) \<and> da_ok u c \<and> da_prio u = da_prio s"
        using "2.IH" [OF Cons g [symmetric] True refl refl _ f] by simp
      then show ?thesis using fu p True Cons g by (simp add: da_prio_def drop_Suc)
    qed
  qed
qed

lemma fire_spec:
  assumes "da_ok s c" "executers (cpu_actions s c) = 0" "fire_deffered_actions budget c cur s = (fired, s')"
  shows "fired = take budget (takeWhile (\<lambda>a. da_prio s a \<le> int cur) (pending s c)) \<and>
    pending s' c = drop (length fired) (pending s c) \<and> da_ok s' c"
proof (cases "pending_actions (cpu_actions s c) = []")
  case True
  then show ?thesis using assms by (auto simp: fire_deffered_actions_def)
next
  case False
  let ?s = "upd_cpu c (\<lambda>p. p\<lparr>executers := executers p + 1\<rparr>) s"
  obtain f u where f: "fire_loop c cur budget ?s = (f, u)" by fastforce
  have ok: "da_ok ?s c" using assms(1) by (simp add: da_ok_def)
  have "fired = f" "s' = upd_cpu c (\<lambda>p. p\<lparr>executers := executers p - 1\<rparr>) u"
    using assms(2,3) False f by (simp_all add: fire_deffered_actions_def)
  then show ?thesis using fire_loop_spec [OF ok f] by (auto simp: da_ok_def)
qed

section \<open>Properties\<close>

text \<open>
  C25. Deferred actions fire by priority: scheduling an action that is on no list puts it behind the
  pending actions of the same or a better priority, and firing then executes, up to the budget,
  exactly the pending actions whose priority the current task does not exceed, best priority first
  and in the order of scheduling among equals, and leaves the others pending.
\<close>

theorem deffered_actions_fire_by_priority:
  assumes "da_ok s c" "executers (cpu_actions s c) = 0" "da_host (actions s a) = None" "a \<notin> set (pending s c)"
    "fire_deffered_actions budget c cur (schedule_deffered_action c cur a s) = (fired, s')"
  shows "let xs = seq_insert (da_prio s) (da_prio s a) a (pending s c) in
    sorted (map (da_prio s) xs) \<and> fired = take budget (takeWhile (\<lambda>b. da_prio s b \<le> int cur) xs) \<and>
    pending s' c = drop (length fired) xs \<and> da_ok s' c"
proof -
  let ?s = "schedule_deffered_action c cur a s"
  have p: "pending ?s c = seq_insert (da_prio s) (da_prio s a) a (pending s c)" "da_ok ?s c"
    using schedule_action_spec [OF assms(1,3,4)] by auto
  have q: "da_prio ?s = da_prio s" "executers (cpu_actions ?s c) = 0"
    using assms(2) by (auto simp: schedule_deffered_action_def mark_works_def Let_def)
  have "sorted (map (da_prio s) (pending ?s c))" using prio_ok_sorted p(2) unfolding da_ok_def q(1) by blast
  then show ?thesis using fire_spec [OF p(2) q(2) assms(5)] unfolding Let_def p(1) q(1) by simp
qed

definition wit_da :: da_state where
  "wit_da = \<lparr>cpu_actions = (\<lambda>_. \<lparr>pending_actions = [(1, [2])], executers = 0, works_pending = False\<rparr>),
     actions = (\<lambda>a. \<lparr>da_type = DEF_ACTION_UNBLOCK, da_priority = (if a = 3 then 5 else 7), da_host = None\<rparr>)\<rparr>"

theorem deffered_actions_fire_by_priority_witness:
  "\<exists>s'. fire_deffered_actions 2 0 9 (schedule_deffered_action 0 9 3 wit_da) = ([3, 1], s') \<and> pending s' 0 = [2]"
proof -
  obtain fired s' where f: "fire_deffered_actions 2 0 9 (schedule_deffered_action 0 9 3 wit_da) = (fired, s')" by fastforce
  have a: "da_ok wit_da 0" "executers (cpu_actions wit_da 0) = 0" "da_host (actions wit_da 3) = None" "3 \<notin> set (pending wit_da 0)"
    by (simp_all add: wit_da_def da_ok_def da_prio_def)
  have "seq_insert (da_prio wit_da) (da_prio wit_da 3) 3 (pending wit_da 0) = [3, 1, 2]"
    "\<forall>b \<in> {1, 2, 3}. da_prio wit_da b \<le> int 9"
    by (simp_all add: seq_insert_def wit_da_def da_prio_def)
  then show ?thesis using deffered_actions_fire_by_priority [OF a f] f by (simp add: Let_def)
qed

text \<open>
  An action that is taken off its list keeps its host, so scheduling it again has no effect.
\<close>

lemma deschedule_blocks_schedule:
  assumes "da_host (actions s a) = Some h"
  shows "schedule_deffered_action c cur a (deschedule_deffered_action a s) = deschedule_deffered_action a s"
  using assms by (simp add: schedule_deffered_action_def deschedule_deffered_action_def)

end
