(* ===== verification/Timers.thy ===== *)
theory Timers
  imports Def_Actions
begin

text \<open>
  Software timers (\<^verbatim>\<open>kernel/generic/timer.c\<close>, \<^verbatim>\<open>include/mstring/timer.h\<close>, \<^verbatim>\<open>timer_tick\<close> of
  \<^verbatim>\<open>kernel/generic/time.c\<close>), in the list representation the kernel configures by default. Timers are
  named by numbers, which also name their deferred actions. A major tick covers
  \<^verbatim>\<open>CONFIG_TIMER_GRANULARITY\<close> ticks; its timers hang in groups of \<^verbatim>\<open>MINOR_TICK_GROUP_SIZE\<close> ticks, one
  node per tick with a skip list of actions. The granularity \<open>g\<close> is an argument of the operations.
  Times are natural numbers: 64-bit tick counters do not wrap.
\<close>

section \<open>Data\<close>

record timer_tick =
  tt_time :: nat
  tt_owner :: nat
  tt_actions :: groups

record major_timer_tick =
  mt_time :: nat
  use_counter :: nat
  minor_ticks :: "timer_tick list list"

record timers =
  timers_list :: "major_timer_tick list"
  num_cached_major_ticks :: nat
  system_ticks :: nat
  last_processed_timer_tick :: nat
  expired_majors :: "major_timer_tick list"
  timer_time :: "nat \<Rightarrow> nat"
  timer_major :: "nat \<Rightarrow> nat option"
  tdas :: da_state

definition MINOR_TICK_GROUP_SIZE :: nat where "MINOR_TICK_GROUP_SIZE = 16"

definition MINOR_TICK_GROUPS :: "nat \<Rightarrow> nat" where
  "MINOR_TICK_GROUPS g = g div MINOR_TICK_GROUP_SIZE"

definition MAJOR_TIMER_TICK_INIT :: "nat \<Rightarrow> nat \<Rightarrow> major_timer_tick" where
  "MAJOR_TIMER_TICK_INIT g t = \<lparr>mt_time = t, use_counter = 1, minor_ticks = replicate (MINOR_TICK_GROUPS g) []\<rparr>"

definition major_of :: "nat \<Rightarrow> nat \<Rightarrow> nat" where
  "major_of g t = t - t mod g"

section \<open>Operations\<close>

text \<open>The search of \<^verbatim>\<open>add_timer\<close>: the major ticks before, the one found, and the ones behind.\<close>

fun find_major :: "nat \<Rightarrow> major_timer_tick list \<Rightarrow> major_timer_tick list \<times> major_timer_tick option \<times> major_timer_tick list" where
  "find_major mtickv [] = ([], None, [])"
| "find_major mtickv (mt # mts) =
     (if mt_time mt = mtickv then ([], Some mt, mts)
      else if mt_time mt > mtickv then ([], None, mt # mts)
      else case find_major mtickv mts of (xs, m, ys) \<Rightarrow> (mt # xs, m, ys))"

text \<open>Linking a timer into the list of ticks of its group.\<close>

fun link_tick :: "(nat \<Rightarrow> int) \<Rightarrow> nat \<Rightarrow> nat \<Rightarrow> timer_tick list \<Rightarrow> timer_tick list" where
  "link_tick prio t time_x [] = [\<lparr>tt_time = time_x, tt_owner = t, tt_actions = [(t, [])]\<rparr>]"
| "link_tick prio t time_x (tt # tts) =
     (if tt_time tt = time_x then tt\<lparr>tt_actions := skiplist_add prio t (tt_actions tt)\<rparr> # tts
      else if tt_time tt > time_x then \<lparr>tt_time = time_x, tt_owner = t, tt_actions = [(t, [])]\<rparr> # tt # tts
      else tt # link_tick prio t time_x tts)"

definition group_index :: "nat \<Rightarrow> nat \<Rightarrow> nat" where
  "group_index g t = (t - major_of g t) div MINOR_TICK_GROUP_SIZE"

text \<open>
  \<^verbatim>\<open>add_timer\<close>: \<open>mem\<close> and \<open>mem_cache\<close> say whether a new major tick and the refill of the cache can be
  allocated, \<open>min_cached\<close> is \<^verbatim>\<open>CONFIG_MIN_CACHED_MAJOR_TICKS\<close>. The result is the return value, whether
  the action is executed at once, and the state.
\<close>

definition add_timer :: "nat \<Rightarrow> nat \<Rightarrow> bool \<Rightarrow> bool \<Rightarrow> nat \<Rightarrow> timers \<Rightarrow> (int \<times> bool \<times> timers) option" where
  "add_timer g min_cached mem mem_cache t s =
     (let time_x = timer_time s t; mtickv = major_of g time_x
      in if time_x = 0 then Some (ERR EINVAL, False, s)
         else if time_x \<le> system_ticks s then Some (0, True, s)
         else case find_major mtickv (timers_list s) of (xs, found, ys) \<Rightarrow>
           let cache_used = (found = None \<and> num_cached_major_ticks s > 0);
               got = (case found of
                        Some mt \<Rightarrow> Some (mt\<lparr>use_counter := use_counter mt + 1\<rparr>)
                      | None \<Rightarrow> if cache_used \<or> mem then Some (MAJOR_TIMER_TICK_INIT g mtickv) else None)
           in case got of
                None \<Rightarrow> Some (ERR ENOMEM, False, s)
              | Some mt \<Rightarrow>
                  let s = (if cache_used then s\<lparr>num_cached_major_ticks := num_cached_major_ticks s - 1\<rparr> else s);
                      s = s\<lparr>timer_major := (timer_major s)(t := Some mtickv)\<rparr>;
                      refill = (\<lambda>s. if cache_used \<and> num_cached_major_ticks s < min_cached \<and> mem_cache
                                    then s\<lparr>num_cached_major_ticks := num_cached_major_ticks s + 1\<rparr> else s)
                  in if time_x \<le> last_processed_timer_tick s
                     then Some (0, True, refill (s\<lparr>timers_list := xs @ mt # ys\<rparr>))
                     else let i = group_index g time_x
                          in if i < length (minor_ticks mt)
                             then let lh = link_tick (da_prio (tdas s)) t time_x (minor_ticks mt ! i);
                                      mt = mt\<lparr>minor_ticks := (minor_ticks mt)[i := lh]\<rparr>
                                  in Some (0, False, refill (s\<lparr>timers_list := xs @ mt # ys\<rparr>))
                             else None)"

fun take_tick :: "nat \<Rightarrow> timer_tick list \<Rightarrow> timer_tick option \<times> timer_tick list" where
  "take_tick n [] = (None, [])"
| "take_tick n (tt # tts) =
     (if tt_time tt = n then (Some tt, tts)
      else case take_tick n tts of (x, tts) \<Rightarrow> (x, tt # tts))"

text \<open>\<open>c\<close> and \<open>cur\<close>: the CPU that handles the timer interrupt and the priority of its current task.\<close>

definition process_timers :: "nat \<Rightarrow> nat \<Rightarrow> nat \<Rightarrow> timers \<Rightarrow> timers option" where
  "process_timers g c cur s =
     (let n = system_ticks s; mtickv = major_of g n
      in case timers_list s of
           [] \<Rightarrow> Some s
         | mt # mts \<Rightarrow>
             if mt_time mt > mtickv then Some s
             else let i = (n - mtickv) div MINOR_TICK_GROUP_SIZE
                  in if i < length (minor_ticks mt)
                     then (case take_tick n (minor_ticks mt ! i) of (x, lh) \<Rightarrow>
                       let mt = mt\<lparr>minor_ticks := (minor_ticks mt)[i := lh]\<rparr>;
                           s = (case x of
                                  None \<Rightarrow> s
                                | Some tt \<Rightarrow> s\<lparr>last_processed_timer_tick := n,
                                                tdas := schedule_deffered_actions c cur (tt_actions tt) (tdas s)\<rparr>)
                       in Some (if n = mt_time mt + g - 1
                                then if use_counter mt = 0
                                     then s\<lparr>timers_list := mts, num_cached_major_ticks := num_cached_major_ticks s + 1\<rparr>
                                     else s\<lparr>timers_list := mts, expired_majors := mt # expired_majors s\<rparr>
                                else s\<lparr>timers_list := mt # mts\<rparr>))
                     else None)"

text \<open>Major ticks that are still referenced by timers: linked into the list or already expired.\<close>

definition find_mt :: "nat \<Rightarrow> timers \<Rightarrow> major_timer_tick option" where
  "find_mt v s = find (\<lambda>mt. mt_time mt = v) (timers_list s @ expired_majors s)"

definition upd_mt :: "nat \<Rightarrow> (major_timer_tick \<Rightarrow> major_timer_tick) \<Rightarrow> timers \<Rightarrow> timers" where
  "upd_mt v f s = s\<lparr>timers_list := map (\<lambda>mt. if mt_time mt = v then f mt else mt) (timers_list s),
     expired_majors := map (\<lambda>mt. if mt_time mt = v then f mt else mt) (expired_majors s)\<rparr>"

definition free_mt :: "nat \<Rightarrow> timers \<Rightarrow> timers" where
  "free_mt v s = s\<lparr>timers_list := filter (\<lambda>mt. mt_time mt \<noteq> v) (timers_list s),
     expired_majors := filter (\<lambda>mt. mt_time mt \<noteq> v) (expired_majors s)\<rparr>"

text \<open>
  Taking a timer out of the tick it is linked into: when the tick is the timer's own, the first of the
  remaining timers takes it over, and the tick goes when there is none.
\<close>

fun unlink_tick :: "nat \<Rightarrow> timer_tick list \<Rightarrow> timer_tick list" where
  "unlink_tick t [] = []"
| "unlink_tick t (tt # tts) =
     (if t \<in> set (flat (tt_actions tt))
      then (let as = skiplist_del t (tt_actions tt)
            in if tt_owner tt \<noteq> t then tt\<lparr>tt_actions := as\<rparr> # tts
               else case as of
                      [] \<Rightarrow> tts
                    | (a, _) # _ \<Rightarrow> tt\<lparr>tt_owner := a, tt_actions := as\<rparr> # tts)
      else tt # unlink_tick t tts)"

definition delete_timer :: "nat \<Rightarrow> nat \<Rightarrow> timers \<Rightarrow> timers option" where
  "delete_timer min_cached t s =
     (case timer_major s t of
        None \<Rightarrow> Some s
      | Some v \<Rightarrow>
          let s = (if timer_time s t > last_processed_timer_tick s
                   then upd_mt v (\<lambda>mt. mt\<lparr>minor_ticks := map (unlink_tick t) (minor_ticks mt)\<rparr>) s
                   else s\<lparr>tdas := deschedule_deffered_action t (tdas s)\<rparr>);
              s = s\<lparr>timer_major := (timer_major s)(t := None)\<rparr>;
              s = upd_mt v (\<lambda>mt. mt\<lparr>use_counter := use_counter mt - 1\<rparr>) s
          in case find_mt v s of
               None \<Rightarrow> None
             | Some mtt \<Rightarrow>
                 Some (if use_counter mtt = 0
                       then let s = free_mt v s
                            in if num_cached_major_ticks s < min_cached
                               then s\<lparr>num_cached_major_ticks := num_cached_major_ticks s + 1\<rparr> else s
                       else s))"

definition modify_timer :: "nat \<Rightarrow> nat \<Rightarrow> bool \<Rightarrow> bool \<Rightarrow> nat \<Rightarrow> nat \<Rightarrow> timers \<Rightarrow> (int \<times> bool \<times> timers) option" where
  "modify_timer g min_cached mem mem_cache t time_x s =
     (if time_x \<le> system_ticks s then Some (0, True, s)
      else do {
        s \<leftarrow> (if timer_major s t \<noteq> None then delete_timer min_cached t s else Some s);
        add_timer g min_cached mem mem_cache t (s\<lparr>timer_time := (timer_time s)(t := time_x)\<rparr>)
      })"

text \<open>\<open>mem i\<close>: whether the allocation of the \<open>i\<close>-th cached major tick succeeds; the kernel panics otherwise.\<close>

definition init_sw_timers :: "nat \<Rightarrow> nat \<Rightarrow> (nat \<Rightarrow> bool) \<Rightarrow> timers \<Rightarrow> timers option" where
  "init_sw_timers min_cached cached mem s =
     (if min_cached \<le> cached \<and> (\<forall>i < cached. mem i) then Some (s\<lparr>num_cached_major_ticks := cached\<rparr>) else None)"

definition software_timers_init :: "nat \<Rightarrow> nat \<Rightarrow> (nat \<Rightarrow> bool) \<Rightarrow> timers \<Rightarrow> timers option" where
  "software_timers_init min_cached cached mem s =
     do {
       s \<leftarrow> init_sw_timers min_cached cached mem s;
       Some (s\<lparr>tdas := initialize_deffered_actions (tdas s)\<rparr>)
     }"

definition init_timer :: "nat \<Rightarrow> nat \<Rightarrow> def_action_type \<Rightarrow> nat \<Rightarrow> timers \<Rightarrow> timers" where
  "init_timer t tx tp prio s =
     s\<lparr>timer_time := (timer_time s)(t := tx), timer_major := (timer_major s)(t := None),
       tdas := (tdas s)\<lparr>actions := (actions (tdas s))(t := \<lparr>da_type = tp, da_priority = prio, da_host = None\<rparr>)\<rparr>\<rparr>"

definition timer_tick_step :: "nat \<Rightarrow> nat \<Rightarrow> nat \<Rightarrow> timers \<Rightarrow> timers option" where
  "timer_tick_step g c cur s = process_timers g c cur (s\<lparr>system_ticks := system_ticks s + 1\<rparr>)"

section \<open>Well-formed timers\<close>

text \<open>The ticks of a group: sorted, inside the group, not in the past, with the timers due then.\<close>

definition tick_ok :: "timers \<Rightarrow> nat \<Rightarrow> timer_tick \<Rightarrow> bool" where
  "tick_ok s lo tt \<longleftrightarrow> lo \<le> tt_time tt \<and> tt_time tt < lo + MINOR_TICK_GROUP_SIZE \<and> system_ticks s < tt_time tt \<and>
     tt_owner tt \<in> set (flat (tt_actions tt)) \<and> prio_ok (da_prio (tdas s)) (tt_actions tt) \<and> distinct (flat (tt_actions tt)) \<and>
     (\<forall>t \<in> set (flat (tt_actions tt)). timer_time s t = tt_time tt)"

definition group_ok :: "timers \<Rightarrow> nat \<Rightarrow> timer_tick list \<Rightarrow> bool" where
  "group_ok s lo tts \<longleftrightarrow> sorted_wrt (<) (map tt_time tts) \<and> (\<forall>tt \<in> set tts. tick_ok s lo tt)"

definition major_ok :: "nat \<Rightarrow> timers \<Rightarrow> major_timer_tick \<Rightarrow> bool" where
  "major_ok g s mt \<longleftrightarrow> g dvd mt_time mt \<and> system_ticks s + 1 < mt_time mt + g \<and>
     length (minor_ticks mt) = MINOR_TICK_GROUPS g \<and>
     (\<forall>i < MINOR_TICK_GROUPS g. group_ok s (mt_time mt + MINOR_TICK_GROUP_SIZE * i) (minor_ticks mt ! i))"

definition timers_ok :: "nat \<Rightarrow> timers \<Rightarrow> bool" where
  "timers_ok g s \<longleftrightarrow> g > 0 \<and> MINOR_TICK_GROUP_SIZE dvd g \<and> last_processed_timer_tick s \<le> system_ticks s \<and>
     sorted_wrt (<) (map mt_time (timers_list s)) \<and> (\<forall>mt \<in> set (timers_list s). major_ok g s mt)"

text \<open>The timers that are due at a tick, in the order in which their actions are kept.\<close>

definition due_in :: "nat \<Rightarrow> timer_tick list \<Rightarrow> nat list" where
  "due_in n tts = concat (map (\<lambda>tt. flat (tt_actions tt)) (filter (\<lambda>tt. tt_time tt = n) tts))"

definition due_major :: "nat \<Rightarrow> nat \<Rightarrow> major_timer_tick list \<Rightarrow> nat list" where
  "due_major g n mts = concat (map (\<lambda>mt. due_in n (minor_ticks mt ! group_index g n)) (filter (\<lambda>mt. mt_time mt = major_of g n) mts))"

definition due :: "nat \<Rightarrow> timers \<Rightarrow> nat \<Rightarrow> nat list" where
  "due g s n = due_major g n (timers_list s)"

text \<open>The major ticks in use with their reference counts.\<close>

definition majors_used :: "timers \<Rightarrow> (nat \<times> nat) set" where
  "majors_used s = (\<lambda>mt. (mt_time mt, use_counter mt)) ` set (timers_list s @ expired_majors s)"

definition armed :: "nat \<Rightarrow> timers \<Rightarrow> nat \<Rightarrow> bool" where
  "armed g s t \<longleftrightarrow> t \<in> set (due g s (timer_time s t))"

section \<open>Times\<close>

lemma major_of_dvd [simp]: "g dvd major_of g t"
  by (metis dvd_minus_mod major_of_def)

lemma major_of_le [simp]: "major_of g t \<le> t"
  by (simp add: major_of_def)

lemma major_of_gt: "g > 0 \<Longrightarrow> t < major_of g t + g"
  by (metis add.commute add_less_cancel_left div_mult_mod_eq major_of_def minus_mod_eq_div_mult mod_less_divisor mult.commute)

lemma major_unique:
  assumes "g dvd m" "m \<le> t" "t < m + (g :: nat)"
  shows "major_of g t = m"
proof -
  have "t mod g = (t - m) mod g" using assms(1,2)
    by (metis add.right_neutral le_add_diff_inverse2 mod_add_right_eq dvd_imp_mod_0)
  then have "t mod g = t - m" using assms(2,3) by simp
  then show ?thesis using assms(2) by (simp add: major_of_def)
qed

lemma group_index_less:
  assumes "g > 0" "MINOR_TICK_GROUP_SIZE dvd g"
  shows "group_index g t < MINOR_TICK_GROUPS g"
proof -
  have "t - major_of g t < g" using major_of_gt [OF assms(1), of t] major_of_le [of g t] by linarith
  then show ?thesis using assms(2) by (auto simp: group_index_def MINOR_TICK_GROUPS_def MINOR_TICK_GROUP_SIZE_def dvd_def)
qed

lemma group_index_bounds:
  "major_of g t + MINOR_TICK_GROUP_SIZE * group_index g t \<le> t"
  "t < major_of g t + MINOR_TICK_GROUP_SIZE * group_index g t + MINOR_TICK_GROUP_SIZE"
proof -
  have "16 * ((t - major_of g t) div 16) \<le> t - major_of g t" "t - major_of g t < 16 * ((t - major_of g t) div 16) + 16"
    by (simp_all add: dividend_less_times_div)
  then show "major_of g t + MINOR_TICK_GROUP_SIZE * group_index g t \<le> t"
    "t < major_of g t + MINOR_TICK_GROUP_SIZE * group_index g t + MINOR_TICK_GROUP_SIZE"
    using major_of_le [of g t] unfolding group_index_def MINOR_TICK_GROUP_SIZE_def by linarith+
qed

section \<open>Linking and taking ticks\<close>

lemma due_in_simps [simp]:
  "due_in n [] = []" "due_in n (tt # tts) = (if tt_time tt = n then flat (tt_actions tt) else []) @ due_in n tts"
  by (simp_all add: due_in_def)

lemma due_in_none: "(\<forall>tt \<in> set tts. tt_time tt \<noteq> n) \<Longrightarrow> due_in n tts = []"
  by (induction tts) auto

lemma seq_insert_nil [simp]: "seq_insert prio p t [] = [t]"
  by (simp add: seq_insert_def)

lemma link_tick_times: "tt_time ` set (link_tick prio t x tts) \<subseteq> insert x (tt_time ` set tts)"
  by (induction tts) auto

lemma link_tick_spec:
  assumes "group_ok s lo tts" "lo \<le> timer_time s t" "timer_time s t < lo + MINOR_TICK_GROUP_SIZE"
    "system_ticks s < timer_time s t" "t \<notin> set (due_in (timer_time s t) tts)"
  shows "group_ok s lo (link_tick (da_prio (tdas s)) t (timer_time s t) tts) \<and>
    due_in (timer_time s t) (link_tick (da_prio (tdas s)) t (timer_time s t) tts) =
      seq_insert (da_prio (tdas s)) (da_prio (tdas s) t) t (due_in (timer_time s t) tts) \<and>
    (\<forall>m. m \<noteq> timer_time s t \<longrightarrow> due_in m (link_tick (da_prio (tdas s)) t (timer_time s t) tts) = due_in m tts)"
  using assms
proof (induction tts)
  case Nil
  then show ?case by (auto simp: group_ok_def tick_ok_def)
next
  case (Cons tt tts)
  let ?x = "timer_time s t" and ?prio = "da_prio (tdas s)"
  have ok: "group_ok s lo tts" "tick_ok s lo tt" and lt: "\<forall>u \<in> set tts. tt_time tt < tt_time u"
    using Cons.prems(1) by (auto simp: group_ok_def)
  consider (eq) "tt_time tt = ?x" | (gt) "tt_time tt > ?x" | (less) "tt_time tt < ?x" by linarith
  then show ?case
  proof cases
    case eq
    then have n: "due_in ?x tts = []" using lt by (intro due_in_none) auto
    have pk: "prio_ok ?prio (tt_actions tt)" "distinct (flat (tt_actions tt))" using ok(2) by (auto simp: tick_ok_def)
    have "t \<notin> set (flat (tt_actions tt))" using Cons.prems(5) eq by auto
    then have "tick_ok s lo (tt\<lparr>tt_actions := skiplist_add ?prio t (tt_actions tt)\<rparr>)"
      using ok(2) skiplist_add_flat [OF pk(1), of t] eq by (auto simp: tick_ok_def)
    then show ?thesis using eq n lt ok(1) skiplist_add_flat [OF pk(1), of t] by (auto simp: group_ok_def)
  next
    case gt
    then have n: "due_in ?x (tt # tts) = []" using lt by (intro due_in_none) auto
    have "tick_ok s lo \<lparr>tt_time = ?x, tt_owner = t, tt_actions = [(t, [])]\<rparr>" using Cons.prems(2-4) by (auto simp: tick_ok_def)
    then have "group_ok s lo (\<lparr>tt_time = ?x, tt_owner = t, tt_actions = [(t, [])]\<rparr> # tt # tts)" using ok lt gt by (auto simp: group_ok_def)
    then show ?thesis using gt n by simp
  next
    case less
    have "t \<notin> set (due_in ?x tts)" using Cons.prems(5) by auto
    note ih = Cons.IH [OF ok(1) Cons.prems(2-4) this]
    have "\<forall>u \<in> set (link_tick ?prio t ?x tts). tt_time tt < tt_time u"
      using link_tick_times [of ?prio t ?x tts] lt less by (fastforce simp: subset_iff)
    then show ?thesis using ih less ok(2) by (auto simp: group_ok_def)
  qed
qed

lemma take_tick_spec:
  assumes "sorted_wrt (<) (map tt_time tts)" "take_tick n tts = (x, tts')"
  shows "(case x of None \<Rightarrow> due_in n tts = [] | Some tt \<Rightarrow> tt \<in> set tts \<and> tt_time tt = n \<and> due_in n tts = flat (tt_actions tt)) \<and>
    set tts' = {tt \<in> set tts. tt_time tt \<noteq> n} \<and> sorted_wrt (<) (map tt_time tts') \<and>
    (\<forall>m. m \<noteq> n \<longrightarrow> due_in m tts' = due_in m tts)"
  using assms
proof (induction tts arbitrary: tts')
  case Nil
  then show ?case by auto
next
  case (Cons tt tts)
  have lt: "\<forall>u \<in> set tts. tt_time tt < tt_time u" "sorted_wrt (<) (map tt_time tts)" using Cons.prems(1) by auto
  show ?case
  proof (cases "tt_time tt = n")
    case True
    then have "due_in n tts = []" using lt(1) by (intro due_in_none) auto
    then show ?thesis using True Cons.prems lt by auto
  next
    case False
    obtain u where u: "take_tick n tts = (x, u)" "tts' = tt # u" using Cons.prems(2) False by (auto split: prod.splits)
    show ?thesis using Cons.IH [OF lt(2) u(1)] u(2) False lt(1) by (auto split: option.splits)
  qed
qed

lemma find_major_spec:
  assumes "sorted_wrt (<) (map mt_time mts)" "find_major v mts = (xs, m, ys)"
  shows "mts = xs @ (case m of None \<Rightarrow> [] | Some mt \<Rightarrow> [mt]) @ ys \<and> (\<forall>x \<in> set xs. mt_time x < v) \<and>
    (\<forall>y \<in> set ys. v < mt_time y) \<and> (\<forall>mt. m = Some mt \<longrightarrow> mt_time mt = v)"
  using assms
proof (induction v mts arbitrary: xs rule: find_major.induct)
  case (2 v mt mts)
  show ?case
  proof (cases "mt_time mt < v")
    case True
    then obtain us where us: "find_major v mts = (us, m, ys)" "xs = mt # us" using "2.prems"(2) by (auto split: prod.splits)
    have "sorted_wrt (<) (map mt_time mts)" using "2.prems"(1) by simp
    then show ?thesis using "2.IH" us True by auto
  next
    case False
    then show ?thesis using "2.prems" by (fastforce split: if_splits)
  qed
qed auto

section \<open>What is due\<close>

lemma due_major_simps [simp]:
  "due_major g n [] = []"
  "due_major g n (mt # mts) = (if mt_time mt = major_of g n then due_in n (minor_ticks mt ! group_index g n) else []) @ due_major g n mts"
  by (simp_all add: due_major_def)

lemma due_major_append [simp]: "due_major g n (xs @ ys) = due_major g n xs @ due_major g n ys"
  by (simp add: due_major_def)

lemma due_major_none: "(\<forall>mt \<in> set mts. mt_time mt \<noteq> major_of g n) \<Longrightarrow> due_major g n mts = []"
  by (induction mts) auto

lemma due_member:
  assumes "timers_ok g s" "t \<in> set (due g s n)"
  shows "timer_time s t = n \<and> system_ticks s < n"
proof -
  obtain mt where mt: "mt \<in> set (timers_list s)" "t \<in> set (due_in n (minor_ticks mt ! group_index g n))"
    using assms(2) by (auto simp: due_def due_major_def)
  then obtain tt where tt: "tt \<in> set (minor_ticks mt ! group_index g n)" "tt_time tt = n" "t \<in> set (flat (tt_actions tt))"
    by (auto simp: due_in_def)
  have "group_index g n < MINOR_TICK_GROUPS g" using assms(1) by (auto simp: timers_ok_def group_index_less)
  then have "group_ok s (mt_time mt + MINOR_TICK_GROUP_SIZE * group_index g n) (minor_ticks mt ! group_index g n)"
    using assms(1) mt(1) by (auto simp: timers_ok_def major_ok_def)
  then show ?thesis using tt by (auto simp: group_ok_def tick_ok_def)
qed

lemma due_past: "timers_ok g s \<Longrightarrow> n \<le> system_ticks s \<Longrightarrow> due g s n = []"
  by (metis due_member leD list.set_intros(1) neq_Nil_conv)

lemma due_armed: "timers_ok g s \<Longrightarrow> t \<in> set (due g s n) \<Longrightarrow> armed g s t"
  using due_member by (fastforce simp: armed_def)

lemma group_ok_frame:
  assumes "group_ok s lo tts" "system_ticks s' = system_ticks s" "da_prio (tdas s') = da_prio (tdas s)" "timer_time s' = timer_time s"
  shows "group_ok s' lo tts"
  using assms by (simp add: group_ok_def tick_ok_def)

lemma major_ok_frame:
  assumes "major_ok g s mt" "system_ticks s' = system_ticks s" "da_prio (tdas s') = da_prio (tdas s)" "timer_time s' = timer_time s"
  shows "major_ok g s' mt"
  using assms group_ok_frame [of s _ _ s'] by (auto simp: major_ok_def)

section \<open>Adding a timer\<close>

text \<open>The major tick that \<^verbatim>\<open>add_timer\<close> uses: the one found, or a new one.\<close>

lemma major_init_ok:
  assumes "g > 0" "system_ticks s < x"
  shows "major_ok g s (MAJOR_TIMER_TICK_INIT g (major_of g x))"
proof -
  have "system_ticks s + 1 < major_of g x + g" using major_of_gt [OF assms(1), of x] assms(2) by linarith
  then show ?thesis by (auto simp: major_ok_def MAJOR_TIMER_TICK_INIT_def group_ok_def)
qed

lemma major_link_ok:
  assumes ok: "g > 0" "MINOR_TICK_GROUP_SIZE dvd g" "major_ok g s mt" and tm: "mt_time mt = major_of g (timer_time s t)"
    and lt: "system_ticks s < timer_time s t"
    and new: "t \<notin> set (due_in (timer_time s t) (minor_ticks mt ! group_index g (timer_time s t)))"
    and def: "mt' = mt\<lparr>minor_ticks := (minor_ticks mt)[group_index g (timer_time s t) :=
      link_tick (da_prio (tdas s)) t (timer_time s t) (minor_ticks mt ! group_index g (timer_time s t))]\<rparr>"
  shows "major_ok g s mt' \<and>
    due_in (timer_time s t) (minor_ticks mt' ! group_index g (timer_time s t)) =
      seq_insert (da_prio (tdas s)) (da_prio (tdas s) t) t (due_in (timer_time s t) (minor_ticks mt ! group_index g (timer_time s t))) \<and>
    (\<forall>m. m \<noteq> timer_time s t \<longrightarrow> due_in m (minor_ticks mt' ! group_index g m) = due_in m (minor_ticks mt ! group_index g m))"
proof -
  let ?x = "timer_time s t" let ?i = "group_index g ?x"
  have i: "?i < MINOR_TICK_GROUPS g" "length (minor_ticks mt) = MINOR_TICK_GROUPS g"
    using group_index_less [OF ok(1,2)] ok(3) by (auto simp: major_ok_def)
  have gk: "group_ok s (mt_time mt + MINOR_TICK_GROUP_SIZE * ?i) (minor_ticks mt ! ?i)"
    using ok(3) i(1) by (auto simp: major_ok_def)
  have b: "mt_time mt + MINOR_TICK_GROUP_SIZE * ?i \<le> ?x" "?x < mt_time mt + MINOR_TICK_GROUP_SIZE * ?i + MINOR_TICK_GROUP_SIZE"
    using group_index_bounds(1) [of g ?x] group_index_bounds(2) [of ?x g] tm by auto
  note l = link_tick_spec [OF gk b lt new]
  have "major_ok g s mt'" using l ok(3) i by (auto simp: major_ok_def def nth_list_update)
  moreover have "due_in m (minor_ticks mt' ! group_index g m) = due_in m (minor_ticks mt ! group_index g m)" if "m \<noteq> ?x" for m
    using l that i by (cases "group_index g m = ?i") (simp_all add: def)
  ultimately show ?thesis using l i by (simp add: def)
qed

lemma add_timer_state:
  assumes f: "find_major (major_of g (timer_time s t)) (timers_list s) = (xs, found, ys)"
    and lt: "system_ticks s < timer_time s t" "last_processed_timer_tick s < timer_time s t"
    and mem: "mem \<or> num_cached_major_ticks s > 0"
    and mt: "mt = (case found of Some mt \<Rightarrow> mt\<lparr>use_counter := use_counter mt + 1\<rparr>
      | None \<Rightarrow> MAJOR_TIMER_TICK_INIT g (major_of g (timer_time s t)))"
    and len: "group_index g (timer_time s t) < length (minor_ticks mt)"
  shows "\<exists>s'. add_timer g min_cached mem mem_cache t s = Some (0, False, s') \<and>
    timers_list s' = xs @ mt\<lparr>minor_ticks := (minor_ticks mt)[group_index g (timer_time s t) :=
      link_tick (da_prio (tdas s)) t (timer_time s t) (minor_ticks mt ! group_index g (timer_time s t))]\<rparr> # ys \<and>
    last_processed_timer_tick s' = last_processed_timer_tick s \<and>
    system_ticks s' = system_ticks s \<and> timer_time s' = timer_time s \<and> tdas s' = tdas s \<and>
    timer_major s' = (timer_major s)(t \<mapsto> major_of g (timer_time s t)) \<and> expired_majors s' = expired_majors s"
proof (cases found)
  case None
  then show ?thesis using lt mem len mt by (cases "0 < num_cached_major_ticks s") (simp_all add: add_timer_def f Let_def)
next
  case (Some m)
  then show ?thesis using lt len mt by (simp add: add_timer_def f Let_def)
qed

lemma add_timer_spec:
  assumes ok: "timers_ok g s" and lt: "system_ticks s < timer_time s t" and new: "\<not> armed g s t"
    and mem: "mem \<or> num_cached_major_ticks s > 0"
  shows "\<exists>s'. add_timer g min_cached mem mem_cache t s = Some (0, False, s') \<and> timers_ok g s' \<and>
    due g s' (timer_time s t) = seq_insert (da_prio (tdas s)) (da_prio (tdas s) t) t (due g s (timer_time s t)) \<and>
    (\<forall>m. m \<noteq> timer_time s t \<longrightarrow> due g s' m = due g s m) \<and>
    system_ticks s' = system_ticks s \<and> timer_time s' = timer_time s \<and> tdas s' = tdas s \<and>
    last_processed_timer_tick s' = last_processed_timer_tick s \<and>
    timer_major s' = (timer_major s)(t \<mapsto> major_of g (timer_time s t)) \<and> expired_majors s' = expired_majors s \<and>
    (\<exists>xs ys mt. timers_list s' = xs @ mt # ys \<and> mt_time mt = major_of g (timer_time s t) \<and>
      (timers_list s = xs @ ys \<and> use_counter mt = 1 \<and> (\<forall>m \<in> set (xs @ ys). mt_time m \<noteq> mt_time mt) \<or>
       (\<exists>m. timers_list s = xs @ m # ys \<and> mt_time m = mt_time mt \<and> use_counter mt = use_counter m + 1)))"
proof -
  let ?x = "timer_time s t" let ?i = "group_index g ?x" and ?v = "major_of g (timer_time s t)"
  obtain xs found ys where f: "find_major ?v (timers_list s) = (xs, found, ys)" by (metis prod_cases3)
  have k: "g > 0" "MINOR_TICK_GROUP_SIZE dvd g" "last_processed_timer_tick s \<le> system_ticks s"
    "sorted_wrt (<) (map mt_time (timers_list s))" "\<forall>mt \<in> set (timers_list s). major_ok g s mt"
    using ok by (auto simp: timers_ok_def)
  note fs = find_major_spec [OF k(4) f]
  define mt where "mt = (case found of Some mt \<Rightarrow> mt\<lparr>use_counter := use_counter mt + 1\<rparr> | None \<Rightarrow> MAJOR_TIMER_TICK_INIT g ?v)"
  have mok: "major_ok g s mt" "mt_time mt = ?v"
    using fs k(5) major_init_ok [OF k(1) lt]
    by (auto simp: mt_def major_ok_def MAJOR_TIMER_TICK_INIT_def split: option.splits)
  have dm: "due g s m = (if major_of g m = ?v then due_in m (minor_ticks mt ! group_index g m)
    else due_major g m xs @ due_major g m ys)" for m
  proof (cases "major_of g m = ?v")
    case True
    then have "due_major g m xs = []" "due_major g m ys = []" using fs by (auto intro!: due_major_none)
    then show ?thesis using fs True group_index_less [OF k(1,2), of m]
      by (cases found) (auto simp: due_def mt_def MAJOR_TIMER_TICK_INIT_def)
  next
    case False
    then show ?thesis using fs by (cases found) (auto simp: due_def)
  qed
  have new': "t \<notin> set (due_in ?x (minor_ticks mt ! ?i))" using new dm [of ?x] by (simp add: armed_def)
  define mt' where "mt' = mt\<lparr>minor_ticks := (minor_ticks mt)[?i := link_tick (da_prio (tdas s)) t ?x (minor_ticks mt ! ?i)]\<rparr>"
  note ml = major_link_ok [OF k(1,2) mok lt new' mt'_def]
  have len: "?i < length (minor_ticks mt)" using group_index_less [OF k(1,2), of ?x] mok(1) by (simp add: major_ok_def)
  obtain s' where s': "add_timer g min_cached mem mem_cache t s = Some (0, False, s')" "timers_list s' = xs @ mt' # ys"
    "last_processed_timer_tick s' = last_processed_timer_tick s"
    "system_ticks s' = system_ticks s" "timer_time s' = timer_time s" "tdas s' = tdas s"
    "timer_major s' = (timer_major s)(t \<mapsto> ?v)" "expired_majors s' = expired_majors s"
    using add_timer_state [OF f lt order.strict_trans1 [OF k(3) lt] mem mt_def len, of min_cached mem_cache, folded mt'_def] by (elim exE conjE)
  have t': "mt_time mt' = ?v" using mok(2) by (simp add: mt'_def)
  have so: "sorted_wrt (<) (map mt_time (timers_list s'))"
    using k(4) fs t' by (cases found) (auto simp: s' sorted_wrt_append intro: order.strict_trans)
  have "\<forall>mt \<in> set (timers_list s'). major_ok g s mt" using k(5) fs ml by (auto simp: s'(2))
  then have tok: "timers_ok g s'" using so k s' by (auto simp: timers_ok_def intro: major_ok_frame)
  have dm': "due g s' m = (if major_of g m = ?v then due_in m (minor_ticks mt' ! group_index g m)
    else due_major g m xs @ due_major g m ys)" for m
  proof (cases "major_of g m = ?v")
    case True
    then have "due_major g m xs = []" "due_major g m ys = []" using fs by (auto intro!: due_major_none)
    then show ?thesis using t' True by (simp add: due_def s'(2))
  qed (simp add: due_def s'(2) t')
  have use: "timers_list s = xs @ ys \<and> use_counter mt' = 1 \<and> (\<forall>m \<in> set (xs @ ys). mt_time m \<noteq> mt_time mt') \<or>
    (\<exists>m. timers_list s = xs @ m # ys \<and> mt_time m = mt_time mt' \<and> use_counter mt' = use_counter m + 1)"
    using fs t' by (cases found) (auto simp: mt'_def mt_def MAJOR_TIMER_TICK_INIT_def)
  have "due g s' ?x = seq_insert (da_prio (tdas s)) (da_prio (tdas s) t) t (due g s ?x)"
    "\<forall>m. m \<noteq> ?x \<longrightarrow> due g s' m = due g s m" using ml by (simp_all add: dm dm')
  moreover have "\<exists>xs ys mt. timers_list s' = xs @ mt # ys \<and> mt_time mt = ?v \<and>
      (timers_list s = xs @ ys \<and> use_counter mt = 1 \<and> (\<forall>m \<in> set (xs @ ys). mt_time m \<noteq> mt_time mt) \<or>
       (\<exists>m. timers_list s = xs @ m # ys \<and> mt_time m = mt_time mt \<and> use_counter mt = use_counter m + 1))"
    using s'(2) t' use by (intro exI [of _ xs] exI [of _ ys] exI [of _ mt'] conjI)
  ultimately show ?thesis using s'(1,3-8) tok by (intro exI [of _ s'] conjI)
qed

section \<open>A tick\<close>

lemma tick_ok_next:
  assumes "tick_ok s lo tt" "tt_time tt \<noteq> system_ticks s + 1" "system_ticks s' = system_ticks s + 1"
    "da_prio (tdas s') = da_prio (tdas s)" "timer_time s' = timer_time s"
  shows "tick_ok s' lo tt"
  using assms by (auto simp: tick_ok_def)

lemma major_later:
  assumes "g > 0" "major_ok g s mt" "major_of g (system_ticks s + 1) < mt_time mt" "system_ticks s' = system_ticks s + 1"
    "da_prio (tdas s') = da_prio (tdas s)" "timer_time s' = timer_time s"
  shows "major_ok g s' mt"
proof -
  have lt: "system_ticks s + 1 < mt_time mt"
  proof (rule ccontr)
    assume "\<not> system_ticks s + 1 < mt_time mt"
    then have "major_of g (system_ticks s + 1) = mt_time mt" using assms(2) by (intro major_unique) (auto simp: major_ok_def)
    then show False using assms(3) by simp
  qed
  have "group_ok s' (mt_time mt + MINOR_TICK_GROUP_SIZE * i) (minor_ticks mt ! i)" if i: "i < MINOR_TICK_GROUPS g" for i
  proof -
    have k: "group_ok s (mt_time mt + MINOR_TICK_GROUP_SIZE * i) (minor_ticks mt ! i)" using assms(2) i by (simp add: major_ok_def)
    have "tick_ok s' (mt_time mt + MINOR_TICK_GROUP_SIZE * i) tt" if "tt \<in> set (minor_ticks mt ! i)" for tt
    proof -
      have r: "tick_ok s (mt_time mt + MINOR_TICK_GROUP_SIZE * i) tt" using that k by (simp add: group_ok_def)
      then have "tt_time tt \<noteq> system_ticks s + 1" using lt by (simp add: tick_ok_def)
      then show ?thesis using tick_ok_next [OF r _ assms(4-6)] by simp
    qed
    then show ?thesis using k by (auto simp: group_ok_def)
  qed
  then show ?thesis using assms(1,2,4) lt by (auto simp: major_ok_def)
qed

text \<open>The current major tick once the ticks of the current time are taken out of their group.\<close>

lemma major_taken:
  assumes g: "g > 0" "MINOR_TICK_GROUP_SIZE dvd g" and mk: "major_ok g s mt" and n: "n = system_ticks s + 1"
    and v: "mt_time mt = major_of g n" and tk: "take_tick n (minor_ticks mt ! group_index g n) = (x, lh)"
    and s': "system_ticks s' = n" "da_prio (tdas s') = da_prio (tdas s)" "timer_time s' = timer_time s"
    and i: "i < MINOR_TICK_GROUPS g"
  shows "group_ok s' (mt_time mt + MINOR_TICK_GROUP_SIZE * i) ((minor_ticks mt)[group_index g n := lh] ! i)"
proof -
  let ?j = "group_index g n" and ?lo = "mt_time mt + MINOR_TICK_GROUP_SIZE * i"
  have len: "length (minor_ticks mt) = MINOR_TICK_GROUPS g" using mk by (simp add: major_ok_def)
  have k: "group_ok s ?lo (minor_ticks mt ! i)" using mk i by (simp add: major_ok_def)
  show ?thesis
  proof (cases "i = ?j")
    case True
    have "sorted_wrt (<) (map tt_time (minor_ticks mt ! ?j))" using k True by (simp add: group_ok_def)
    note t = take_tick_spec [OF this tk]
    have "tick_ok s' ?lo tt" if "tt \<in> set lh" for tt
    proof -
      have "tick_ok s ?lo tt" "tt_time tt \<noteq> n" using that t True k by (simp_all add: group_ok_def)
      then show ?thesis using tick_ok_next [of s ?lo tt s'] s' n by metis
    qed
    then show ?thesis using t True i len by (simp add: group_ok_def)
  next
    case False
    have b: "mt_time mt + MINOR_TICK_GROUP_SIZE * ?j \<le> n" "n < mt_time mt + MINOR_TICK_GROUP_SIZE * ?j + MINOR_TICK_GROUP_SIZE"
      using group_index_bounds(1) [of g n] group_index_bounds(2) [of n g] v by auto
    have "tick_ok s' ?lo tt" if tt: "tt \<in> set (minor_ticks mt ! i)" for tt
    proof -
      have r: "tick_ok s ?lo tt" using tt k by (simp add: group_ok_def)
      then have "?lo \<le> tt_time tt" "tt_time tt < ?lo + MINOR_TICK_GROUP_SIZE" by (auto simp: tick_ok_def)
      moreover have "i + 1 \<le> ?j \<or> ?j + 1 \<le> i" using False by linarith
      ultimately have "tt_time tt \<noteq> n" using b unfolding MINOR_TICK_GROUP_SIZE_def by linarith
      then show ?thesis using tick_ok_next [of s ?lo tt s'] r s' n by metis
    qed
    then show ?thesis using k False i len by (simp add: group_ok_def)
  qed
qed

text \<open>No major tick covers the current time: nothing is due and nothing changes.\<close>

lemma tick_idle:
  assumes ok: "timers_ok g s" and n: "n = system_ticks s + 1"
    and later: "\<forall>mt \<in> set (timers_list s). major_of g n < mt_time mt"
  shows "timers_ok g (s\<lparr>system_ticks := n\<rparr>) \<and> due g s n = []"
proof -
  have "\<forall>mt \<in> set (timers_list s). major_ok g (s\<lparr>system_ticks := n\<rparr>) mt"
  proof
    fix mt assume mt: "mt \<in> set (timers_list s)"
    have k: "g > 0" "major_ok g s mt" using ok mt by (simp_all add: timers_ok_def)
    show "major_ok g (s\<lparr>system_ticks := n\<rparr>) mt"
      using major_later [OF k, of "s\<lparr>system_ticks := n\<rparr>"] later mt n by simp
  qed
  moreover have "due g s n = []" using later by (auto simp: due_def intro!: due_major_none)
  ultimately show ?thesis using ok n by (auto simp: timers_ok_def)
qed

lemma first_major:
  assumes ok: "timers_ok g s" and n: "n = system_ticks s + 1" and l: "timers_list s = mt # mts" and le: "mt_time mt \<le> major_of g n"
  shows "mt_time mt = major_of g n \<and> (\<forall>m \<in> set mts. major_of g n < mt_time m)"
proof -
  have "major_ok g s mt" using ok l by (simp add: timers_ok_def)
  moreover have "mt_time mt \<le> n" using le major_of_le [of g n] by linarith
  ultimately have "major_of g n = mt_time mt" using n by (intro major_unique) (auto simp: major_ok_def)
  then show ?thesis using ok l by (simp add: timers_ok_def)
qed

lemma major_expired:
  assumes ok: "major_ok g s mt" "g > 0" "MINOR_TICK_GROUP_SIZE dvd g" and n: "n = mt_time mt + g - 1" "n = system_ticks s + 1"
    and m: "mt_time mt = major_of g m" "m \<noteq> n"
  shows "due_in m (minor_ticks mt ! group_index g m) = []"
proof (rule due_in_none, rule ballI)
  fix tt assume tt: "tt \<in> set (minor_ticks mt ! group_index g m)"
  have "group_index g m < MINOR_TICK_GROUPS g" using group_index_less ok by blast
  then have "system_ticks s < tt_time tt" using ok(1) tt by (auto simp: major_ok_def group_ok_def tick_ok_def)
  moreover have "m < mt_time mt + g" using major_of_gt [OF ok(2), of m] m by simp
  ultimately show "tt_time tt \<noteq> m" using n m ok(2) by linarith
qed

lemma tick_state:
  assumes l: "timers_list s = mt # mts" "mt_time mt \<le> major_of g n" and n: "n = system_ticks s + 1"
    and j: "group_index g n < length (minor_ticks mt)" and tk: "take_tick n (minor_ticks mt ! group_index g n) = (x, lh)"
  shows "\<exists>s'. timer_tick_step g c cur s = Some s' \<and>
    timers_list s' = (if n = mt_time mt + g - 1 then mts else mt\<lparr>minor_ticks := (minor_ticks mt)[group_index g n := lh]\<rparr> # mts) \<and>
    tdas s' = (case x of None \<Rightarrow> tdas s | Some tt \<Rightarrow> schedule_deffered_actions c cur (tt_actions tt) (tdas s)) \<and>
    system_ticks s' = n \<and> timer_time s' = timer_time s \<and>
    last_processed_timer_tick s' = (if x = None then last_processed_timer_tick s else n) \<and> timer_major s' = timer_major s \<and>
    expired_majors s' = (if n = mt_time mt + g - 1 \<and> use_counter mt \<noteq> 0
      then mt\<lparr>minor_ticks := (minor_ticks mt)[group_index g n := lh]\<rparr> # expired_majors s else expired_majors s)"
proof -
  have j': "(n - major_of g n) div MINOR_TICK_GROUP_SIZE = group_index g n" by (simp add: group_index_def)
  show ?thesis using l j tk n [symmetric]
    by (cases x) (simp_all add: timer_tick_step_def process_timers_def Let_def j' not_less)
qed

lemma tick_schedules:
  assumes ok: "timers_ok g s" and da: "da_ok (tdas s) c" and dis: "\<forall>t \<in> set (pending (tdas s) c). \<not> armed g s t"
    and gk: "group_ok s lo tts" and tk: "take_tick n tts = (x, lh)" and dn: "due g s n = due_in n tts"
    and das: "das = (case x of None \<Rightarrow> tdas s | Some tt \<Rightarrow> schedule_deffered_actions c cur (tt_actions tt) (tdas s))"
  shows "pending das c = seq_insert_all (da_prio (tdas s)) (due g s n) (pending (tdas s) c) \<and> da_ok das c \<and>
    actions das = actions (tdas s)"
proof -
  have "sorted_wrt (<) (map tt_time tts)" using gk by (simp add: group_ok_def)
  note ts = take_tick_spec [OF this tk]
  show ?thesis
  proof (cases x)
    case None
    then show ?thesis using ts dn da by (simp add: das)
  next
    case (Some tt)
    have f: "due g s n = flat (tt_actions tt)" "tt \<in> set tts" using ts Some dn by auto
    then have k: "prio_ok (da_prio (tdas s)) (tt_actions tt)" "distinct (flat (tt_actions tt))"
      using gk by (simp_all add: group_ok_def tick_ok_def)
    have "set (flat (tt_actions tt)) \<inter> set (pending (tdas s) c) = {}" using f(1) dis due_armed [OF ok] by (metis disjoint_iff)
    from schedule_actions_spec [OF k(1) da k(2) this] show ?thesis by (simp add: das Some f(1))
  qed
qed

lemma tick_current:
  assumes ok: "timers_ok g s" and n: "n = system_ticks s + 1" and l: "timers_list s = mt # mts" "mt_time mt \<le> major_of g n"
    and tk: "take_tick n (minor_ticks mt ! group_index g n) = (x, lh)"
    and s': "timers_list s' = (if n = mt_time mt + g - 1 then mts else mt\<lparr>minor_ticks := (minor_ticks mt)[group_index g n := lh]\<rparr> # mts)"
      "da_prio (tdas s') = da_prio (tdas s)" "system_ticks s' = n" "timer_time s' = timer_time s" "last_processed_timer_tick s' \<le> n"
  shows "timers_ok g s' \<and> (\<forall>m. m \<noteq> n \<longrightarrow> due g s' m = due g s m)"
proof -
  let ?mt = "mt\<lparr>minor_ticks := (minor_ticks mt)[group_index g n := lh]\<rparr>"
  have g: "g > 0" "MINOR_TICK_GROUP_SIZE dvd g" and mk: "major_ok g s mt" "\<forall>m \<in> set mts. major_ok g s m"
    and so: "sorted_wrt (<) (map mt_time (mt # mts))"
    using ok l by (auto simp: timers_ok_def)
  note fm = first_major [OF ok n l]
  have j: "group_index g n < length (minor_ticks mt)" using mk(1) group_index_less [OF g, of n] by (simp add: major_ok_def)
  have gk: "group_ok s (mt_time mt + MINOR_TICK_GROUP_SIZE * group_index g n) (minor_ticks mt ! group_index g n)"
    using mk(1) group_index_less [OF g, of n] by (simp add: major_ok_def)
  then have "sorted_wrt (<) (map tt_time (minor_ticks mt ! group_index g n))" by (simp add: group_ok_def)
  note ts = take_tick_spec [OF this tk]
  have rest: "\<forall>m \<in> set mts. major_ok g s' m"
  proof
    fix m assume m: "m \<in> set mts"
    show "major_ok g s' m" using major_later [OF g(1), of s m s'] mk(2) fm m s'(2-4) n by simp
  qed
  have "major_ok g s' ?mt" if "n \<noteq> mt_time mt + g - 1"
    using that mk(1) n s'(3) g(1) major_taken [OF g mk(1) n conjunct1 [OF fm] tk s'(3,2,4)] by (auto simp: major_ok_def)
  then have "timers_ok g s'" using rest so g s' by (auto simp: timers_ok_def)
  moreover have "due g s' m = due g s m" if m: "m \<noteq> n" for m
  proof (cases "n = mt_time mt + g - 1")
    case True
    then show ?thesis using major_expired [OF mk(1) g True n _ m] l s'(1) by (simp add: due_def)
  next
    case False
    then show ?thesis using ts m j l s'(1) by (cases "group_index g m = group_index g n") (simp_all add: due_def)
  qed
  ultimately show ?thesis by blast
qed

lemma timer_step_spec:
  assumes ok: "timers_ok g s" and da: "da_ok (tdas s) c" and dis: "\<forall>t \<in> set (pending (tdas s) c). \<not> armed g s t"
    and n: "n = system_ticks s + 1"
  shows "\<exists>s'. timer_tick_step g c cur s = Some s' \<and> timers_ok g s' \<and> da_ok (tdas s') c \<and>
    pending (tdas s') c = seq_insert_all (da_prio (tdas s)) (due g s n) (pending (tdas s) c) \<and>
    (\<forall>m. m \<noteq> n \<longrightarrow> due g s' m = due g s m) \<and>
    system_ticks s' = n \<and> timer_time s' = timer_time s \<and> actions (tdas s') = actions (tdas s) \<and>
    timer_major s' = timer_major s \<and> (due g s n \<noteq> [] \<longrightarrow> last_processed_timer_tick s' = n) \<and>
    last_processed_timer_tick s \<le> last_processed_timer_tick s' \<and>
    ((\<forall>(v, u) \<in> majors_used s. 0 < u) \<longrightarrow> majors_used s' = majors_used s \<and> (expired_majors s' = expired_majors s \<or>
      (\<exists>m. expired_majors s' = m # expired_majors s \<and> mt_time m + g = n + 1)))"
proof (cases "timers_list s = [] \<or> major_of g n < mt_time (hd (timers_list s))")
  case True
  have "\<forall>mt \<in> set (timers_list s). major_of g n < mt_time mt"
    using True ok by (cases "timers_list s") (auto simp: timers_ok_def)
  note i = tick_idle [OF ok n this]
  have "timer_tick_step g c cur s = Some (s\<lparr>system_ticks := n\<rparr>)"
    using True n by (cases "timers_list s") (auto simp: timer_tick_step_def process_timers_def Let_def)
  then show ?thesis using i da by (simp add: due_def majors_used_def)
next
  case False
  then obtain mt mts where l: "timers_list s = mt # mts" "mt_time mt \<le> major_of g n" by (cases "timers_list s") auto
  have g: "g > 0" "MINOR_TICK_GROUP_SIZE dvd g" and mk: "major_ok g s mt" and lp: "last_processed_timer_tick s \<le> system_ticks s"
    using ok l by (auto simp: timers_ok_def)
  note fm = first_major [OF ok n l]
  have j: "group_index g n < MINOR_TICK_GROUPS g" "length (minor_ticks mt) = MINOR_TICK_GROUPS g"
    using mk group_index_less [OF g, of n] by (simp_all add: major_ok_def)
  obtain x lh where tk: "take_tick n (minor_ticks mt ! group_index g n) = (x, lh)" by fastforce
  have gk: "group_ok s (mt_time mt + MINOR_TICK_GROUP_SIZE * group_index g n) (minor_ticks mt ! group_index g n)"
    using mk j by (simp add: major_ok_def)
  have "due_major g n mts = []" using fm by (auto intro!: due_major_none)
  then have dn: "due g s n = due_in n (minor_ticks mt ! group_index g n)" using fm l by (simp add: due_def)
  from j have j': "group_index g n < length (minor_ticks mt)" by simp
  obtain s' where s': "timer_tick_step g c cur s = Some s'"
    "timers_list s' = (if n = mt_time mt + g - 1 then mts else mt\<lparr>minor_ticks := (minor_ticks mt)[group_index g n := lh]\<rparr> # mts)"
    "tdas s' = (case x of None \<Rightarrow> tdas s | Some tt \<Rightarrow> schedule_deffered_actions c cur (tt_actions tt) (tdas s))"
    "system_ticks s' = n" "timer_time s' = timer_time s"
    "last_processed_timer_tick s' = (if x = None then last_processed_timer_tick s else n)" "timer_major s' = timer_major s"
    "expired_majors s' = (if n = mt_time mt + g - 1 \<and> use_counter mt \<noteq> 0
      then mt\<lparr>minor_ticks := (minor_ticks mt)[group_index g n := lh]\<rparr> # expired_majors s else expired_majors s)"
    using tick_state [OF l n j' tk, of c cur] by (elim exE conjE)
  note sch = tick_schedules [OF ok da dis gk tk dn s'(3)]
  then have "da_prio (tdas s') = da_prio (tdas s)" by (auto simp: da_prio_def)
  moreover have "last_processed_timer_tick s' \<le> n" using lp n s'(6) by (simp split: if_splits)
  ultimately have cu: "timers_ok g s' \<and> (\<forall>m. m \<noteq> n \<longrightarrow> due g s' m = due g s m)"
    by (rule tick_current [OF ok n l tk s'(2) _ s'(4,5)])
  have "sorted_wrt (<) (map tt_time (minor_ticks mt ! group_index g n))" using gk by (simp add: group_ok_def)
  from take_tick_spec [OF this tk] have lt: "due g s n \<noteq> [] \<longrightarrow> last_processed_timer_tick s' = n" using dn s'(6) by (cases x) auto
  have "majors_used s' = majors_used s \<and> (expired_majors s' = expired_majors s \<or>
      (\<exists>m. expired_majors s' = m # expired_majors s \<and> mt_time m + g = n + 1))" if "use_counter mt > 0"
    using that s'(2,8) l(1) g(1) by (auto simp: majors_used_def)
  then have "(\<forall>(v, u) \<in> majors_used s. 0 < u) \<longrightarrow> majors_used s' = majors_used s \<and> (expired_majors s' = expired_majors s \<or>
      (\<exists>m. expired_majors s' = m # expired_majors s \<and> mt_time m + g = n + 1))"
    using l(1) by (auto simp: majors_used_def)
  moreover have "last_processed_timer_tick s \<le> last_processed_timer_tick s'" using lp n s'(6) by simp
  ultimately show ?thesis using s'(1,4,5,7) sch cu lt by blast
qed

end
