(* ===== verification/Timer_Runs.thy ===== *)
theory Timer_Runs
  imports Timers
begin

text \<open>
  Runs of the software timers. Timers are created, armed, modified and deleted while the clock ticks and
  the deferred actions fire. The invariant ties the reference count of a major tick to the timers that
  point to it, so that no timer is lost when a major tick goes and none outlives it.
\<close>

section \<open>References to major ticks\<close>

definition refs_ok :: "nat \<Rightarrow> timers \<Rightarrow> bool" where
  "refs_ok g s \<longleftrightarrow> finite {t. timer_major s t \<noteq> None} \<and> distinct (map mt_time (expired_majors s)) \<and>
     (\<forall>v \<in> set (map mt_time (expired_majors s)). v + g \<le> system_ticks s + 1) \<and>
     (\<forall>(v, u) \<in> majors_used s. u = card {t. timer_major s t = Some v} \<and> 0 < u) \<and>
     (\<forall>t v. timer_major s t = Some v \<longrightarrow> v \<in> fst ` majors_used s)"

definition timers_inv :: "nat \<Rightarrow> nat \<Rightarrow> timers \<Rightarrow> bool" where
  "timers_inv g c s \<longleftrightarrow> timers_ok g s \<and> da_ok (tdas s) c \<and> refs_ok g s \<and>
     (\<forall>t. armed g s t \<longrightarrow> timer_major s t = Some (major_of g (timer_time s t)) \<and> t \<notin> set (pending (tdas s) c)) \<and>
     (\<forall>t \<in> set (pending (tdas s) c). timer_major s t \<noteq> None \<and> timer_time s t \<le> last_processed_timer_tick s)"

lemma majors_used_upd:
  assumes "\<And>mt. mt_time (f mt) = mt_time mt" "\<And>mt. use_counter (f mt) = h (use_counter mt)"
  shows "majors_used (upd_mt v f s) = (\<lambda>(w, u). (w, if w = v then h u else u)) ` majors_used s"
proof -
  have "set (timers_list (upd_mt v f s) @ expired_majors (upd_mt v f s)) =
    (\<lambda>mt. if mt_time mt = v then f mt else mt) ` set (timers_list s @ expired_majors s)" by (auto simp: upd_mt_def)
  then show ?thesis unfolding majors_used_def by (simp only: image_image) (rule image_cong, simp_all add: assms)
qed

lemma find_someD: "find P xs = Some x \<Longrightarrow> x \<in> set xs \<and> P x"
  by (induction xs) (auto split: if_splits)

lemma majors_used_free: "majors_used (free_mt v s) = {(w, u) \<in> majors_used s. w \<noteq> v}"
  by (auto simp: majors_used_def free_mt_def)

lemma find_mt_used:
  assumes "v \<in> fst ` majors_used s"
  shows "\<exists>mt. find_mt v s = Some mt \<and> (v, use_counter mt) \<in> majors_used s"
proof -
  have "find_mt v s \<noteq> None" using assms unfolding find_mt_def find_None_iff majors_used_def by auto
  then obtain mt where mt: "find_mt v s = Some mt" by blast
  then have "mt \<in> set (timers_list s @ expired_majors s)" "mt_time mt = v" unfolding find_mt_def by (auto dest: find_someD)
  then show ?thesis using mt by (auto simp: majors_used_def)
qed

lemma expired_times_upd:
  "(\<And>mt. mt_time (f mt) = mt_time mt) \<Longrightarrow> map mt_time (expired_majors (upd_mt v f s)) = map mt_time (expired_majors s)"
  by (simp add: upd_mt_def)

lemma refs_ok_frame:
  assumes "refs_ok g s" "timer_major s' = timer_major s" "majors_used s' = majors_used s" "system_ticks s \<le> system_ticks s'"
    "map mt_time (expired_majors s') = map mt_time (expired_majors s)"
  shows "refs_ok g s'"
  using assms unfolding refs_ok_def by fastforce

lemma refs_ok_tick:
  assumes "refs_ok g s" "timer_major s' = timer_major s" "majors_used s' = majors_used s" "system_ticks s' = system_ticks s + 1"
    "expired_majors s' = expired_majors s \<or> (\<exists>m. expired_majors s' = m # expired_majors s \<and> mt_time m + g = system_ticks s' + 1)"
  shows "refs_ok g s'"
  using assms unfolding refs_ok_def by fastforce

lemma refs_ok_add:
  assumes ok: "refs_ok g s" and new: "timer_major s t = None" and tm: "timer_major s' = (timer_major s)(t \<mapsto> v)"
    and ex: "expired_majors s' = expired_majors s" "system_ticks s' = system_ticks s"
    and l: "timers_list s' = xs @ mt # ys" "mt_time mt = v"
    and old: "timers_list s = xs @ ys \<and> use_counter mt = 1 \<and> (\<forall>m \<in> set (timers_list s @ expired_majors s). mt_time m \<noteq> v) \<or>
       (\<exists>m. timers_list s = xs @ m # ys \<and> mt_time m = v \<and> use_counter mt = use_counter m + 1 \<and>
         (\<forall>m \<in> set (xs @ ys @ expired_majors s). mt_time m \<noteq> v))"
  shows "refs_ok g s'"
proof -
  have "finite {x. timer_major s x \<noteq> None}" using ok by (simp add: refs_ok_def)
  then have f: "finite {x. timer_major s x = Some w}" for w by (rule rev_finite_subset) auto
  have c: "{x. timer_major s' x = Some w} = (if w = v then insert t {x. timer_major s x = Some w} else {x. timer_major s x = Some w})" for w
    using new tm by auto
  then have card: "card {x. timer_major s' x = Some w} = (if w = v then card {x. timer_major s x = Some w} + 1 else card {x. timer_major s x = Some w})" for w
    using f new by simp
  have "{x. timer_major s' x \<noteq> None} \<subseteq> insert t {x. timer_major s x \<noteq> None}" using tm by auto
  then have fin: "finite {x. timer_major s' x \<noteq> None}" using ok by (auto simp: refs_ok_def intro: finite_subset)
  have mu: "\<forall>(w, u) \<in> majors_used s. u = card {x. timer_major s x = Some w} \<and> 0 < u" "\<forall>x w. timer_major s x = Some w \<longrightarrow> w \<in> fst ` majors_used s"
    using ok by (auto simp: refs_ok_def)
  have a: "u = card {x. timer_major s' x = Some w} \<and> 0 < u" if "(w, u) \<in> majors_used s'" for w u
    using old
  proof
    assume n: "timers_list s = xs @ ys \<and> use_counter mt = 1 \<and> (\<forall>m \<in> set (timers_list s @ expired_majors s). mt_time m \<noteq> v)"
    then have "v \<notin> fst ` majors_used s" by (auto simp: majors_used_def)
    then have "{x. timer_major s x = Some v} = {}" using mu(2) by blast
    then have z: "card {x. timer_major s x = Some v} = 0" by simp
    have "(w, u) = (v, 1) \<or> w \<noteq> v \<and> (w, u) \<in> majors_used s" using that l n ex by (auto simp: majors_used_def)
    then show ?thesis using card z mu(1) by auto
  next
    assume "\<exists>m. timers_list s = xs @ m # ys \<and> mt_time m = v \<and> use_counter mt = use_counter m + 1 \<and> (\<forall>m \<in> set (xs @ ys @ expired_majors s). mt_time m \<noteq> v)"
    then obtain m where m: "timers_list s = xs @ m # ys" "mt_time m = v" "use_counter mt = use_counter m + 1"
      "\<forall>m \<in> set (xs @ ys @ expired_majors s). mt_time m \<noteq> v" by blast
    have "(w, u) = (v, use_counter m + 1) \<or> w \<noteq> v \<and> (w, u) \<in> majors_used s" using that l m ex by (auto simp: majors_used_def)
    moreover have "(v, use_counter m) \<in> majors_used s" using m by (force simp: majors_used_def)
    ultimately show ?thesis using card mu(1) by auto
  qed
  have "fst ` majors_used s \<union> {v} \<subseteq> fst ` majors_used s'" using old l ex by (auto simp: majors_used_def image_image)
  then have "\<forall>x w. timer_major s' x = Some w \<longrightarrow> w \<in> fst ` majors_used s'" using mu(2) tm by auto
  then show ?thesis using fin a ok ex by (auto simp: refs_ok_def)
qed


lemma refs_ok_release:
  assumes ok: "refs_ok g s" and t: "timer_major s t = Some v"
    and tm: "timer_major s' = (timer_major s)(t := None)" and tk: "system_ticks s' = system_ticks s"
    and ex: "distinct (map mt_time (expired_majors s'))" "set (map mt_time (expired_majors s')) \<subseteq> set (map mt_time (expired_majors s))"
    and mu: "majors_used s' = {(w, u). 0 < u \<and> (\<exists>u'. (w, u') \<in> majors_used s \<and> u = (if w = v then u' - 1 else u'))}"
  shows "refs_ok g s'"
proof -
  have "finite {x. timer_major s x \<noteq> None}" using ok by (simp add: refs_ok_def)
  then have f: "finite {x. timer_major s x = Some w}" for w by (rule rev_finite_subset) auto
  have "{x. timer_major s' x \<noteq> None} \<subseteq> {x. timer_major s x \<noteq> None}" using tm by auto
  then have fin: "finite {x. timer_major s' x \<noteq> None}" using ok by (auto simp: refs_ok_def intro: finite_subset)
  have "{x. timer_major s' x = Some w} = (if w = v then {x. timer_major s x = Some w} - {t} else {x. timer_major s x = Some w})" for w
    using t tm by auto
  then have card: "card {x. timer_major s' x = Some w} = (if w = v then card {x. timer_major s x = Some w} - 1 else card {x. timer_major s x = Some w})" for w
    using f t by simp
  have um: "u = card {x. timer_major s x = Some w} \<and> 0 < u" if "(w, u) \<in> majors_used s" for w u using ok that by (auto simp: refs_ok_def)
  have a: "u = card {x. timer_major s' x = Some w} \<and> 0 < u" if "(w, u) \<in> majors_used s'" for w u
    using that card um by (auto simp: mu split: if_splits)
  have "w \<in> fst ` majors_used s'" if x: "timer_major s' x = Some w" for x w
  proof -
    have "timer_major s x = Some w" using x tm by (auto split: if_splits)
    then obtain u where u: "(w, u) \<in> majors_used s" using ok by (force simp: refs_ok_def)
    have "0 < card {x. timer_major s' x = Some w}" using x f [of w] card_gt_0_iff fin
      by (metis (mono_tags, lifting) Collect_mono empty_Collect_eq finite_subset option.distinct(1))
    then have "(w, if w = v then u - 1 else u) \<in> majors_used s'" using u um [OF u] card [of w] by (auto simp: mu)
    then show ?thesis by force
  qed
  then show ?thesis using fin a ok ex tk by (auto simp: refs_ok_def)
qed

section \<open>Deleting a timer\<close>

lemma unlink_tick_times: "set (map tt_time (unlink_tick t tts)) \<subseteq> set (map tt_time tts)"
  by (induction tts) (auto simp: Let_def split: list.splits prod.splits)

lemma unlink_tick_spec:
  assumes "group_ok s lo tts"
  shows "group_ok s lo (unlink_tick t tts) \<and> (\<forall>m. due_in m (unlink_tick t tts) = remove1 t (due_in m tts))"
  using assms
proof (induction tts)
  case Nil
  then show ?case by simp
next
  case (Cons tt tts)
  have ok: "group_ok s lo tts" "tick_ok s lo tt" and lt: "\<forall>u \<in> set tts. tt_time tt < tt_time u"
    using Cons.prems by (auto simp: group_ok_def)
  have k: "prio_ok (da_prio (tdas s)) (tt_actions tt)" "distinct (flat (tt_actions tt))" "tt_owner tt \<in> set (flat (tt_actions tt))"
    using ok(2) by (auto simp: tick_ok_def)
  show ?case
  proof (cases "t \<in> set (flat (tt_actions tt))")
    case False
    have "\<forall>u \<in> set (unlink_tick t tts). tt_time tt < tt_time u" using unlink_tick_times [of t tts] lt by (auto simp: subset_iff)
    then show ?thesis using False Cons.IH [OF ok(1)] ok(2) by (auto simp: group_ok_def remove1_append)
  next
    case True
    let ?as = "skiplist_del t (tt_actions tt)"
    note d = skiplist_del_flat [OF k(1,2), of t]
    have tt: "timer_time s t = tt_time tt" using ok(2) True by (simp add: tick_ok_def)
    have absent: "t \<notin> set (due_in m tts)" for m
    proof
      assume "t \<in> set (due_in m tts)"
      then obtain u where u: "u \<in> set tts" "t \<in> set (flat (tt_actions u))" by (auto simp: due_in_def)
      then have "timer_time s t = tt_time u" using ok(1) by (simp add: group_ok_def tick_ok_def)
      then show False using tt lt u(1) by auto
    qed
    have du: "due_in m (tt\<lparr>tt_owner := o', tt_actions := ?as\<rparr> # tts) = remove1 t (due_in m (tt # tts))" for m o'
      using d True absent by (simp add: remove1_append remove1_idem)
    have ko: "group_ok s lo (tt\<lparr>tt_owner := o', tt_actions := ?as\<rparr> # tts)" if "o' \<in> set (flat ?as)" for o'
      using that d ok lt k(2) by (auto simp: group_ok_def tick_ok_def dest: in_set_remove1 [THEN iffD1] notin_set_remove1)
    consider (other) "tt_owner tt \<noteq> t" | (last1) "tt_owner tt = t" "?as = []" | (next1) a as gs where "tt_owner tt = t" "?as = (a, as) # gs"
      by (cases ?as) auto
    then show ?thesis
    proof cases
      case other
      then have "tt_owner tt \<in> set (flat ?as)" using d k(3) by simp
      then show ?thesis using other True ko [of "tt_owner tt"] du [of _ "tt_owner tt"] by (simp add: Let_def)
    next
      case last1
      then have "remove1 t (flat (tt_actions tt)) = []" using d by simp
      then show ?thesis using last1 True ok(1) absent by (simp add: Let_def remove1_append remove1_idem)
    next
      case next1
      then show ?thesis using True ko [of a] du [of _ a] by (simp add: Let_def)
    qed
  qed
qed

lemma major_ok_fields [simp]:
  "major_ok g (s\<lparr>timers_list := x\<rparr>) mt = major_ok g s mt" "major_ok g (s\<lparr>expired_majors := x\<rparr>) mt = major_ok g s mt"
  "major_ok g (s\<lparr>num_cached_major_ticks := n\<rparr>) mt = major_ok g s mt" "major_ok g (s\<lparr>timer_major := tm\<rparr>) mt = major_ok g s mt"
  by (simp_all add: major_ok_def group_ok_def tick_ok_def)

lemma major_ok_tdas: "da_prio d = da_prio (tdas s) \<Longrightarrow> major_ok g (s\<lparr>tdas := d\<rparr>) mt = major_ok g s mt"
  by (simp add: major_ok_def group_ok_def tick_ok_def)

lemma due_major_upd:
  assumes "sorted_wrt (<) (map mt_time mts)"
    "\<forall>mt \<in> set mts. mt_time (f mt) = mt_time mt \<and> due_in m (minor_ticks (f mt) ! group_index g m) = h (due_in m (minor_ticks mt ! group_index g m))"
    "h [] = []"
  shows "due_major g m (map (\<lambda>mt. if mt_time mt = v then f mt else mt) mts) =
    (if major_of g m = v then h (due_major g m mts) else due_major g m mts)"
  using assms
proof (induction mts)
  case (Cons mt mts)
  show ?case
  proof (cases "mt_time mt = major_of g m")
    case True
    then have n: "\<forall>u \<in> set mts. mt_time u \<noteq> major_of g m" using Cons.prems(1) by auto
    then have "due_major g m mts = []" by (rule due_major_none)
    moreover have "due_major g m (map (\<lambda>mt. if mt_time mt = v then f mt else mt) mts) = []"
      using n Cons.prems(2) by (intro due_major_none) auto
    ultimately show ?thesis using True Cons.prems(2) by simp
  next
    case False
    then show ?thesis using Cons by auto
  qed
qed simp

lemma timers_ok_upd:
  assumes ok: "timers_ok g s"
    and f: "\<And>mt. mt \<in> set (timers_list s) \<Longrightarrow> mt_time (f mt) = mt_time mt \<and> major_ok g s (f mt)"
  shows "timers_ok g (upd_mt v f s)"
proof -
  have "map mt_time (timers_list (upd_mt v f s)) = map mt_time (timers_list s)" using f by (auto simp: upd_mt_def)
  then have "sorted_wrt (<) (map mt_time (timers_list (upd_mt v f s)))" using ok by (simp only: timers_ok_def)
  moreover have "\<forall>mt \<in> set (timers_list (upd_mt v f s)). major_ok g (upd_mt v f s) mt"
    using ok f by (auto simp: timers_ok_def upd_mt_def)
  ultimately show ?thesis using ok by (simp add: timers_ok_def upd_mt_def)
qed

lemma due_upd:
  assumes ok: "timers_ok g s" and h: "h [] = []"
    and f: "\<And>mt. mt \<in> set (timers_list s) \<Longrightarrow> mt_time (f mt) = mt_time mt \<and>
      due_in m (minor_ticks (f mt) ! group_index g m) = h (due_in m (minor_ticks mt ! group_index g m))"
  shows "due g (upd_mt v f s) m = (if major_of g m = v then h (due g s m) else due g s m)"
  using ok f due_major_upd [of "timers_list s" f m g h v] h by (simp add: due_def upd_mt_def timers_ok_def)

lemma timers_ok_free: "timers_ok g s \<Longrightarrow> timers_ok g (free_mt v s)"
proof -
  assume ok: "timers_ok g s"
  have "sorted_wrt (<) (map mt_time (filter P mts))" if "sorted_wrt (<) (map mt_time mts)" for P mts
    using that by (induction mts) auto
  then show ?thesis using ok by (auto simp: timers_ok_def free_mt_def)
qed

lemma due_free:
  assumes "\<And>t. t \<in> set (due g s m) \<Longrightarrow> major_of g m \<noteq> v"
  shows "due g (free_mt v s) m = due g s m"
proof (cases "major_of g m = v")
  case True
  then have "due g s m = []" using assms by (metis list.set_intros(1) neq_Nil_conv)
  moreover have "due g (free_mt v s) m = []" using True by (auto simp: due_def free_mt_def intro!: due_major_none)
  ultimately show ?thesis by simp
next
  case False
  have "due_major g m (filter (\<lambda>mt. mt_time mt \<noteq> v) mts) = due_major g m mts" for mts using False by (induction mts) auto
  then show ?thesis by (simp add: due_def free_mt_def)
qed

lemma major_unlink:
  assumes "major_ok g s mt" "g > 0" "MINOR_TICK_GROUP_SIZE dvd g"
  shows "major_ok g s (mt\<lparr>minor_ticks := map (unlink_tick t) (minor_ticks mt)\<rparr>) \<and>
    due_in m (map (unlink_tick t) (minor_ticks mt) ! group_index g m) = remove1 t (due_in m (minor_ticks mt ! group_index g m))"
proof -
  have i: "group_index g m < MINOR_TICK_GROUPS g" using assms(2,3) by (rule group_index_less)
  have k: "group_ok s (mt_time mt + MINOR_TICK_GROUP_SIZE * i) (minor_ticks mt ! i)" if "i < MINOR_TICK_GROUPS g" for i
    using assms(1) that by (simp add: major_ok_def)
  then show ?thesis using assms(1) i unlink_tick_spec [OF k] by (auto simp: major_ok_def)
qed

text \<open>The first half of \<^verbatim>\<open>delete_timer\<close>: the timer leaves the list that holds it.\<close>

lemma delete_unlinks:
  assumes inv: "timers_inv g c s" and t: "timer_major s t = Some v"
    and s1: "s1 = (if timer_time s t > last_processed_timer_tick s
                   then upd_mt v (\<lambda>mt. mt\<lparr>minor_ticks := map (unlink_tick t) (minor_ticks mt)\<rparr>) s
                   else s\<lparr>tdas := deschedule_deffered_action t (tdas s)\<rparr>)"
  shows "timers_ok g s1 \<and> da_ok (tdas s1) c \<and> (\<forall>m. due g s1 m = remove1 t (due g s m)) \<and>
    pending (tdas s1) c = remove1 t (pending (tdas s) c) \<and> majors_used s1 = majors_used s \<and>
    map mt_time (expired_majors s1) = map mt_time (expired_majors s) \<and> timer_major s1 = timer_major s \<and>
    timer_time s1 = timer_time s \<and> system_ticks s1 = system_ticks s \<and>
    last_processed_timer_tick s1 = last_processed_timer_tick s \<and> actions (tdas s1) = actions (tdas s)"
proof -
  have ok: "timers_ok g s" "da_ok (tdas s) c" "g > 0" "MINOR_TICK_GROUP_SIZE dvd g" "last_processed_timer_tick s \<le> system_ticks s"
    using inv by (auto simp: timers_inv_def timers_ok_def)
  show ?thesis
  proof (cases "timer_time s t > last_processed_timer_tick s")
    case True
    let ?f = "\<lambda>mt. mt\<lparr>minor_ticks := map (unlink_tick t) (minor_ticks mt)\<rparr>"
    have f: "mt_time (?f mt) = mt_time mt \<and> major_ok g s (?f mt) \<and>
      due_in m (minor_ticks (?f mt) ! group_index g m) = remove1 t (due_in m (minor_ticks mt ! group_index g m))"
      if "mt \<in> set (timers_list s)" for mt m
      using that ok(1) major_unlink [OF _ ok(3,4)] by (auto simp: timers_ok_def)
    have "due g (upd_mt v ?f s) m = remove1 t (due g s m)" for m
    proof -
      have "major_of g m = v \<or> t \<notin> set (due g s m)"
      proof (rule disjCI)
        assume "\<not> t \<notin> set (due g s m)"
        then have "timer_time s t = m" "armed g s t" using due_member [OF ok(1)] due_armed [OF ok(1)] by auto
        then show "major_of g m = v" using inv t by (auto simp: timers_inv_def)
      qed
      then show ?thesis using due_upd [OF ok(1), of "remove1 t" ?f m v] f by (auto simp: remove1_idem)
    qed
    moreover have "timers_ok g (upd_mt v ?f s)" using f by (intro timers_ok_upd [OF ok(1)]) simp
    moreover have "majors_used (upd_mt v ?f s) = majors_used s" using majors_used_upd [of ?f "\<lambda>u. u" v s] by (simp add: case_prod_unfold)
    moreover have "t \<notin> set (pending (tdas s) c)" using inv True by (auto simp: timers_inv_def)
    ultimately show ?thesis using True ok(2) s1 expired_times_upd [of ?f v s] by (simp add: upd_mt_def remove1_idem)
  next
    case False
    have "t \<notin> set (due g s m)" for m using due_member [OF ok(1), of t m] False ok(5) by auto
    moreover have "prio_ok (da_prio (tdas s)) (pending_actions (cpu_actions (tdas s) c))" "distinct (pending (tdas s) c)"
      using ok(2) by (auto simp: da_ok_def)
    moreover have "timers_ok g s1" using ok(1) False s1
      by (auto simp: timers_ok_def deschedule_deffered_action_def major_ok_tdas)
    ultimately show ?thesis using False s1 skiplist_del_flat [of "da_prio (tdas s)" "pending_actions (cpu_actions (tdas s) c)" t]
      by (simp add: deschedule_deffered_action_def da_ok_def remove1_idem due_def majors_used_def)
  qed
qed

text \<open>The second half: the reference goes, and the major tick with its last reference.\<close>

lemma release_spec:
  assumes ok: "timers_ok g s2" and rk: "refs_ok g s" and t: "timer_major s t = Some v"
    and tm: "timer_major s2 = (timer_major s)(t := None)" and tk: "system_ticks s2 = system_ticks s"
    and mu2: "majors_used s2 = majors_used s" and ex: "map mt_time (expired_majors s2) = map mt_time (expired_majors s)"
    and arm: "\<forall>m. \<forall>x \<in> set (due g s2 m). timer_major s2 x = Some (major_of g m)"
    and s3: "s3 = upd_mt v (\<lambda>mt. mt\<lparr>use_counter := use_counter mt - 1\<rparr>) s2"
  shows "\<exists>mt. find_mt v s3 = Some mt \<and> timers_ok g (if use_counter mt = 0 then free_mt v s3 else s3) \<and>
    refs_ok g (if use_counter mt = 0 then free_mt v s3 else s3) \<and>
    (\<forall>m. due g (if use_counter mt = 0 then free_mt v s3 else s3) m = due g s2 m)"
proof -
  have vin: "v \<in> fst ` majors_used s" using rk t by (auto simp: refs_ok_def)
  have mu3: "majors_used s3 = (\<lambda>(w, k). (w, if w = v then k - 1 else k)) ` majors_used s"
    using majors_used_upd [of "\<lambda>mt. mt\<lparr>use_counter := use_counter mt - 1\<rparr>" "\<lambda>k. k - 1" v s2] mu2 by (simp add: s3)
  have "v \<in> fst ` majors_used s3" using vin by (force simp: mu3)
  from find_mt_used [OF this] obtain mt where mt: "find_mt v s3 = Some mt" "(v, use_counter mt) \<in> majors_used s3" by blast
  define s4 where "s4 = (if use_counter mt = 0 then free_mt v s3 else s3)"
  have "\<forall>mt \<in> set (timers_list s2). major_ok g s2 mt" using ok by (simp add: timers_ok_def)
  then have "timers_ok g s3" unfolding s3 by (intro timers_ok_upd [OF ok]) (simp add: major_ok_def)
  moreover have "due g s3 m = due g s2 m" for m
    using due_upd [OF ok, of "\<lambda>x. x" "\<lambda>mt. mt\<lparr>use_counter := use_counter mt - 1\<rparr>" m v] by (simp add: s3)
  ultimately have ok3: "timers_ok g s3" "\<And>m. due g s3 m = due g s2 m" by blast+
  have tm3: "timer_major s4 = (timer_major s)(t := None)" "system_ticks s4 = system_ticks s"
    "map mt_time (expired_majors s3) = map mt_time (expired_majors s)"
    using tm tk ex expired_times_upd [of "\<lambda>mt. mt\<lparr>use_counter := use_counter mt - 1\<rparr>" v s2]
    by (simp_all add: s4_def s3 free_mt_def) (simp_all add: upd_mt_def)
  have uniq: "k = use_counter mt + 1" if "(v, k) \<in> majors_used s" for k
  proof -
    have um: "u = card {x. timer_major s x = Some w} \<and> 0 < u" if "(w, u) \<in> majors_used s" for w u
      using rk that by (auto simp: refs_ok_def)
    obtain u where "(v, u) \<in> majors_used s" "use_counter mt = u - 1" using mt(2) unfolding mu3 by (auto split: if_splits)
    then show ?thesis using um [of v u] um [OF that] by simp
  qed
  have "timers_ok g s4" using ok3 timers_ok_free by (simp add: s4_def)
  moreover have mu4: "majors_used s4 = {(w, k). 0 < k \<and> (\<exists>u'. (w, u') \<in> majors_used s \<and> k = (if w = v then u' - 1 else u'))}"
  proof -
    have mem: "(w, k) \<in> majors_used s3 \<longleftrightarrow> (\<exists>u'. (w, u') \<in> majors_used s \<and> k = (if w = v then u' - 1 else u'))" for w k
      unfolding mu3 by force
    have pos: "0 < u" if "(w, u) \<in> majors_used s" for w u using rk that by (auto simp: refs_ok_def)
    have "(w, k) \<in> majors_used s3 \<Longrightarrow> 0 < k \<longleftrightarrow> w \<noteq> v \<or> use_counter mt \<noteq> 0" for w k
      unfolding mem using uniq pos by (cases "w = v") fastforce+
    then have "majors_used s4 = {(w, k). 0 < k \<and> (w, k) \<in> majors_used s3}" by (auto simp: s4_def majors_used_free)
    then show ?thesis by (simp only: mem)
  qed
  have dis: "distinct (map mt_time (expired_majors s3))" using rk tm3(3) by (simp add: refs_ok_def)
  have "set (map mt_time (expired_majors s4)) \<subseteq> set (map mt_time (expired_majors s3))" by (auto simp: s4_def free_mt_def)
  then have "refs_ok g s4"
    using tm3 dis by (intro refs_ok_release [OF rk t _ _ _ _ mu4]) (auto simp: s4_def free_mt_def distinct_map_filter)
  moreover have "due g s4 m = due g s2 m" for m
  proof (cases "use_counter mt = 0")
    case True
    have "finite {x. timer_major s2 x = Some v}" using rk tm by (auto simp: refs_ok_def elim: rev_finite_subset)
    moreover have "card {x. timer_major s2 x = Some v} = 0"
    proof -
      have "card {x. timer_major s x = Some v} = 1" using uniq vin rk True by (force simp: refs_ok_def)
      then have "{x. timer_major s x = Some v} = {t}" using t by (metis (mono_tags, lifting) card_1_singletonE mem_Collect_eq singletonD)
      then have "{x. timer_major s2 x = Some v} = {}" using tm by (auto split: if_splits)
      then show ?thesis by simp
    qed
    ultimately have "timer_major s2 x \<noteq> Some v" for x by (auto simp: card_eq_0_iff)
    then show ?thesis using due_free [of g s3 m v] arm ok3 True by (auto simp: s4_def)
  qed (simp add: s4_def ok3)
  ultimately show ?thesis using mt(1) unfolding s4_def by blast
qed

lemma due_in_distinct: "group_ok s lo tts \<Longrightarrow> distinct (due_in m tts)"
proof (induction tts)
  case (Cons tt tts)
  have "group_ok s lo tts" "tick_ok s lo tt" "\<forall>u \<in> set tts. tt_time tt < tt_time u" using Cons.prems by (auto simp: group_ok_def)
  moreover have "tt_time tt = m \<Longrightarrow> due_in m tts = []" using calculation(3) by (intro due_in_none) auto
  ultimately show ?case using Cons.IH by (auto simp: tick_ok_def)
qed simp

lemma due_distinct:
  assumes "timers_ok g s"
  shows "distinct (due g s m)"
proof -
  have i: "group_index g m < MINOR_TICK_GROUPS g" using assms by (simp add: timers_ok_def group_index_less)
  have d: "\<forall>mt \<in> set (timers_list s). distinct (due_in m (minor_ticks mt ! group_index g m))"
    using assms i due_in_distinct by (fastforce simp: timers_ok_def major_ok_def)
  have "distinct (due_major g m mts)" if "sorted_wrt (<) (map mt_time mts)"
    "\<forall>mt \<in> set mts. distinct (due_in m (minor_ticks mt ! group_index g m))" for mts
    using that
  proof (induction mts)
    case (Cons mt mts)
    have "mt_time mt = major_of g m \<Longrightarrow> due_major g m mts = []" using Cons.prems(1) by (intro due_major_none) auto
    then show ?case using Cons by auto
  qed simp
  then show ?thesis using assms d by (simp add: due_def timers_ok_def)
qed

lemma delete_spec:
  assumes inv: "timers_inv g c s"
  shows "\<exists>s'. delete_timer min_cached t s = Some s' \<and> timers_inv g c s' \<and> timer_major s' = (timer_major s)(t := None) \<and>
    (\<forall>m. due g s' m = remove1 t (due g s m)) \<and> pending (tdas s') c = remove1 t (pending (tdas s) c) \<and>
    timer_time s' = timer_time s \<and> system_ticks s' = system_ticks s \<and> actions (tdas s') = actions (tdas s)"
proof (cases "timer_major s t")
  case None
  have "t \<notin> set (due g s m)" for m using inv None due_member due_armed unfolding timers_inv_def by (metis option.distinct(1))
  moreover have "t \<notin> set (pending (tdas s) c)" using inv None by (auto simp: timers_inv_def)
  ultimately show ?thesis using inv None by (simp add: delete_timer_def remove1_idem fun_upd_idem)
next
  case (Some v)
  define s1 where "s1 = (if timer_time s t > last_processed_timer_tick s
                   then upd_mt v (\<lambda>mt. mt\<lparr>minor_ticks := map (unlink_tick t) (minor_ticks mt)\<rparr>) s
                   else s\<lparr>tdas := deschedule_deffered_action t (tdas s)\<rparr>)"
  note u = delete_unlinks [OF inv Some s1_def]
  define s2 where "s2 = s1\<lparr>timer_major := (timer_major s1)(t := None)\<rparr>"
  define s3 where "s3 = upd_mt v (\<lambda>mt. mt\<lparr>use_counter := use_counter mt - 1\<rparr>) s2"
  have k: "timers_ok g s" "refs_ok g s" "da_ok (tdas s) c" and
    arm: "\<And>x. armed g s x \<Longrightarrow> timer_major s x = Some (major_of g (timer_time s x)) \<and> x \<notin> set (pending (tdas s) c)" and
    pen: "\<And>x. x \<in> set (pending (tdas s) c) \<Longrightarrow> timer_major s x \<noteq> None \<and> timer_time s x \<le> last_processed_timer_tick s"
    using inv by (auto simp: timers_inv_def)
  note dd = due_distinct [OF k(1)]
  have s2: "timers_ok g s2" "due g s2 m = remove1 t (due g s m)" for m using u by (auto simp: s2_def timers_ok_def due_def)
  have arm2: "timer_major s2 x = Some (major_of g m)" if "x \<in> set (due g s2 m)" for m x
  proof -
    have "x \<noteq> t" "x \<in> set (due g s m)" using that s2 dd [of m] by auto
    then show ?thesis using arm [of x] due_member [OF k(1)] due_armed [OF k(1)] u by (simp add: s2_def)
  qed
  have f2: "timer_major s2 = (timer_major s)(t := None)" "system_ticks s2 = system_ticks s" "majors_used s2 = majors_used s"
    "map mt_time (expired_majors s2) = map mt_time (expired_majors s)" using u by (auto simp: s2_def majors_used_def)
  obtain mt where mt: "find_mt v s3 = Some mt" "timers_ok g (if use_counter mt = 0 then free_mt v s3 else s3)"
    "refs_ok g (if use_counter mt = 0 then free_mt v s3 else s3)"
    "\<forall>m. due g (if use_counter mt = 0 then free_mt v s3 else s3) m = due g s2 m"
    using release_spec [OF s2(1) k(2) Some f2 _ s3_def] arm2 by blast
  obtain s' where s': "delete_timer min_cached t s = Some s'" "timers_ok g s'" "refs_ok g s'" "\<forall>m. due g s' m = due g s2 m"
    "tdas s' = tdas s1" "timer_major s' = timer_major s2" "timer_time s' = timer_time s" "system_ticks s' = system_ticks s"
    "last_processed_timer_tick s' = last_processed_timer_tick s"
  proof -
    have d: "delete_timer min_cached t s = (case find_mt v s3 of None \<Rightarrow> None | Some mtt \<Rightarrow>
      Some (if use_counter mtt = 0 then let s = free_mt v s3 in if num_cached_major_ticks s < min_cached
        then s\<lparr>num_cached_major_ticks := num_cached_major_ticks s + 1\<rparr> else s else s3))"
      by (simp only: delete_timer_def Some option.case Let_def s1_def s2_def s3_def)
    have e: "timers_ok g (x\<lparr>num_cached_major_ticks := n\<rparr>) = timers_ok g x" "refs_ok g (x\<lparr>num_cached_major_ticks := n\<rparr>) = refs_ok g x"
      "due g (x\<lparr>num_cached_major_ticks := n\<rparr>) m = due g x m" for x n m
      by (simp_all add: timers_ok_def refs_ok_def majors_used_def due_def)
    have fs: "tdas s3 = tdas s1" "timer_major s3 = timer_major s2" "timer_time s3 = timer_time s" "system_ticks s3 = system_ticks s"
      "last_processed_timer_tick s3 = last_processed_timer_tick s" using u by (simp_all add: s3_def s2_def upd_mt_def)
    show thesis
    proof (cases "use_counter mt = 0")
      case True
      show thesis
      proof (cases "num_cached_major_ticks (free_mt v s3) < min_cached")
        case T2: True
        show thesis using d True T2 mt fs e by (intro that [of "(free_mt v s3)\<lparr>num_cached_major_ticks := num_cached_major_ticks (free_mt v s3) + 1\<rparr>"]) (simp_all add: free_mt_def)
      next
        case F2: False
        show thesis using d True F2 mt fs by (intro that [of "free_mt v s3"]) (simp_all add: free_mt_def)
      qed
    next
      case False
      show thesis using d False mt fs by (intro that [of s3]) simp_all
    qed
  qed
  have "armed g s' x \<longrightarrow> timer_major s' x = Some (major_of g (timer_time s' x)) \<and> x \<notin> set (pending (tdas s') c)" for x
    using arm2 [of x "timer_time s x"] arm [of x] s2(2) s'(4-7) u dd [of "timer_time s x"] k(3) notin_set_remove1 [of x _ t] by (auto simp: armed_def)
  moreover have "\<forall>x \<in> set (pending (tdas s') c). timer_major s' x \<noteq> None \<and> timer_time s' x \<le> last_processed_timer_tick s'"
    using pen s' u f2 k(3) by (auto simp: da_ok_def)
  ultimately have "timers_inv g c s'" using s' u by (simp add: timers_inv_def)
  then show ?thesis using s' u f2 s2(2) by (intro exI [of _ s']) simp
qed

section \<open>The other operations keep the invariant\<close>

text \<open>A timer in a tick of a major tick is due at that tick.\<close>

lemma tick_due:
  assumes ok: "timers_ok g s" and mt: "mt \<in> set (timers_list s)" "i < MINOR_TICK_GROUPS g"
    and tt: "tt \<in> set (minor_ticks mt ! i)" "t \<in> set (flat (tt_actions tt))"
  shows "armed g s t"
proof -
  have mk: "g dvd mt_time mt" "group_ok s (mt_time mt + MINOR_TICK_GROUP_SIZE * i) (minor_ticks mt ! i)"
    using ok mt by (auto simp: timers_ok_def major_ok_def)
  then have k: "mt_time mt + MINOR_TICK_GROUP_SIZE * i \<le> tt_time tt" "tt_time tt < mt_time mt + MINOR_TICK_GROUP_SIZE * i + MINOR_TICK_GROUP_SIZE"
    "timer_time s t = tt_time tt" using tt by (auto simp: group_ok_def tick_ok_def)
  have "MINOR_TICK_GROUP_SIZE * i + MINOR_TICK_GROUP_SIZE \<le> g"
    using mt(2) by (simp add: MINOR_TICK_GROUPS_def MINOR_TICK_GROUP_SIZE_def)
  then have m: "major_of g (tt_time tt) = mt_time mt" using k mk(1) by (intro major_unique) auto
  then have "group_index g (tt_time tt) = i" using k by (simp add: group_index_def MINOR_TICK_GROUP_SIZE_def)
  then have "t \<in> set (due g s (tt_time tt))" using m tt mt(1) by (auto simp: due_def due_major_def due_in_def)
  then show ?thesis using k(3) by (simp add: armed_def)
qed

text \<open>A timer that is not in use may be set up anew.\<close>

lemma timers_ok_reset:
  assumes ok: "timers_ok g s" and un: "\<not> armed g s t"
    and s': "timers_list s' = timers_list s" "system_ticks s' = system_ticks s" "last_processed_timer_tick s' = last_processed_timer_tick s"
      "\<And>x. x \<noteq> t \<Longrightarrow> timer_time s' x = timer_time s x \<and> da_prio (tdas s') x = da_prio (tdas s) x"
  shows "timers_ok g s'"
proof -
  have tk: "tick_ok s' lo tt" if "tick_ok s lo tt" "t \<notin> set (flat (tt_actions tt))" for lo tt
  proof -
    have e: "\<And>x. x \<in> set (flat (tt_actions tt)) \<Longrightarrow> timer_time s' x = timer_time s x \<and> da_prio (tdas s') x = da_prio (tdas s) x"
      using s'(4) that(2) by metis
    then have "prio_ok (da_prio (tdas s')) (tt_actions tt) = prio_ok (da_prio (tdas s)) (tt_actions tt)" by (intro prio_ok_cong) simp
    then show ?thesis using that(1) s'(2) e by (simp add: tick_ok_def)
  qed
  have "major_ok g s' mt" if mt: "mt \<in> set (timers_list s)" for mt
  proof -
    have mk: "major_ok g s mt" using ok mt by (simp add: timers_ok_def)
    have "group_ok s' (mt_time mt + MINOR_TICK_GROUP_SIZE * i) (minor_ticks mt ! i)" if i: "i < MINOR_TICK_GROUPS g" for i
    proof -
      have gk: "group_ok s (mt_time mt + MINOR_TICK_GROUP_SIZE * i) (minor_ticks mt ! i)" using mk i by (simp add: major_ok_def)
      have "\<forall>tt \<in> set (minor_ticks mt ! i). t \<notin> set (flat (tt_actions tt))" using tick_due [OF ok mt i, of _ t] un by blast
      then show ?thesis using gk tk by (simp add: group_ok_def)
    qed
    then show ?thesis using mk s'(2) by (simp add: major_ok_def)
  qed
  then show ?thesis using ok s' by (simp add: timers_ok_def)
qed

lemma inv_reset:
  assumes inv: "timers_inv g c s" and t: "timer_major s t = None"
    and s': "timers_list s' = timers_list s" "system_ticks s' = system_ticks s" "last_processed_timer_tick s' = last_processed_timer_tick s"
      "expired_majors s' = expired_majors s" "timer_major s' = timer_major s" "cpu_actions (tdas s') = cpu_actions (tdas s)"
      "\<And>x. x \<noteq> t \<Longrightarrow> timer_time s' x = timer_time s x \<and> da_prio (tdas s') x = da_prio (tdas s) x"
  shows "timers_inv g c s'"
proof -
  have k: "timers_ok g s" "refs_ok g s" "da_ok (tdas s) c" and
    arm: "\<And>x. armed g s x \<Longrightarrow> timer_major s x = Some (major_of g (timer_time s x)) \<and> x \<notin> set (pending (tdas s) c)" and
    pen: "\<And>x. x \<in> set (pending (tdas s) c) \<Longrightarrow> timer_major s x \<noteq> None \<and> timer_time s x \<le> last_processed_timer_tick s"
    using inv by (auto simp: timers_inv_def)
  have un: "\<not> armed g s t" using arm t by auto
  have np: "t \<notin> set (pending (tdas s) c)" using pen [of t] t by auto
  have ok': "timers_ok g s'" by (rule timers_ok_reset [OF k(1) un s'(1-3,7)])
  have du: "due g s' = due g s" by (simp add: due_def fun_eq_iff s'(1))
  have nd: "t \<notin> set (due g s m)" for m using un due_armed [OF k(1)] by blast
  have "prio_ok (da_prio (tdas s')) (pending_actions (cpu_actions (tdas s) c)) = prio_ok (da_prio (tdas s)) (pending_actions (cpu_actions (tdas s) c))"
    using np s'(7) by (intro prio_ok_cong) metis
  then have "da_ok (tdas s') c" using k(3) s'(6) by (simp add: da_ok_def)
  moreover have "refs_ok g s'" using k(2) s' by (intro refs_ok_frame [OF k(2)]) (simp_all add: majors_used_def)
  moreover have "timer_major s' x = Some (major_of g (timer_time s' x)) \<and> x \<notin> set (pending (tdas s') c)" if "armed g s' x" for x
  proof -
    have "x \<noteq> t" using that nd by (auto simp: armed_def du)
    then show ?thesis using that arm [of x] s'(5-7) by (simp add: armed_def du)
  qed
  moreover have "timer_major s' x \<noteq> None \<and> timer_time s' x \<le> last_processed_timer_tick s'" if "x \<in> set (pending (tdas s') c)" for x
  proof -
    have "x \<in> set (pending (tdas s) c)" using that s'(6) by simp
    then show ?thesis using pen [of x] np s'(3,5,7) by metis
  qed
  ultimately show ?thesis using ok' by (simp add: timers_inv_def)
qed

lemma add_inv_ok:
  assumes inv: "timers_inv g c s" and t: "timer_major s t = None" and lt: "system_ticks s < timer_time s t"
    and mem: "mem \<or> num_cached_major_ticks s > 0"
  shows "\<exists>s'. add_timer g min_cached mem mem_cache t s = Some (0, False, s') \<and> timers_inv g c s' \<and>
    due g s' (timer_time s t) = seq_insert (da_prio (tdas s)) (da_prio (tdas s) t) t (due g s (timer_time s t)) \<and>
    (\<forall>m. m \<noteq> timer_time s t \<longrightarrow> due g s' m = due g s m) \<and>
    system_ticks s' = system_ticks s \<and> timer_time s' = timer_time s \<and> tdas s' = tdas s"
proof -
  have k: "timers_ok g s" "refs_ok g s" "da_ok (tdas s) c" and
    arm: "\<And>x. armed g s x \<Longrightarrow> timer_major s x = Some (major_of g (timer_time s x)) \<and> x \<notin> set (pending (tdas s) c)" and
    pen: "\<And>x. x \<in> set (pending (tdas s) c) \<Longrightarrow> timer_major s x \<noteq> None \<and> timer_time s x \<le> last_processed_timer_tick s"
    using inv by (auto simp: timers_inv_def)
  have un: "\<not> armed g s t" using arm t by auto
  obtain s' xs ys mt where s': "add_timer g min_cached mem mem_cache t s = Some (0, False, s')" "timers_ok g s'"
    "due g s' (timer_time s t) = seq_insert (da_prio (tdas s)) (da_prio (tdas s) t) t (due g s (timer_time s t))"
    "\<forall>m. m \<noteq> timer_time s t \<longrightarrow> due g s' m = due g s m"
    "system_ticks s' = system_ticks s" "timer_time s' = timer_time s" "tdas s' = tdas s"
    "last_processed_timer_tick s' = last_processed_timer_tick s"
    "timer_major s' = (timer_major s)(t \<mapsto> major_of g (timer_time s t))" "expired_majors s' = expired_majors s"
    and l: "timers_list s' = xs @ mt # ys" "mt_time mt = major_of g (timer_time s t)"
    "timers_list s = xs @ ys \<and> use_counter mt = 1 \<and> (\<forall>m \<in> set (xs @ ys). mt_time m \<noteq> mt_time mt) \<or>
       (\<exists>m. timers_list s = xs @ m # ys \<and> mt_time m = mt_time mt \<and> use_counter mt = use_counter m + 1)"
    using add_timer_spec [OF k(1) lt un mem, of min_cached mem_cache] by (elim exE conjE)
  have exp: "\<forall>m \<in> set (expired_majors s). mt_time m \<noteq> major_of g (timer_time s t)"
  proof
    fix m assume "m \<in> set (expired_majors s)"
    then have "mt_time m + g \<le> system_ticks s + 1" using k(2) by (auto simp: refs_ok_def)
    moreover have "timer_time s t < major_of g (timer_time s t) + g" using major_of_gt k(1) by (simp add: timers_ok_def)
    ultimately show "mt_time m \<noteq> major_of g (timer_time s t)" using lt by auto
  qed
  have srt: "\<forall>m \<in> set (xs @ ys). mt_time m \<noteq> mt_time mt" using s'(2) l(1) by (auto simp: timers_ok_def sorted_wrt_append)
  have "refs_ok g s'"
  proof (rule refs_ok_add [OF k(2) t s'(9,10,5) l(1,2)], goal_cases)
    case 1
    have "\<forall>m \<in> set (xs @ ys @ expired_majors s). mt_time m \<noteq> major_of g (timer_time s t)" using srt exp l(2) by auto
    then show ?case using l(2,3) by auto
  qed
  moreover have "timer_major s' x = Some (major_of g (timer_time s' x)) \<and> x \<notin> set (pending (tdas s') c)" if "armed g s' x" for x
  proof (cases "x = t")
    case True
    then show ?thesis using s' pen [of t] t by auto
  next
    case False
    then have "armed g s x" using that s'(3,4,6) by (cases "timer_time s x = timer_time s t") (auto simp: armed_def)
    then show ?thesis using arm [of x] s' False by simp
  qed
  moreover have "timer_major s' x \<noteq> None \<and> timer_time s' x \<le> last_processed_timer_tick s'" if "x \<in> set (pending (tdas s') c)" for x
    using that pen [of x] s' by simp
  ultimately have "timers_inv g c s'" using s' k by (simp add: timers_inv_def)
  then show ?thesis using s' by (intro exI [of _ s']) simp
qed

lemma add_found_mem:
  assumes "find_major (major_of g (timer_time s t)) (timers_list s) = (xs, Some mt, ys)"
  shows "add_timer g min_cached mem mem_cache t s = add_timer g min_cached True mem_cache t s"
  by (simp add: add_timer_def assms Let_def)

lemma add_inv:
  assumes inv: "timers_inv g c s" and t: "timer_major s t = None" and r: "add_timer g min_cached mem mem_cache t s = Some (r, x, s')"
  shows "timers_inv g c s'"
proof (cases "system_ticks s < timer_time s t")
  case False
  then show ?thesis using r inv by (auto simp: add_timer_def Let_def split: if_splits)
next
  case lt: True
  obtain xs found ys where f: "find_major (major_of g (timer_time s t)) (timers_list s) = (xs, found, ys)" by (metis prod_cases3)
  consider (enough) "mem \<or> num_cached_major_ticks s > 0" | (hit) mt where "found = Some mt"
    | (oom) "found = None" "\<not> mem" "num_cached_major_ticks s = 0" by (cases found) auto
  then show ?thesis
  proof cases
    case enough
    then show ?thesis using add_inv_ok [OF inv t lt enough, of min_cached mem_cache] r by (metis Pair_inject option.inject)
  next
    case hit
    then have "add_timer g min_cached True mem_cache t s = Some (r, x, s')" using r add_found_mem [of g s t xs mt ys] f by metis
    then show ?thesis using add_inv_ok [OF inv t lt, of True min_cached mem_cache] by (metis Pair_inject option.inject)
  next
    case oom
    then have "add_timer g min_cached mem mem_cache t s = Some (ERR ENOMEM, False, s)" using lt f by (simp add: add_timer_def Let_def)
    then show ?thesis using r inv by simp
  qed
qed

lemma tick_inv:
  assumes inv: "timers_inv g c s" and n: "n = system_ticks s + 1"
  shows "\<exists>s'. timer_tick_step g c cur s = Some s' \<and> timers_inv g c s' \<and>
    pending (tdas s') c = seq_insert_all (da_prio (tdas s)) (due g s n) (pending (tdas s) c) \<and>
    (\<forall>m. m \<noteq> n \<longrightarrow> due g s' m = due g s m) \<and>
    system_ticks s' = n \<and> timer_time s' = timer_time s \<and> timer_major s' = timer_major s \<and> da_prio (tdas s') = da_prio (tdas s)"
proof -
  have k: "timers_ok g s" "refs_ok g s" "da_ok (tdas s) c" and
    arm: "\<And>x. armed g s x \<Longrightarrow> timer_major s x = Some (major_of g (timer_time s x)) \<and> x \<notin> set (pending (tdas s) c)" and
    pen: "\<And>x. x \<in> set (pending (tdas s) c) \<Longrightarrow> timer_major s x \<noteq> None \<and> timer_time s x \<le> last_processed_timer_tick s"
    using inv by (auto simp: timers_inv_def)
  have dis: "\<forall>t \<in> set (pending (tdas s) c). \<not> armed g s t" using arm by blast
  obtain s' where s': "timer_tick_step g c cur s = Some s'" "timers_ok g s'" "da_ok (tdas s') c"
    "pending (tdas s') c = seq_insert_all (da_prio (tdas s)) (due g s n) (pending (tdas s) c)"
    "\<forall>m. m \<noteq> n \<longrightarrow> due g s' m = due g s m" "system_ticks s' = n" "timer_time s' = timer_time s" "actions (tdas s') = actions (tdas s)"
    "timer_major s' = timer_major s" "due g s n \<noteq> [] \<longrightarrow> last_processed_timer_tick s' = n"
    "last_processed_timer_tick s \<le> last_processed_timer_tick s'"
    "(\<forall>(v, u) \<in> majors_used s. 0 < u) \<longrightarrow> majors_used s' = majors_used s \<and> (expired_majors s' = expired_majors s \<or>
      (\<exists>m. expired_majors s' = m # expired_majors s \<and> mt_time m + g = n + 1))"
    using timer_step_spec [OF k(1,3) dis n, of cur] by (elim exE conjE)
  have "\<forall>(v, u) \<in> majors_used s. 0 < u" using k(2) by (auto simp: refs_ok_def)
  then have rk: "refs_ok g s'" using s' n by (intro refs_ok_tick [OF k(2)]) auto
  have dn: "due g s' n = []" using due_past [OF s'(2)] s'(6) by simp
  have a: "timer_major s' x = Some (major_of g (timer_time s' x)) \<and> x \<notin> set (pending (tdas s') c)" if "armed g s' x" for x
  proof -
    have ne: "timer_time s x \<noteq> n" using that dn s'(7) by (auto simp: armed_def)
    then have "armed g s x" using that s'(5,7) by (simp add: armed_def)
    moreover have "x \<notin> set (due g s n)" using due_member [OF k(1)] ne by blast
    ultimately show ?thesis using arm [of x] s'(4,7,9) by simp
  qed
  have b: "timer_major s' x \<noteq> None \<and> timer_time s' x \<le> last_processed_timer_tick s'" if "x \<in> set (pending (tdas s') c)" for x
  proof (cases "x \<in> set (due g s n)")
    case True
    then have "due g s n \<noteq> []" by auto
    then show ?thesis using True arm [of x] due_member [OF k(1) True] due_armed [OF k(1) True] s'(7,9,10) by simp
  next
    case False
    then have "x \<in> set (pending (tdas s) c)" using that s'(4) by simp
    then show ?thesis using pen [of x] s'(7,9,11) by auto
  qed
  have "timers_inv g c s'" unfolding timers_inv_def using s'(2,3) rk a b by blast
  moreover have "da_prio (tdas s') = da_prio (tdas s)" using s'(8) by (auto simp: da_prio_def)
  ultimately show ?thesis using s' by blast
qed

lemma fire_keeps:
  assumes ok: "da_ok s c" and f: "fire_deffered_actions budget c cur s = (fired, s')"
  shows "da_ok s' c \<and> da_prio s' = da_prio s \<and> set (pending s' c) \<subseteq> set (pending s c)"
proof (cases "executers (cpu_actions s c) \<noteq> 0 \<or> pending_actions (cpu_actions s c) = []")
  case True
  then show ?thesis using f ok by (auto simp: fire_deffered_actions_def)
next
  case False
  let ?s = "upd_cpu c (\<lambda>p. p\<lparr>executers := executers p + 1\<rparr>) s"
  obtain d u where d: "fire_loop c cur budget ?s = (d, u)" by fastforce
  have "da_ok ?s c" using ok by (simp add: da_ok_def)
  note l = fire_loop_spec [OF this d]
  have "s' = upd_cpu c (\<lambda>p. p\<lparr>executers := executers p - 1\<rparr>) u" using f False d by (simp add: fire_deffered_actions_def Let_def)
  then have s': "pending s' c = pending u c" "da_prio s' = da_prio u" "da_ok s' c = da_ok u c" by (simp_all add: da_ok_def)
  have "pending u c = drop (length d) (pending ?s c)" "da_ok u c" "da_prio u = da_prio ?s" using l by simp_all
  then show ?thesis using s' by (auto dest: in_set_dropD)
qed

lemma fire_inv:
  assumes inv: "timers_inv g c s" and f: "fire_deffered_actions budget c cur (tdas s) = (fired, d)"
  shows "timers_inv g c (s\<lparr>tdas := d\<rparr>)"
proof -
  have k: "timers_ok g s" "refs_ok g s" "da_ok (tdas s) c" using inv by (auto simp: timers_inv_def)
  note fk = fire_keeps [OF k(3) f]
  have "timers_ok g (s\<lparr>tdas := d\<rparr>)" using k(1) fk by (simp add: timers_ok_def major_ok_tdas)
  moreover have "refs_ok g (s\<lparr>tdas := d\<rparr>)" by (rule refs_ok_frame [OF k(2)]) (simp_all add: majors_used_def)
  moreover have "armed g (s\<lparr>tdas := d\<rparr>) x = armed g s x" for x by (simp add: armed_def due_def)
  ultimately show ?thesis using inv fk by (auto simp: timers_inv_def)
qed

section \<open>Runs\<close>

text \<open>The state before the timers are initialised: the static variables of \<^verbatim>\<open>timer.c\<close>.\<close>

definition boot_timers :: "timers \<Rightarrow> bool" where
  "boot_timers s \<longleftrightarrow> timers_list s = [] \<and> expired_majors s = [] \<and> last_processed_timer_tick s = 0 \<and> timer_major s = (\<lambda>_. None)"

text \<open>\<open>mc\<close> is \<^verbatim>\<open>CONFIG_MIN_CACHED_MAJOR_TICKS\<close>; \<open>c\<close> is the CPU that handles the timer interrupt.\<close>

inductive timers_reach :: "nat \<Rightarrow> nat \<Rightarrow> nat \<Rightarrow> timers \<Rightarrow> bool" for g mc c where
  reach_init: "\<lbrakk>0 < g; MINOR_TICK_GROUP_SIZE dvd g; boot_timers s0; software_timers_init mc cached mem s0 = Some s\<rbrakk> \<Longrightarrow> timers_reach g mc c s"
| reach_new: "\<lbrakk>timers_reach g mc c s; timer_major s t = None\<rbrakk> \<Longrightarrow> timers_reach g mc c (init_timer t tx tp prio s)"
| reach_add: "\<lbrakk>timers_reach g mc c s; timer_major s t = None; add_timer g mc m m' t s = Some (r, x, s')\<rbrakk> \<Longrightarrow> timers_reach g mc c s'"
| reach_modify: "\<lbrakk>timers_reach g mc c s; modify_timer g mc m m' t tx s = Some (r, x, s')\<rbrakk> \<Longrightarrow> timers_reach g mc c s'"
| reach_delete: "\<lbrakk>timers_reach g mc c s; delete_timer mc t s = Some s'\<rbrakk> \<Longrightarrow> timers_reach g mc c s'"
| reach_tick: "\<lbrakk>timers_reach g mc c s; timer_tick_step g c cur s = Some s'\<rbrakk> \<Longrightarrow> timers_reach g mc c s'"
| reach_fire: "\<lbrakk>timers_reach g mc c s; fire_deffered_actions b c cur (tdas s) = (fired, d)\<rbrakk> \<Longrightarrow> timers_reach g mc c (s\<lparr>tdas := d\<rparr>)"

fun timer_ticks :: "nat \<Rightarrow> nat \<Rightarrow> nat list \<Rightarrow> timers \<Rightarrow> timers option" where
  "timer_ticks g c [] s = Some s"
| "timer_ticks g c (cur # curs) s = do { s \<leftarrow> timer_tick_step g c cur s; timer_ticks g c curs s }"

lemma init_inv:
  assumes "0 < g" "MINOR_TICK_GROUP_SIZE dvd g" "boot_timers s0" "software_timers_init mc cached mem s0 = Some s"
  shows "timers_inv g c s"
  using assms by (auto simp: software_timers_init_def init_sw_timers_def boot_timers_def initialize_deffered_actions_def timers_inv_def
      timers_ok_def da_ok_def refs_ok_def majors_used_def armed_def due_def bind_eq_Some_conv split: if_splits)

lemma modify_inv:
  assumes inv: "timers_inv g c s" and r: "modify_timer g mc m m' t tx s = Some (r, x, s')"
  shows "timers_inv g c s'"
proof (cases "tx \<le> system_ticks s")
  case True
  then show ?thesis using r inv by (simp add: modify_timer_def)
next
  case False
  obtain d where d: "(if timer_major s t \<noteq> None then delete_timer mc t s else Some s) = Some d" "timers_inv g c d" "timer_major d t = None"
    using delete_spec [OF inv, of mc t] inv by (cases "timer_major s t") auto
  have "timers_inv g c (d\<lparr>timer_time := (timer_time d)(t := tx)\<rparr>)" by (rule inv_reset [OF d(2,3)]) simp_all
  moreover have "add_timer g mc m m' t (d\<lparr>timer_time := (timer_time d)(t := tx)\<rparr>) = Some (r, x, s')"
    using r d(1) False by (simp add: modify_timer_def)
  ultimately show ?thesis using add_inv d(3) by simp
qed

lemma reach_inv: "timers_reach g mc c s \<Longrightarrow> timers_inv g c s"
proof (induction rule: timers_reach.induct)
  case (reach_init s0 cached mem s)
  then show ?case by (intro init_inv)
next
  case (reach_new s t tx tp prio)
  show ?case by (rule inv_reset [OF reach_new.IH reach_new.hyps(2)]) (auto simp: init_timer_def da_prio_def reach_new.hyps(2))
next
  case (reach_add s t m m' r x s')
  then show ?case by (blast intro: add_inv)
next
  case (reach_modify s m m' t tx r x s')
  then show ?case by (blast intro: modify_inv)
next
  case (reach_delete s t s')
  then show ?case using delete_spec [of g c s mc t] by auto
next
  case (reach_tick s cur s')
  then show ?case using tick_inv [OF reach_tick.IH refl, of cur] by auto
next
  case (reach_fire s b cur fired d)
  then show ?case by (blast intro: fire_inv)
qed

lemma ticks_spec:
  assumes "timers_inv g c s"
  shows "\<exists>s'. timer_ticks g c curs s = Some s' \<and> timers_inv g c s' \<and>
    (\<forall>x. x \<in> set (pending (tdas s') c) \<longleftrightarrow> x \<in> set (pending (tdas s) c) \<or>
      armed g s x \<and> timer_time s x \<le> system_ticks s + length curs)"
  using assms
proof (induction curs arbitrary: s)
  case Nil
  then show ?case by (auto simp: timers_inv_def armed_def dest: due_member)
next
  case (Cons cur curs)
  let ?n = "system_ticks s + 1"
  obtain u where u: "timer_tick_step g c cur s = Some u" "timers_inv g c u"
    "pending (tdas u) c = seq_insert_all (da_prio (tdas s)) (due g s ?n) (pending (tdas s) c)"
    "\<forall>m. m \<noteq> ?n \<longrightarrow> due g u m = due g s m" "system_ticks u = ?n" "timer_time u = timer_time s"
    using tick_inv [OF Cons.prems refl, of cur] by (elim exE conjE)
  obtain s' where s': "timer_ticks g c curs u = Some s'" "timers_inv g c s'"
    "\<forall>x. x \<in> set (pending (tdas s') c) \<longleftrightarrow> x \<in> set (pending (tdas u) c) \<or> armed g u x \<and> timer_time u x \<le> system_ticks u + length curs"
    using Cons.IH [OF u(2)] by (elim exE conjE)
  have ok: "timers_ok g s" "timers_ok g u" using Cons.prems u(2) by (auto simp: timers_inv_def)
  have "due g u ?n = []" using due_past [OF ok(2)] u(5) by simp
  then have a: "armed g u x \<longleftrightarrow> armed g s x \<and> timer_time s x \<noteq> ?n" for x
    using u(4,6) by (cases "timer_time s x = ?n") (simp_all add: armed_def)
  have d: "x \<in> set (due g s ?n) \<longleftrightarrow> armed g s x \<and> timer_time s x = ?n" for x
    using due_member [OF ok(1)] due_armed [OF ok(1)] by (auto simp: armed_def)
  have "x \<in> set (pending (tdas s') c) \<longleftrightarrow> x \<in> set (pending (tdas s) c) \<or>
      armed g s x \<and> timer_time s x \<le> system_ticks s + length (cur # curs)" for x
    using s'(3) [rule_format, of x] a [of x] d [of x] by (auto simp: u(3,5,6) simp del: Suc_eq_plus1)
  then show ?case using u(1) s'(1,2) by (intro exI [of _ s'] conjI) simp_all
qed

section \<open>Properties\<close>

definition timers0 :: timers where
  "timers0 = \<lparr>timers_list = [], num_cached_major_ticks = 0, system_ticks = 5, last_processed_timer_tick = 0, expired_majors = [],
     timer_time = (\<lambda>_. 0), timer_major = (\<lambda>_. None),
     tdas = \<lparr>cpu_actions = (\<lambda>_. \<lparr>pending_actions = [], executers = 0, works_pending = False\<rparr>),
       actions = (\<lambda>_. \<lparr>da_type = DEF_ACTION_UNBLOCK, da_priority = 0, da_host = None\<rparr>)\<rparr>\<rparr>"

text \<open>A run: the timers are initialised, a timer is set up for tick 7, and it is armed.\<close>

definition timers1 :: timers where
  "timers1 = init_timer 2 7 DEF_ACTION_UNBLOCK 4 (timers0\<lparr>num_cached_major_ticks := 2, tdas := initialize_deffered_actions (tdas timers0)\<rparr>)"

definition timers2 :: timers where
  "timers2 = the (map_option (snd \<circ> snd) (add_timer 32 1 True True 2 timers1))"

lemma timers1_reach: "timers_reach 32 1 0 timers1"
proof -
  have "software_timers_init 1 2 (\<lambda>_. True) timers0 = Some (timers0\<lparr>num_cached_major_ticks := 2, tdas := initialize_deffered_actions (tdas timers0)\<rparr>)"
    by (simp add: software_timers_init_def init_sw_timers_def)
  then have "timers_reach 32 1 0 (timers0\<lparr>num_cached_major_ticks := 2, tdas := initialize_deffered_actions (tdas timers0)\<rparr>)"
    by (intro reach_init [of 32 timers0]) (simp_all add: MINOR_TICK_GROUP_SIZE_def boot_timers_def timers0_def)
  then show ?thesis unfolding timers1_def by (rule reach_new) (simp add: timers0_def)
qed

lemma timers1_fields [simp]:
  "timer_major timers1 = (\<lambda>_. None)" "system_ticks timers1 = 5" "timer_time timers1 2 = 7" "num_cached_major_ticks timers1 = 2"
  "timers_list timers1 = []" "last_processed_timer_tick timers1 = 0"
  by (simp_all add: timers1_def init_timer_def timers0_def fun_eq_iff)

lemma timers2_reach: "timers_reach 32 1 0 timers2" "timer_major timers2 2 = Some 0" "system_ticks timers2 = 5"
proof -
  have a: "\<exists>s. add_timer 32 1 True True 2 timers1 = Some (0, False, s) \<and> timer_major s 2 = Some 0 \<and> system_ticks s = 5"
    by (simp add: add_timer_def Let_def major_of_def group_index_def MAJOR_TIMER_TICK_INIT_def MINOR_TICK_GROUPS_def MINOR_TICK_GROUP_SIZE_def)
  then obtain s where s: "add_timer 32 1 True True 2 timers1 = Some (0, False, s)" "timer_major s 2 = Some 0" "system_ticks s = 5" by blast
  then have "timers2 = s" by (simp add: timers2_def)
  then show "timers_reach 32 1 0 timers2" "timer_major timers2 2 = Some 0" "system_ticks timers2 = 5"
    using reach_add [OF timers1_reach _ s(1)] s by simp_all
qed

text \<open>
  C10. However timers are set up, armed, modified and deleted while the clock ticks and actions fire, the
  reference count of every major tick is the number of timers that point to it and is positive, every
  timer that points to a major tick finds it in use, and every armed timer lies in the future and is not
  among the pending actions at the same time.
\<close>

theorem timers_reference_counts:
  assumes "timers_reach g mc c s"
  shows "(\<forall>mt \<in> set (timers_list s @ expired_majors s). use_counter mt = card {t. timer_major s t = Some (mt_time mt)} \<and> 0 < use_counter mt) \<and>
    (\<forall>t v. timer_major s t = Some v \<longrightarrow> (\<exists>mt \<in> set (timers_list s @ expired_majors s). mt_time mt = v)) \<and>
    (\<forall>t. armed g s t \<longrightarrow> system_ticks s < timer_time s t \<and> t \<notin> set (pending (tdas s) c))"
proof -
  have inv: "timers_inv g c s" using assms by (rule reach_inv)
  then have "refs_ok g s" "timers_ok g s" by (simp_all add: timers_inv_def)
  note rt = this
  have "\<forall>mt \<in> set (timers_list s @ expired_majors s). use_counter mt = card {t. timer_major s t = Some (mt_time mt)} \<and> 0 < use_counter mt"
  proof
    fix mt assume "mt \<in> set (timers_list s @ expired_majors s)"
    then have "(mt_time mt, use_counter mt) \<in> majors_used s" by (simp add: majors_used_def)
    then show "use_counter mt = card {t. timer_major s t = Some (mt_time mt)} \<and> 0 < use_counter mt"
      using rt(1) by (auto simp: refs_ok_def)
  qed
  moreover have "\<exists>mt \<in> set (timers_list s @ expired_majors s). mt_time mt = v" if "timer_major s t = Some v" for t v
  proof -
    have "v \<in> fst ` majors_used s" using rt(1) that unfolding refs_ok_def by blast
    then show ?thesis unfolding majors_used_def by auto
  qed
  moreover have "system_ticks s < timer_time s t \<and> t \<notin> set (pending (tdas s) c)" if "armed g s t" for t
    using that inv due_member [OF rt(2)] unfolding timers_inv_def armed_def by blast
  ultimately show ?thesis by blast
qed

theorem timers_reference_counts_witness:
  "\<exists>mt \<in> set (timers_list timers2 @ expired_majors timers2). mt_time mt = 0 \<and> 0 < use_counter mt"
  using timers_reference_counts [OF timers2_reach(1)] timers2_reach(2) by blast





end
