(* ===== verification/Strings.thy ===== *)
theory Strings
  imports Prelude
begin

text \<open>
  The memory and string routines of \<^verbatim>\<open>kernel/generic/string.c\<close> and \<^verbatim>\<open>include/mstring/string.h\<close>. Memory
  maps addresses to characters; reading or writing an unmapped address is a fault. A scan for the
  terminating character of a string that has none leaves the mapped memory or does not return, so the
  scans are partial functions and what they return for proper strings is proved.
\<close>

section \<open>Memory\<close>

type_synonym memory = "nat \<Rightarrow> char option"

abbreviation NUL :: char where "NUL \<equiv> CHR 0x00"

text \<open>\<^verbatim>\<open>char\<close> is signed.\<close>

definition schar :: "char \<Rightarrow> int" where
  "schar c = (if of_char c < (128 :: int) then of_char c else of_char c - 256)"

definition wr :: "memory \<Rightarrow> nat \<Rightarrow> char \<Rightarrow> memory option" where
  "wr m p c = (if m p = None then None else Some (m(p \<mapsto> c)))"

fun load :: "memory \<Rightarrow> nat \<Rightarrow> nat \<Rightarrow> char list option" where
  "load m p 0 = Some []"
| "load m p (Suc n) = do { c \<leftarrow> m p; cs \<leftarrow> load m (p + 1) n; Some (c # cs) }"

fun store :: "memory \<Rightarrow> nat \<Rightarrow> char list \<Rightarrow> memory option" where
  "store m p [] = Some m"
| "store m p (c # cs) = do { m \<leftarrow> wr m p c; store m (p + 1) cs }"

section \<open>\<^verbatim>\<open>string.c\<close>\<close>

fun memset :: "memory \<Rightarrow> nat \<Rightarrow> char \<Rightarrow> nat \<Rightarrow> memory option" where
  "memset m s c 0 = Some m"
| "memset m s c (Suc n) = do { m \<leftarrow> wr m s c; memset m (s + 1) c n }"

fun memcpy :: "memory \<Rightarrow> nat \<Rightarrow> nat \<Rightarrow> nat \<Rightarrow> memory option" where
  "memcpy m dst src 0 = Some m"
| "memcpy m dst src (Suc n) = do { c \<leftarrow> m src; m \<leftarrow> wr m dst c; memcpy m (dst + 1) (src + 1) n }"

definition MEMMOVE_BUFSIZE :: nat where "MEMMOVE_BUFSIZE = 256"

text \<open>One round copies a chunk to the buffer on the stack and from there to the destination.\<close>

function memmove_loop :: "memory \<Rightarrow> nat \<Rightarrow> nat \<Rightarrow> nat \<Rightarrow> nat \<Rightarrow> memory option" where
  "memmove_loop m dst src n copied =
     (if n = 0 then Some m
      else let chunk = (if MEMMOVE_BUFSIZE > n then n else MEMMOVE_BUFSIZE)
           in do {
             buf \<leftarrow> load m (src + copied) chunk;
             m \<leftarrow> store m (dst + copied) buf;
             memmove_loop m dst src (n - chunk) (copied + chunk)
           })"
  by auto

termination by (relation "measure (\<lambda>(m, dst, src, n, copied). n)") (auto simp: MEMMOVE_BUFSIZE_def)

definition memmove :: "memory \<Rightarrow> nat \<Rightarrow> nat \<Rightarrow> nat \<Rightarrow> memory option" where
  "memmove m dst src n = memmove_loop m dst src n 0"

fun memcmp :: "memory \<Rightarrow> nat \<Rightarrow> nat \<Rightarrow> nat \<Rightarrow> int option" where
  "memcmp m s1 s2 0 = Some 0"
| "memcmp m s1 s2 (Suc n) = do {
     a \<leftarrow> m s1; b \<leftarrow> m s2;
     if a \<noteq> b then Some (schar a - schar b) else memcmp m (s1 + 1) (s2 + 1) n
   }"

section \<open>\<^verbatim>\<open>string.h\<close>\<close>

partial_function (option) strlen_loop :: "memory \<Rightarrow> nat \<Rightarrow> nat \<Rightarrow> nat option" where
  "strlen_loop m p n = do { c \<leftarrow> m p; if c = NUL then Some n else strlen_loop m (p + 1) (n + 1) }"

definition strlen :: "memory \<Rightarrow> nat \<Rightarrow> nat option" where
  "strlen m s = strlen_loop m s 0"

text \<open>The loop of \<^verbatim>\<open>strncpy\<close> and \<^verbatim>\<open>strncat\<close> is the one of \<^verbatim>\<open>memcpy\<close>: it does not look for the end of the source.\<close>

definition strncpy :: "memory \<Rightarrow> nat \<Rightarrow> nat \<Rightarrow> nat \<Rightarrow> memory option" where
  "strncpy m dst src n = do { m \<leftarrow> memcpy m dst src n; wr m (dst + n) NUL }"

partial_function (option) copy_str :: "memory \<Rightarrow> nat \<Rightarrow> nat \<Rightarrow> memory option" where
  "copy_str m to from = do {
     c \<leftarrow> m from;
     if c = NUL then wr m to NUL
     else do { m \<leftarrow> wr m to c; copy_str m (to + 1) (from + 1) }
   }"

definition strcpy :: "memory \<Rightarrow> nat \<Rightarrow> nat \<Rightarrow> memory option" where
  "strcpy m dst src = copy_str m dst src"

partial_function (option) find_char :: "memory \<Rightarrow> char \<Rightarrow> nat \<Rightarrow> nat option" where
  "find_char m c p = do { x \<leftarrow> m p; if x = NUL \<or> x = c then Some p else find_char m c (p + 1) }"

definition strncat :: "memory \<Rightarrow> nat \<Rightarrow> nat \<Rightarrow> nat \<Rightarrow> memory option" where
  "strncat m dst src n = do { to \<leftarrow> find_char m NUL dst; m \<leftarrow> memcpy m to src n; wr m (to + n) NUL }"

definition strcat :: "memory \<Rightarrow> nat \<Rightarrow> nat \<Rightarrow> memory option" where
  "strcat m dst src = do { to \<leftarrow> find_char m NUL dst; copy_str m to src }"

text \<open>The loop of \<^verbatim>\<open>strncmp\<close> is the one of \<^verbatim>\<open>memcmp\<close>.\<close>

definition strncmp :: "memory \<Rightarrow> nat \<Rightarrow> nat \<Rightarrow> nat \<Rightarrow> int option" where
  "strncmp m s1 s2 n = memcmp m s1 s2 n"

partial_function (option) strcmp :: "memory \<Rightarrow> nat \<Rightarrow> nat \<Rightarrow> int option" where
  "strcmp m p1 p2 = do {
     a \<leftarrow> m p1; b \<leftarrow> m p2;
     if a \<noteq> NUL \<and> b \<noteq> NUL then (if a \<noteq> b then Some (schar a - schar b) else strcmp m (p1 + 1) (p2 + 1))
     else if a = NUL \<and> b = NUL then Some 0
     else if b = NUL then Some 1
     else Some (- 1)
   }"

text \<open>A \<^verbatim>\<open>NULL\<close> result is \<open>None\<close> inside the option of the fault.\<close>

definition strchr :: "memory \<Rightarrow> nat \<Rightarrow> char \<Rightarrow> nat option option" where
  "strchr m s c = do { p \<leftarrow> find_char m c s; x \<leftarrow> m p; Some (if x = NUL then None else Some p) }"

text \<open>\<^verbatim>\<open>while (*p++ == c)\<close>: the pointer stops one past the first other character.\<close>

partial_function (option) skip_char :: "memory \<Rightarrow> char \<Rightarrow> nat \<Rightarrow> nat option" where
  "skip_char m c p = do { x \<leftarrow> m p; if x = c then skip_char m c (p + 1) else Some (p + 1) }"

definition strrchr :: "memory \<Rightarrow> nat \<Rightarrow> char \<Rightarrow> nat option option" where
  "strrchr m s c = do {
     p \<leftarrow> find_char m c s; x \<leftarrow> m p;
     if x = NUL then Some None else do { q \<leftarrow> skip_char m c p; Some (Some q) }
   }"

text \<open>\<^verbatim>\<open>while ((*s1 != '\0') && (*s1 != '\0') && (*s1++ == *s2++))\<close>: both pointers move even when the characters differ.\<close>

partial_function (option) match_needle :: "memory \<Rightarrow> nat \<Rightarrow> nat \<Rightarrow> (nat \<times> nat) option" where
  "match_needle m s1 s2 = do {
     a \<leftarrow> m s1;
     if a = NUL then Some (s1, s2)
     else do { b \<leftarrow> m s2; if a = b then match_needle m (s1 + 1) (s2 + 1) else Some (s1 + 1, s2 + 1) }
   }"

definition strstr :: "memory \<Rightarrow> nat \<Rightarrow> nat \<Rightarrow> nat option option" where
  "strstr m haystack needle = do {
     n \<leftarrow> m needle;
     s1 \<leftarrow> find_char m n haystack;
     (s1, s2) \<leftarrow> match_needle m s1 needle;
     a \<leftarrow> m s1; 
     if a = NUL then Some None else do { b \<leftarrow> m s2; Some (if b = NUL then None else Some s1) }
   }"

section \<open>Strings in memory\<close>

fun at :: "memory \<Rightarrow> nat \<Rightarrow> char list \<Rightarrow> bool" where
  "at m p [] = True"
| "at m p (c # cs) = (m p = Some c \<and> at m (p + 1) cs)"

definition cstr :: "memory \<Rightarrow> nat \<Rightarrow> char list \<Rightarrow> bool" where
  "cstr m p s \<longleftrightarrow> at m p (s @ [NUL]) \<and> NUL \<notin> set s"

definition mapped :: "memory \<Rightarrow> nat \<Rightarrow> nat \<Rightarrow> bool" where
  "mapped m p n \<longleftrightarrow> (\<forall>i < n. m (p + i) \<noteq> None)"

text \<open>Memory outside of a region is unchanged.\<close>

definition same_but :: "memory \<Rightarrow> memory \<Rightarrow> nat \<Rightarrow> nat \<Rightarrow> bool" where
  "same_but m m' p n \<longleftrightarrow> (\<forall>q. q < p \<or> p + n \<le> q \<longrightarrow> m' q = m q)"

lemma at_append [simp]: "at m p (xs @ ys) \<longleftrightarrow> at m p xs \<and> at m (p + length xs) ys"
  by (induction xs arbitrary: p) auto

lemma at_nth: "at m p xs \<longleftrightarrow> (\<forall>i < length xs. m (p + i) = Some (xs ! i))"
proof (induction xs arbitrary: p)
  case (Cons x xs)
  then show ?case by (auto simp: nth_Cons' less_Suc_eq_0_disj)
qed simp

lemma at_frame: "at m p xs \<Longrightarrow> same_but m m' q n \<Longrightarrow> p + length xs \<le> q \<or> q + n \<le> p \<Longrightarrow> at m' p xs"
  unfolding at_nth same_but_def by (metis add_leD1 add_less_cancel_left le_add1 order.strict_trans2 order_trans)

lemma load_at: "load m p n = Some xs \<longleftrightarrow> length xs = n \<and> at m p xs"
proof (induction n arbitrary: p xs)
  case (Suc n)
  then show ?case by (cases xs) (auto simp: bind_eq_Some_conv)
qed auto

lemma load_mapped: "mapped m p n \<longleftrightarrow> (\<exists>xs. load m p n = Some xs)"
proof (induction n arbitrary: p)
  case (Suc n)
  have "mapped m p (Suc n) \<longleftrightarrow> m p \<noteq> None \<and> mapped m (p + 1) n"
    by (auto simp: mapped_def less_Suc_eq_0_disj)
  then show ?case using Suc by (auto simp: bind_eq_Some_conv)
qed (simp add: mapped_def)

lemma wr_Some [simp]: "m p \<noteq> None \<Longrightarrow> wr m p c = Some (m(p \<mapsto> c))"
  by (simp add: wr_def)

lemma mapped_upd: "m p \<noteq> None \<Longrightarrow> mapped (m(p \<mapsto> c)) q n = mapped m q n"
  by (auto simp: mapped_def)

lemma mapped_Suc: "mapped m p (Suc n) \<longleftrightarrow> m p \<noteq> None \<and> mapped m (p + 1) n"
  by (auto simp: mapped_def less_Suc_eq_0_disj)

lemma store_spec:
  assumes "mapped m p (length xs)"
  shows "\<exists>m'. store m p xs = Some m' \<and> at m' p xs \<and> same_but m m' p (length xs) \<and> dom m' = dom m"
  using assms
proof (induction xs arbitrary: m p)
  case (Cons x xs)
  have p: "m p \<noteq> None" "mapped (m(p \<mapsto> x)) (p + 1) (length xs)" using Cons.prems by (auto simp: mapped_Suc mapped_upd)
  obtain m' where m': "store (m(p \<mapsto> x)) (p + 1) xs = Some m'" "at m' (p + 1) xs" "same_but (m(p \<mapsto> x)) m' (p + 1) (length xs)"
    "dom m' = dom (m(p \<mapsto> x))" using Cons.IH [OF p(2)] by blast
  have "m' p = Some x" using m'(3) by (auto simp: same_but_def)
  moreover have "same_but m m' p (length (x # xs))" using m'(3) by (auto simp: same_but_def)
  ultimately show ?case using m' p(1) by auto
qed (simp add: same_but_def)

lemma same_but_refl [simp]: "same_but m m p n"
  by (simp add: same_but_def)

lemma same_but_mono: "same_but m m' q k \<Longrightarrow> p \<le> q \<Longrightarrow> q + k \<le> p + n \<Longrightarrow> same_but m m' p n"
  unfolding same_but_def by (metis order.strict_trans2 order_trans)

lemma same_but_trans: "same_but m m' p n \<Longrightarrow> same_but m' m'' p n \<Longrightarrow> same_but m m'' p n"
  by (simp add: same_but_def)

lemma mapped_frame: "dom m' = dom m \<Longrightarrow> mapped m' p n = mapped m p n"
  unfolding mapped_def by (metis domIff)

lemma mapped_part: "mapped m p n \<Longrightarrow> p \<le> q \<Longrightarrow> q + k \<le> p + n \<Longrightarrow> mapped m q k"
proof -
  assume a: "mapped m p n" "p \<le> q" "q + k \<le> p + n"
  have "m (q + i) \<noteq> None" if "i < k" for i
  proof -
    have "q - p + i < n" "p + (q - p + i) = q + i" using a(2,3) that by linarith+
    then show ?thesis using a(1) unfolding mapped_def by metis
  qed
  then show ?thesis by (simp add: mapped_def)
qed

section \<open>Copying\<close>

lemma memmove_loop_spec:
  assumes "at m (src + copied) xs" "length xs = n" "mapped m (dst + copied) n"
    "n \<le> MEMMOVE_BUFSIZE \<or> dst \<le> src \<or> src + copied + n \<le> dst + copied"
  shows "\<exists>m'. memmove_loop m dst src n copied = Some m' \<and> at m' (dst + copied) xs \<and> same_but m m' (dst + copied) n \<and> dom m' = dom m"
  using assms
proof (induction m dst src n copied arbitrary: xs rule: memmove_loop.induct)
  case (1 m dst src n copied)
  show ?case
  proof (cases "n = 0")
    case True
    then show ?thesis using "1.prems"(2) by simp
  next
    case False
    let ?k = "if MEMMOVE_BUFSIZE > n then n else MEMMOVE_BUFSIZE"
    let ?a = "take ?k xs" and ?b = "drop ?k xs"
    have k: "0 < ?k" "?k \<le> n" "?k = n \<or> ?k = MEMMOVE_BUFSIZE" using False by (auto simp: MEMMOVE_BUFSIZE_def)
    have ab: "at m (src + copied) ?a" "at m (src + (copied + ?k)) ?b" "length ?a = ?k" "length ?b = n - ?k"
      using "1.prems"(1,2) k at_append [of m "src + copied" ?a ?b] by (auto simp: add.assoc)
    have ld: "load m (src + copied) ?k = Some ?a" using ab load_at by blast
    have "mapped m (dst + copied) (length ?a)" using mapped_part [OF "1.prems"(3), of "dst + copied" ?k] ab(3) k(2) by simp
    from store_spec [OF this] obtain u where u: "store m (dst + copied) ?a = Some u" "at u (dst + copied) ?a"
      "same_but m u (dst + copied) ?k" "dom u = dom m" using ab(3) by metis
    have cond: "n - ?k \<le> MEMMOVE_BUFSIZE \<or> dst \<le> src \<or> src + (copied + ?k) + (n - ?k) \<le> dst + (copied + ?k)"
      using "1.prems"(4) k(2) by linarith
    have "at u (src + (copied + ?k)) ?b"
    proof (cases "?k = n")
      case False
      then have "dst \<le> src \<or> src + copied + n \<le> dst + copied" using "1.prems"(4) k by linarith
      then have "src + (copied + ?k) + length ?b \<le> dst + copied \<or> dst + copied + ?k \<le> src + (copied + ?k)" using ab(4) k(2) by linarith
      then show ?thesis by (rule at_frame [OF ab(2) u(3)])
    qed (use ab(4) in simp)
    moreover have "mapped u (dst + (copied + ?k)) (n - ?k)"
      using mapped_part [OF "1.prems"(3), of "dst + (copied + ?k)" "n - ?k"] k(2) mapped_frame [OF u(4)] by simp
    ultimately obtain m' where m': "memmove_loop u dst src (n - ?k) (copied + ?k) = Some m'" "at m' (dst + (copied + ?k)) ?b"
      "same_but u m' (dst + (copied + ?k)) (n - ?k)" "dom m' = dom u"
      using "1.IH" [OF False refl ld u(1) _ ab(4) _ cond] by blast
    have "at m' (dst + copied) ?a" by (rule at_frame [OF u(2) m'(3)]) (use ab(3) in simp)
    then have "at m' (dst + copied) (?a @ ?b)" using m'(2) ab(3) unfolding at_append by (simp only: add.assoc)
    moreover have "same_but m m' (dst + copied) n"
    proof (rule same_but_trans)
      show "same_but m u (dst + copied) n" by (rule same_but_mono [OF u(3)]) (use k(2) in simp_all)
      show "same_but u m' (dst + copied) n" by (rule same_but_mono [OF m'(3)]) (use k(2) in simp_all)
    qed
    moreover have "memmove_loop m dst src n copied = Some m'" using False ld u(1) m'(1) by (simp add: Let_def)
    ultimately show ?thesis using m'(4) u(4) by auto
  qed
qed

lemma memcpy_spec:
  assumes "at m src xs" "mapped m dst (length xs)" "dst \<le> src \<or> src + length xs \<le> dst"
  shows "\<exists>m'. memcpy m dst src (length xs) = Some m' \<and> at m' dst xs \<and> same_but m m' dst (length xs) \<and> dom m' = dom m"
  using assms
proof (induction xs arbitrary: m dst src)
  case (Cons x xs)
  have p: "m src = Some x" "m dst \<noteq> None" "mapped (m(dst \<mapsto> x)) (dst + 1) (length xs)" using Cons.prems by (auto simp: mapped_Suc mapped_upd)
  have "same_but m (m(dst \<mapsto> x)) dst 1" by (auto simp: same_but_def)
  then have q: "at (m(dst \<mapsto> x)) (src + 1) xs" "dst + 1 \<le> src + 1 \<or> src + 1 + length xs \<le> dst + 1"
    using Cons.prems(1,3) by (auto elim!: at_frame)
  obtain m' where m': "memcpy (m(dst \<mapsto> x)) (dst + 1) (src + 1) (length xs) = Some m'" "at m' (dst + 1) xs"
    "same_but (m(dst \<mapsto> x)) m' (dst + 1) (length xs)" "dom m' = dom (m(dst \<mapsto> x))"
    using Cons.IH [OF q(1) p(3) q(2)] by (elim exE conjE)
  have "m' dst = Some x" "same_but m m' dst (length (x # xs))" using m'(3) by (auto simp: same_but_def)
  then show ?case using m' p by auto
qed (simp add: same_but_def)

lemma memset_spec:
  assumes "mapped m p n"
  shows "\<exists>m'. memset m p c n = Some m' \<and> at m' p (replicate n c) \<and> same_but m m' p n"
  using assms
proof (induction n arbitrary: m p)
  case (Suc n)
  have p: "m p \<noteq> None" "mapped (m(p \<mapsto> c)) (p + 1) n" using Suc.prems by (auto simp: mapped_Suc mapped_upd)
  obtain m' where m': "memset (m(p \<mapsto> c)) (p + 1) c n = Some m'" "at m' (p + 1) (replicate n c)" "same_but (m(p \<mapsto> c)) m' (p + 1) n"
    using Suc.IH [OF p(2)] by blast
  have "m' p = Some c" "same_but m m' p (Suc n)" using m'(3) by (auto simp: same_but_def)
  then show ?case using m' p by auto
qed simp

section \<open>Strings\<close>

lemma cstr_Nil: "cstr m p [] \<longleftrightarrow> m p = Some NUL"
  by (simp add: cstr_def)

lemma cstr_Cons: "cstr m p (c # s) \<longleftrightarrow> m p = Some c \<and> c \<noteq> NUL \<and> cstr m (p + 1) s"
  by (auto simp: cstr_def)

lemma cstr_append: "cstr m p (s @ t) \<longleftrightarrow> at m p s \<and> NUL \<notin> set s \<and> cstr m (p + length s) t"
  by (auto simp: cstr_def add.assoc)

lemma cstr_frame:
  "cstr m p s \<Longrightarrow> same_but m m' q n \<Longrightarrow> p + length s < q \<or> q + n \<le> p \<Longrightarrow> cstr m' p s"
  unfolding cstr_def using at_frame [of m p "s @ [NUL]" m' q n] by auto

lemma strlen_loop_spec: "cstr m p s \<Longrightarrow> strlen_loop m p n = Some (n + length s)"
  by (induction s arbitrary: p n) (subst strlen_loop.simps, simp add: cstr_Nil cstr_Cons)+

lemma find_char_spec:
  "cstr m p (s @ t) \<Longrightarrow> c \<notin> set s \<Longrightarrow> (case t of [] \<Rightarrow> True | x # _ \<Rightarrow> x = c) \<Longrightarrow> find_char m c p = Some (p + length s)"
proof (induction s arbitrary: p)
  case Nil
  then show ?case by (subst find_char.simps) (auto simp: cstr_Nil cstr_Cons split: list.splits)
next
  case (Cons x s)
  then show ?case by (subst find_char.simps) (auto simp: cstr_Cons)
qed

lemma copy_str_spec:
  assumes "cstr m src s" "mapped m dst (length s + 1)" "src + length s < dst \<or> dst + length s < src"
  shows "\<exists>m'. copy_str m dst src = Some m' \<and> cstr m' dst s \<and> same_but m m' dst (length s + 1) \<and> dom m' = dom m"
  using assms
proof (induction s arbitrary: m dst src)
  case Nil
  then show ?case by (subst copy_str.simps) (auto simp: cstr_Nil mapped_Suc same_but_def)
next
  case (Cons x s)
  have p: "m src = Some x" "x \<noteq> NUL" "m dst \<noteq> None" "mapped (m(dst \<mapsto> x)) (dst + 1) (length s + 1)"
    using Cons.prems by (auto simp: mapped_Suc mapped_upd cstr_Cons)
  have "same_but m (m(dst \<mapsto> x)) dst 1" by (auto simp: same_but_def)
  then have q: "cstr (m(dst \<mapsto> x)) (src + 1) s" "src + 1 + length s < dst + 1 \<or> dst + 1 + length s < src + 1"
    using Cons.prems(1,3) by (auto simp: cstr_Cons elim!: cstr_frame)
  obtain m' where m': "copy_str (m(dst \<mapsto> x)) (dst + 1) (src + 1) = Some m'" "cstr m' (dst + 1) s"
    "same_but (m(dst \<mapsto> x)) m' (dst + 1) (length s + 1)" "dom m' = dom (m(dst \<mapsto> x))"
    using Cons.IH [OF q(1) p(4) q(2)] by (elim exE conjE)
  have "m' dst = Some x" "same_but m m' dst (length (x # s) + 1)" using m'(3) by (auto simp: same_but_def)
  then show ?case using m' p by (subst copy_str.simps) (auto simp: cstr_Cons)
qed

lemma strcmp_spec:
  assumes "cstr m p1 s" "cstr m p2 t"
  shows "\<exists>r. strcmp m p1 p2 = Some r \<and> (r = 0 \<longleftrightarrow> s = t)"
  using assms
proof (induction s arbitrary: t p1 p2)
  case Nil
  then show ?case by (cases t; subst strcmp.simps) (auto simp: cstr_Nil cstr_Cons)
next
  case (Cons a s)
  have inj: "schar a \<noteq> schar b" if "a \<noteq> b" for b :: char
  proof
    assume "schar a = schar b"
    moreover have "of_char a < (256 :: int)" "of_char b < (256 :: int)" "0 \<le> (of_char a :: int)" "0 \<le> (of_char b :: int)"
      using pos_mod_bound [of 256 "of_char a"] pos_mod_bound [of 256 "of_char b"] pos_mod_sign [of 256 "of_char a"]
        pos_mod_sign [of 256 "of_char b"] by simp_all
    ultimately have "of_char a = (of_char b :: int)" by (auto simp: schar_def split: if_splits)
    then show False using that by simp
  qed
  show ?case
  proof (cases t)
    case Nil
    then show ?thesis using Cons.prems by (subst strcmp.simps) (auto simp: cstr_Nil cstr_Cons)
  next
    case (Cons b u)
    then show ?thesis using Cons.IH [of "p1 + 1" "p2 + 1" u] Cons.prems inj [of b] by (subst strcmp.simps) (auto simp: cstr_Cons)
  qed
qed

section \<open>Where the routines differ from their C library namesakes\<close>

lemma memcmp_differs: "at m p1 xs \<Longrightarrow> at m p2 xs \<Longrightarrow> m (p1 + length xs) = Some a \<Longrightarrow> m (p2 + length xs) = Some b \<Longrightarrow> a \<noteq> b \<Longrightarrow>
    memcmp m p1 p2 (Suc (length xs)) = Some (schar a - schar b)"
  by (induction xs arbitrary: p1 p2) auto

lemma strncmp_past_end:
  assumes "cstr m p s" "cstr m q s" "m (p + length s + 1) = Some a" "m (q + length s + 1) = Some b" "a \<noteq> b"
  shows "strncmp m p q (length s + 2) = Some (schar a - schar b)"
  using assms memcmp_differs [of m p "s @ [NUL]" q a b] by (simp add: strncmp_def cstr_def)

lemma strncpy_overruns:
  assumes "mapped m src n" "m (dst + n) = None"
  shows "strncpy m dst src n = None"
proof -
  have "memcpy m d s n = Some m' \<Longrightarrow> m e = None \<Longrightarrow> m' e = None" for m m' d s e
  proof (induction n arbitrary: m d s)
    case (Suc n)
    then show ?case by (auto simp: bind_eq_Some_conv wr_def split: if_splits) (metis fun_upd_apply option.distinct(1))
  qed simp
  then show ?thesis using assms(2) by (cases "memcpy m dst src n") (auto simp: strncpy_def wr_def)
qed

lemma strrchr_past_match:
  assumes "cstr m s (x @ c # y)" "c \<notin> set x" "y = [] \<or> hd y \<noteq> c"
  shows "strrchr m s c = Some (Some (s + length x + 2))"
proof -
  have f: "find_char m c s = Some (s + length x)" using find_char_spec [OF assms(1,2)] by simp
  have c: "m (s + length x) = Some c" "c \<noteq> NUL" "cstr m (s + length x + 1) y" using assms(1) by (auto simp: cstr_append cstr_Cons)
  have "\<exists>d. m (s + length x + 1) = Some d \<and> d \<noteq> c" using c(2,3) assms(3) by (cases y) (auto simp: cstr_Nil cstr_Cons)
  then have "skip_char m c (s + length x + 1) = Some (s + length x + 2)" by (subst skip_char.simps) auto
  then have "skip_char m c (s + length x) = Some (s + length x + 2)" using c(1) by (subst skip_char.simps) simp
  then show ?thesis using f c(1,2) by (simp add: strrchr_def)
qed

section \<open>Properties\<close>

text \<open>
  C21. \<^verbatim>\<open>memmove\<close> copies a block and changes nothing else, also when the regions overlap, provided the block
  fits into the buffer on the stack, or moves down, or does not overlap.
\<close>

theorem memmove_copies:
  assumes "at m src xs" "mapped m dst (length xs)" "length xs \<le> MEMMOVE_BUFSIZE \<or> dst \<le> src \<or> src + length xs \<le> dst"
  shows "\<exists>m'. memmove m dst src (length xs) = Some m' \<and> at m' dst xs \<and> same_but m m' dst (length xs)"
  using memmove_loop_spec [of m src 0 xs "length xs" dst] assms by (auto simp: memmove_def simp del: memmove_loop.simps)

definition wit_mem :: memory where
  "wit_mem = (\<lambda>a. if a < 12 then Some ((''abcde'' @ NUL # ''ghijkl'') ! a) else None)"

lemma wit_mem_facts:
  "at wit_mem 0 ''abcd''" "cstr wit_mem 3 ''de''" "cstr wit_mem 2 (''cd'' @ ''e'')" "cstr wit_mem 4 ''e''" "p + n \<le> 12 \<Longrightarrow> mapped wit_mem p n"
  by (auto simp: wit_mem_def cstr_def mapped_def)

theorem memmove_copies_witness: "\<exists>m'. memmove wit_mem 2 0 4 = Some m' \<and> at m' 2 ''abcd''"
  using memmove_copies [of wit_mem 0 "''abcd''" 2] wit_mem_facts by (auto simp: MEMMOVE_BUFSIZE_def numeral_eq_Suc)

text \<open>
  A block longer than the buffer that moves up by one byte is corrupted: the byte behind the first
  chunk is read after the first chunk has overwritten it, and the copy holds its predecessor instead.
\<close>

theorem memmove_overlap_corrupts:
  assumes "mapped m src (MEMMOVE_BUFSIZE + 2)"
  shows "\<exists>m'. memmove m (src + 1) src (MEMMOVE_BUFSIZE + 1) = Some m' \<and>
    m' (src + 1 + MEMMOVE_BUFSIZE) = m (src + MEMMOVE_BUFSIZE - 1)"
proof -
  obtain xs where "load m src MEMMOVE_BUFSIZE = Some xs" using mapped_part [OF assms, of src MEMMOVE_BUFSIZE] load_mapped by auto
  then have xs: "load m src MEMMOVE_BUFSIZE = Some xs" "length xs = MEMMOVE_BUFSIZE" "at m src xs" using load_at by auto
  have "mapped m (src + 1) (length xs)" using mapped_part [OF assms, of "src + 1" MEMMOVE_BUFSIZE] xs(2) by simp
  then obtain u where u: "store m (src + 1) xs = Some u" "at u (src + 1) xs" "dom u = dom m" using store_spec by blast
  have "m (src + (MEMMOVE_BUFSIZE - 1)) = Some (xs ! (MEMMOVE_BUFSIZE - 1))" "u (src + 1 + (MEMMOVE_BUFSIZE - 1)) = Some (xs ! (MEMMOVE_BUFSIZE - 1))"
    using xs(2) xs(3) [unfolded at_nth, rule_format, of "MEMMOVE_BUFSIZE - 1"] u(2) [unfolded at_nth, rule_format, of "MEMMOVE_BUFSIZE - 1"]
    by (simp_all add: MEMMOVE_BUFSIZE_def)
  then have b: "u (src + MEMMOVE_BUFSIZE) = m (src + MEMMOVE_BUFSIZE - 1)" "m (src + MEMMOVE_BUFSIZE - 1) \<noteq> None"
    by (simp_all add: MEMMOVE_BUFSIZE_def add.commute)
  have "m (src + (MEMMOVE_BUFSIZE + 1)) \<noteq> None" using assms [unfolded mapped_def, rule_format, of "MEMMOVE_BUFSIZE + 1"] by simp
  then have d: "u (src + 1 + MEMMOVE_BUFSIZE) \<noteq> None" using u(3) by (metis domIff add.assoc add.commute)
  obtain c where c: "u (src + MEMMOVE_BUFSIZE) = Some c" using b by auto
  have "memmove_loop u (src + 1) src 1 MEMMOVE_BUFSIZE = Some (u(src + 1 + MEMMOVE_BUFSIZE \<mapsto> c))"
    using c d by (simp add: MEMMOVE_BUFSIZE_def)
  moreover have "memmove_loop m (src + 1) src (MEMMOVE_BUFSIZE + 1) 0 = memmove_loop u (src + 1) src 1 MEMMOVE_BUFSIZE"
    by (subst memmove_loop.simps) (simp add: xs(1) u(1) [simplified] del: memmove_loop.simps)
  ultimately show ?thesis using b c by (simp add: memmove_def del: memmove_loop.simps)
qed

theorem memmove_overlap_corrupts_witness:
  "\<exists>m'. memmove (\<lambda>a. Some (char_of (a mod 2))) 1 0 (MEMMOVE_BUFSIZE + 1) = Some m' \<and> m' (1 + MEMMOVE_BUFSIZE) = Some (char_of (1 :: nat))"
  using memmove_overlap_corrupts [of "\<lambda>a. Some (char_of (a mod 2))" 0] by (simp add: mapped_def MEMMOVE_BUFSIZE_def)

text \<open>
  C22. \<^verbatim>\<open>strcpy\<close> followed by \<^verbatim>\<open>strcat\<close> builds the concatenation of two strings in a buffer that can hold it,
  writes nothing else, and \<^verbatim>\<open>strlen\<close> and \<^verbatim>\<open>strcmp\<close> read the result: the length is the sum of the lengths, and a
  string compares as equal exactly when it is the concatenation.
\<close>

theorem strcpy_strcat_concatenates:
  assumes "cstr m a s" "cstr m b t" "mapped m d (length s + length t + 1)"
    "a + length s < d \<or> d + length s + length t < a" "b + length t < d \<or> d + length s + length t < b"
  shows "\<exists>m1 m2. strcpy m d a = Some m1 \<and> strcat m1 d b = Some m2 \<and> cstr m2 d (s @ t) \<and>
    same_but m m2 d (length s + length t + 1) \<and> strlen m2 d = Some (length s + length t) \<and>
    (\<forall>p u. cstr m2 p u \<longrightarrow> (\<exists>r. strcmp m2 d p = Some r \<and> (r = 0 \<longleftrightarrow> s @ t = u)))"
proof -
  have "mapped m d (length s + 1)" by (rule mapped_part [OF assms(3)]) simp_all
  then obtain m1 where m1: "strcpy m d a = Some m1" "cstr m1 d s" "same_but m m1 d (length s + 1)" "dom m1 = dom m"
    using copy_str_spec [OF assms(1), of d] assms(4) by (auto simp: strcpy_def)
  have b: "cstr m1 b t" by (rule cstr_frame [OF assms(2) m1(3)]) (use assms(5) in auto)
  have "find_char m1 NUL d = Some (d + length s)" using find_char_spec [of m1 d s "[]" NUL] m1(2) by (simp add: cstr_def)
  moreover have "mapped m1 (d + length s) (length t + 1)"
    unfolding mapped_frame [OF m1(4)] by (rule mapped_part [OF assms(3)]) simp_all
  then obtain m2 where m2: "copy_str m1 (d + length s) b = Some m2" "cstr m2 (d + length s) t" "same_but m1 m2 (d + length s) (length t + 1)"
    using copy_str_spec [OF b, of "d + length s"] assms(5) by auto
  ultimately have sc: "strcat m1 d b = Some m2" by (simp add: strcat_def)
  have "at m2 d s" by (rule at_frame [OF _ m2(3)]) (use m1(2) in \<open>auto simp: cstr_def\<close>)
  then have c: "cstr m2 d (s @ t)" using m1(2) m2(2) by (auto simp: cstr_append) (simp add: cstr_def)
  have "same_but m m2 d (length s + length t + 1)"
  proof (rule same_but_trans)
    show "same_but m m1 d (length s + length t + 1)" by (rule same_but_mono [OF m1(3)]) simp_all
    show "same_but m1 m2 d (length s + length t + 1)" by (rule same_but_mono [OF m2(3)]) simp_all
  qed
  then show ?thesis using m1(1) sc c strlen_loop_spec [OF c, of 0] strcmp_spec [OF c] by (auto simp: strlen_def)
qed

theorem strcpy_strcat_concatenates_witness:
  "\<exists>m1 m2. strcpy wit_mem 6 3 = Some m1 \<and> strcat m1 6 4 = Some m2 \<and> cstr m2 6 ''dee''"
  using strcpy_strcat_concatenates [of wit_mem 3 "''de''" 4 "''e''" 6] wit_mem_facts by auto

text \<open>
  \<^verbatim>\<open>strstr\<close> does not find a one character needle whose only occurrence is the last character of the
  haystack: the comparison runs on to the end of the haystack, which it takes for a mismatch.
\<close>

theorem strstr_misses_suffix:
  assumes "cstr m h (x @ [c])" "c \<notin> set x" "cstr m n [c]"
  shows "strstr m h n = Some None"
proof -
  have f: "find_char m c h = Some (h + length x)" using find_char_spec [OF assms(1,2)] by simp
  have h: "m (h + length x) = Some c" "c \<noteq> NUL" "m (h + length x + 1) = Some NUL" and n: "m n = Some c"
    using assms(1,3) by (auto simp: cstr_append cstr_Cons cstr_Nil)
  have "match_needle m (h + length x + 1) (n + 1) = Some (h + length x + 1, n + 1)" using h(3) by (subst match_needle.simps) simp
  then have "match_needle m (h + length x) n = Some (h + length x + 1, n + 1)" using h n by (subst match_needle.simps) simp
  then show ?thesis using f h n by (simp add: strstr_def)
qed

theorem strstr_misses_suffix_witness: "strstr wit_mem 2 4 = Some None"
  using strstr_misses_suffix [of wit_mem 2 "''cd''" "CHR ''e''" 4] wit_mem_facts by simp

end
