(* ===== verification/Kprintf.thy ===== *)
theory Kprintf
  imports Strings "HOL-Library.Word"
begin

text \<open>
  Formatted output (\<^verbatim>\<open>kernel/generic/kprintf.c\<close>, \<^verbatim>\<open>include/mstring/kprintf.h\<close>), \<^verbatim>\<open>itoa\<close> of
  \<^verbatim>\<open>kernel/generic/stdlib.c\<close> and \<^verbatim>\<open>kernel/generic/ctype.c\<close>, over the memory and the string routines of
  \<open>Strings\<close>. The format is the character list of the format literal, the variable arguments are a list of
  64 bit values; taking an argument from the empty list is a fault. The fields \<^verbatim>\<open>width\<close>, \<^verbatim>\<open>presiction\<close> and
  \<^verbatim>\<open>cinf\<close> are integers in the range of \<^verbatim>\<open>int\<close>, compared with \<^verbatim>\<open>size_t\<close> values as the C conversions prescribe;
  signed overflow is a fault.
\<close>

unbundle bit_operations_syntax

section \<open>Data\<close>

definition FMT_TNUM :: "32 word" where "FMT_TNUM = 0x1"
definition FMT_TSTR :: "32 word" where "FMT_TSTR = 0x2"
definition FMT_TCHAR :: "32 word" where "FMT_TCHAR = 0x4"
definition FMT_FLJ :: "32 word" where "FMT_FLJ = 0x8"
definition FMT_FZERO :: "32 word" where "FMT_FZERO = 0x10"
definition FMT_FSIG :: "32 word" where "FMT_FSIG = 0x20"
definition FMT_FSPACE :: "32 word" where "FMT_FSPACE = 0x40"
definition FMT_FPREF :: "32 word" where "FMT_FPREF = 0x80"
definition FMT_DOT :: "32 word" where "FMT_DOT = 0x100"
definition FMT_LCHAR :: "32 word" where "FMT_LCHAR = 0x200"
definition FMT_LSHORT :: "32 word" where "FMT_LSHORT = 0x400"
definition FMT_LLONG :: "32 word" where "FMT_LLONG = 0x800"
definition FMT_LDLONG :: "32 word" where "FMT_LDLONG = 0x1000"
definition FMT_LSIZET :: "32 word" where "FMT_LSIZET = 0x2000"
definition FMT_DOCT :: "32 word" where "FMT_DOCT = 0x4000"
definition FMT_DDEC :: "32 word" where "FMT_DDEC = 0x8000"
definition FMT_DHEX :: "32 word" where "FMT_DHEX = 0x10000"
definition FMT_DHEX_UP :: "32 word" where "FMT_DHEX_UP = 0x20000"
definition FMT_DUNSIG :: "32 word" where "FMT_DUNSIG = 0x40000"
definition FMT_FMASK :: "32 word" where "FMT_FMASK = 0xF8"
definition FMT_LMASK :: "32 word" where "FMT_LMASK = 0x3E00"
definition FMT_DBUF_SIZE :: nat where "FMT_DBUF_SIZE = 64"
definition TMPBUF_SIZE :: nat where "TMPBUF_SIZE = 1024"

lemmas fmt_defs = FMT_TNUM_def FMT_TSTR_def FMT_TCHAR_def FMT_FLJ_def FMT_FZERO_def FMT_FSIG_def FMT_FSPACE_def FMT_FPREF_def
  FMT_DOT_def FMT_LCHAR_def FMT_LSHORT_def FMT_LLONG_def FMT_LDLONG_def FMT_LSIZET_def FMT_DOCT_def FMT_DDEC_def FMT_DHEX_def
  FMT_DHEX_UP_def FMT_DUNSIG_def FMT_FMASK_def FMT_LMASK_def

record fattrs =
  width :: int
  presiction :: int
  cinf :: int
  fflags :: "32 word"

definition fattrs0 :: fattrs where
  "fattrs0 = \<lparr>width = 0, presiction = 0, cinf = 0, fflags = 0\<rparr>"

abbreviation fset :: "32 word \<Rightarrow> fattrs \<Rightarrow> fattrs" where
  "fset x fa \<equiv> fa\<lparr>fflags := fflags fa OR x\<rparr>"

abbreviation fclear :: "32 word \<Rightarrow> fattrs \<Rightarrow> fattrs" where
  "fclear x fa \<equiv> fa\<lparr>fflags := fflags fa AND NOT x\<rparr>"

definition has :: "fattrs \<Rightarrow> 32 word \<Rightarrow> bool" where
  "has fa x \<longleftrightarrow> fflags fa AND x \<noteq> 0"

text \<open>The conversions of \<^verbatim>\<open>int\<close> to \<^verbatim>\<open>size_t\<close> and back.\<close>

definition size_of_int :: "int \<Rightarrow> nat" where
  "size_of_int x = nat (x mod 2 ^ 64)"

definition int_of_size :: "nat \<Rightarrow> int" where
  "int_of_size n = sint (word_of_nat n :: 32 word)"

text \<open>Signed arithmetic out of the range of \<^verbatim>\<open>int\<close> is undefined.\<close>

definition chk_int :: "int \<Rightarrow> int option" where
  "chk_int x = (if - (2 ^ 31) \<le> x \<and> x < 2 ^ 31 then Some x else None)"

datatype va_arg = VInt "64 word" | VStr nat

definition isdigit :: "char \<Rightarrow> bool" where
  "isdigit c \<longleftrightarrow> schar c \<le> schar (CHR ''9'') \<and> schar c \<ge> schar (CHR ''0'')"

definition isxdigit :: "char \<Rightarrow> bool" where
  "isxdigit c \<longleftrightarrow> isdigit c \<or> (schar c \<ge> schar (CHR ''a'') \<and> schar c \<le> schar (CHR ''f'')) \<or>
     (schar c \<ge> schar (CHR ''A'') \<and> schar c \<le> schar (CHR ''F''))"

definition char2int :: "char \<Rightarrow> int" where
  "char2int c = schar c - schar (CHR ''0'')"

section \<open>Helpers\<close>

definition copy_byte_ip :: "memory \<Rightarrow> nat \<Rightarrow> nat \<Rightarrow> char \<Rightarrow> (bool \<times> memory) option" where
  "copy_byte_ip m dest dsize c =
     (if dsize = 0 then Some (False, m) else do { m \<leftarrow> wr m dest c; Some (True, m) })"

definition ident_num_size :: "va_arg list \<Rightarrow> fattrs \<Rightarrow> (64 word \<times> va_arg list) option" where
  "ident_num_size ap fa =
     (case ap of
        VInt w # ap \<Rightarrow>
          Some (if has fa FMT_LLONG then w
                else if has fa FMT_LDLONG then w
                else if has fa FMT_LSIZET then w
                else let d = (scast (ucast w :: 32 word) :: 64 word)
                     in if has fa FMT_DUNSIG then ucast (ucast d :: 32 word) else d, ap)
      | _ \<Rightarrow> None)"

definition fields_inc :: "int \<Rightarrow> int \<Rightarrow> int option" where
  "fields_inc num incr = do { n \<leftarrow> chk_int (num * 10); chk_int (n + incr) }"

definition make_width :: "memory \<Rightarrow> nat \<Rightarrow> nat \<Rightarrow> char \<Rightarrow> fattrs \<Rightarrow> (nat \<times> memory) option" where
  "make_width m dest dsize c fa =
     (if width fa = 0 \<or> size_of_int (width fa) > dsize then Some (0, m)
      else do { m \<leftarrow> memset m dest c (size_of_int (width fa)); Some (size_of_int (width fa), m) })"

text \<open>The bytes of a prefix or sign, one after the other; the flag tells that all of them have been copied.\<close>

fun copy_bytes :: "memory \<Rightarrow> nat \<Rightarrow> nat \<Rightarrow> nat \<Rightarrow> char list \<Rightarrow> (bool \<times> nat \<times> memory) option" where
  "copy_bytes m dest dsize cs [] = Some (True, cs, m)"
| "copy_bytes m dest dsize cs (c # s) = do {
     (ok, m) \<leftarrow> copy_byte_ip m (dest + cs) (dsize - cs) c;
     if ok then copy_bytes m dest dsize (cs + 1) s else Some (False, cs, m)
   }"

section \<open>Numbers\<close>

text \<open>The digits in the order of the temporary buffer, least significant first; \<open>k\<close> is the room left in it.\<close>

fun digit_loop :: "nat \<Rightarrow> char list \<Rightarrow> nat \<Rightarrow> nat \<Rightarrow> char list option" where
  "digit_loop base nums 0 d = None"
| "digit_loop base nums (Suc k) d =
     (let i = d mod base; d = d div base
      in if d \<noteq> 0 then do { cs \<leftarrow> digit_loop base nums k d; Some (nums ! i # cs) } else Some [nums ! i])"

definition digit_base :: "fattrs \<Rightarrow> nat" where
  "digit_base fa = (if has fa FMT_DOCT then 8 else if has fa FMT_DDEC then 10 else if has fa FMT_DHEX \<or> has fa FMT_DHEX_UP then 16 else 1)"

definition digit_nums :: "fattrs \<Rightarrow> char list" where
  "digit_nums fa =
     (if \<not> has fa FMT_DOCT \<and> \<not> has fa FMT_DDEC \<and> has fa FMT_DHEX_UP then ''0123456789ABCDEF'' else ''0123456789abcdef'')"

definition digit_prefix :: "fattrs \<Rightarrow> bool \<Rightarrow> char list" where
  "digit_prefix fa neg =
     (if has fa FMT_DHEX \<or> has fa FMT_DHEX_UP
      then if has fa FMT_FPREF then [CHR ''0'', if has fa FMT_DHEX_UP then CHR ''X'' else CHR ''x''] else []
      else if has fa FMT_DDEC
      then if neg then [CHR ''-''] else if has fa FMT_FSIG then [CHR ''+''] else []
      else if has fa FMT_DOCT
      then if has fa FMT_FPREF then [CHR ''0''] else []
      else [])"

text \<open>The width and the precision that are left for padding next to \<open>j\<close> digits.\<close>

definition digit_fields :: "nat \<Rightarrow> fattrs \<Rightarrow> fattrs" where
  "digit_fields j fa =
     (let w = (if size_of_int (width fa) \<le> j then 0 else int_of_size (size_of_int (width fa) - j));
          p = (if size_of_int (presiction fa) \<le> j then 0 else int_of_size (size_of_int (presiction fa) - j))
      in fa\<lparr>width := (if w \<le> p then 0 else w - p), presiction := p\<rparr>)"

text \<open>The output of the zeros of the precision, of the digits, and of the padding of a left-justified field.\<close>

definition digit_out :: "memory \<Rightarrow> nat \<Rightarrow> nat \<Rightarrow> nat \<Rightarrow> char list \<Rightarrow> fattrs \<Rightarrow> (nat \<times> memory) option" where
  "digit_out m dest dsize cs tmp fa = do {
     (cs, m) \<leftarrow> (if presiction fa > 0 \<and> nat (presiction fa) \<le> dsize - cs
                then do { m \<leftarrow> memset m (dest + cs) (CHR ''0'') (nat (presiction fa)); Some (cs + nat (presiction fa), m) }
                else Some (cs, m));
     let s = rev (take (dsize - cs) tmp);
     m \<leftarrow> store m (dest + cs) s;
     let cs = cs + length s;
     (ret, m) \<leftarrow> (if has fa FMT_FLJ then make_width m (dest + cs) (dsize - cs) (CHR '' '') fa else Some (0, m));
     Some (cs + ret, m)
   }"

text \<open>The output of the space, the padding and the prefix or sign before that.\<close>

definition digit_print :: "memory \<Rightarrow> nat \<Rightarrow> nat \<Rightarrow> char list \<Rightarrow> bool \<Rightarrow> fattrs \<Rightarrow> (nat \<times> memory) option" where
  "digit_print m dest dsize tmp neg fa = do {
     (ok, cs, m) \<leftarrow> copy_bytes m dest dsize 0 (if has fa FMT_FSPACE then '' '' else []);
     if \<not> ok then Some (dsize, m)
     else do {
       (ret, m) \<leftarrow> (if has fa FMT_FLJ then Some (0, m)
                   else make_width m (dest + cs) (dsize - cs) (if has fa FMT_FZERO then CHR ''0'' else CHR '' '') fa);
       (ok, cs, m) \<leftarrow> copy_bytes m dest dsize (cs + ret) (digit_prefix fa neg);
       if \<not> ok then Some (dsize, m) else digit_out m dest dsize cs tmp fa
     }
   }"

definition digit :: "memory \<Rightarrow> nat \<Rightarrow> nat \<Rightarrow> 64 word \<Rightarrow> fattrs \<Rightarrow> (nat \<times> memory) option" where
  "digit m dest dsize number fa =
     (let neg = (sint number < 0 \<and> \<not> has fa FMT_DUNSIG);
          fa = (if neg then fclear FMT_FSPACE fa else fa)
      in if neg \<and> sint number = - (2 ^ 63) then None
         else do {
           tmp \<leftarrow> digit_loop (digit_base fa) (digit_nums fa) FMT_DBUF_SIZE (if neg then nat (- sint number) else unat number);
           digit_print m dest dsize tmp neg (digit_fields (length tmp) fa)
         })"

section \<open>Conversion specifications\<close>

datatype conv = CNum "64 word" | CStr nat | CChar char

text \<open>
  What the loop does once it has met a percent sign: it converts an argument (with the rest of the format
  and of the arguments), prints a character and goes on behind it, or leaves the loop.
\<close>

datatype spec_result = Convert conv fattrs "char list" "va_arg list" | Literal char "char list" "va_arg list" | EndFmt

text \<open>The path of \<^verbatim>\<open>fmt -= fa.cinf\<close>: \<open>seen\<close> are the current character and the ones before it back to the percent sign.\<close>

definition unget :: "char list \<Rightarrow> fattrs \<Rightarrow> char list \<Rightarrow> va_arg list \<Rightarrow> spec_result option" where
  "unget seen fa rest ap =
     (if cinf fa < 0 \<or> cinf fa \<ge> int (length seen) then None
      else Some (Literal (seen ! nat (cinf fa)) (rev (take (nat (cinf fa)) seen) @ rest) ap))"

definition lo32 :: "64 word \<Rightarrow> int" where "lo32 w = sint (ucast w :: 32 word)"

definition hi32 :: "64 word \<Rightarrow> int" where "hi32 w = sint (ucast (drop_bit 32 w) :: 32 word)"

text \<open>
  One character of a specification: it ends in a conversion, is no specification after all, or goes on
  with the next character or, for a doubled length modifier, with the one behind it. The 64 bit value of
  \<^verbatim>\<open>*\<close> is stored over two 32 bit fields.
\<close>

datatype spec_step = SConv conv fattrs "va_arg list" | SLit fattrs | SMore fattrs "va_arg list" | SMore2 fattrs | SEnd

definition step_num :: "32 word \<Rightarrow> fattrs \<Rightarrow> va_arg list \<Rightarrow> spec_step option" where
  "step_num x fa ap = (let fa = fset x fa in do { (d, ap) \<leftarrow> ident_num_size ap fa; Some (SConv (CNum d) fa ap) })"

definition spec_char :: "fattrs \<Rightarrow> char \<Rightarrow> char list \<Rightarrow> va_arg list \<Rightarrow> spec_step option" where
  "spec_char fa c rest ap =
     (let fa = fa\<lparr>cinf := cinf fa + 1\<rparr>; blocked = (has fa FMT_LMASK \<or> has fa FMT_DOT \<or> width fa > 0)
      in if isdigit c
         then if has fa FMT_LMASK then Some SEnd
              else if has fa FMT_DOT
              then do { p \<leftarrow> fields_inc (presiction fa) (char2int c); Some (SMore (fa\<lparr>presiction := p\<rparr>) ap) }
              else do { w \<leftarrow> fields_inc (width fa) (char2int c); Some (SMore (fa\<lparr>width := w\<rparr>) ap) }
         else if c = CHR ''i'' \<or> c = CHR ''d'' then step_num (FMT_TNUM OR FMT_DDEC) fa ap
         else if c = CHR ''c''
         then (case ap of VInt w # ap \<Rightarrow> Some (SConv (CChar (char_of (unat w))) (fset FMT_TCHAR fa) ap) | _ \<Rightarrow> None)
         else if c = CHR ''s''
         then (case ap of VStr q # ap \<Rightarrow> Some (SConv (CStr q) (fset FMT_TSTR fa) ap) | _ \<Rightarrow> None)
         else if c = CHR ''x'' then step_num (FMT_TNUM OR FMT_DHEX OR FMT_DUNSIG) fa ap
         else if c = CHR ''X'' then step_num (FMT_TNUM OR FMT_DHEX_UP OR FMT_DUNSIG) fa ap
         else if c = CHR ''p'' then step_num (FMT_TNUM OR FMT_DHEX OR FMT_FPREF OR FMT_LLONG OR FMT_DUNSIG) fa ap
         else if c = CHR ''o'' then step_num (FMT_TNUM OR FMT_DOCT OR FMT_DUNSIG) fa ap
         else if c = CHR ''u'' then step_num (FMT_TNUM OR FMT_DDEC OR FMT_DUNSIG) fa ap
         else if c = CHR ''#''
         then Some (if blocked then SLit fa else SMore (fset FMT_FPREF fa) ap)
         else if c = CHR ''+''
         then Some (if blocked then SLit fa else SMore (fset FMT_FSIG (fclear FMT_FSPACE fa)) ap)
         else if c = CHR ''-''
         then Some (if blocked \<or> has fa FMT_FSPACE then SLit fa else SMore (fset FMT_FLJ (fclear FMT_FZERO fa)) ap)
         else if c = CHR ''0''
         then Some (if blocked then SLit fa else SMore (if has fa FMT_FLJ then fa else fset FMT_FZERO fa) ap)
         else if c = CHR '' ''
         then Some (if blocked \<or> has fa FMT_FLJ then SLit fa else SMore (if has fa FMT_FSIG then fa else fset FMT_FSPACE fa) ap)
         else if c = CHR ''.'' then Some (SMore (fset FMT_DOT (fclear FMT_FZERO fa)) ap)
         else if c = CHR ''h''
         then Some (if rest \<noteq> [] \<and> hd rest = CHR ''h'' then SMore2 (fset FMT_LCHAR fa) else SMore (fset FMT_LSHORT fa) ap)
         else if c = CHR ''l''
         then Some (if rest \<noteq> [] \<and> hd rest = CHR ''l'' then SMore2 (fset FMT_LDLONG fa) else SMore (fset FMT_LLONG fa) ap)
         else if c = CHR ''z'' then Some (SMore (fset FMT_LSIZET fa) ap)
         else if c = CHR ''*''
         then if has fa FMT_FMASK \<or> has fa FMT_LMASK then Some (SLit fa)
              else if has fa FMT_DOT
              then if presiction fa > 0 then Some (SLit fa)
                   else do { (d, ap) \<leftarrow> ident_num_size ap fa; Some (SMore (fa\<lparr>presiction := lo32 d, cinf := hi32 d\<rparr>) ap) }
              else if width fa > 0 then Some (SLit fa)
                   else do { (d, ap) \<leftarrow> ident_num_size ap fa; Some (SMore (fa\<lparr>width := lo32 d, presiction := hi32 d\<rparr>) ap) }
         else if c = CHR 0x25 then Some (SLit (fa\<lparr>cinf := 0\<rparr>))
         else Some (SLit fa))"

text \<open>\<open>seen\<close> holds the characters read so far, latest first.\<close>

fun parse_spec :: "char list \<Rightarrow> fattrs \<Rightarrow> char list \<Rightarrow> va_arg list \<Rightarrow> spec_result option" where
  "parse_spec seen fa [] ap = Some EndFmt"
| "parse_spec seen fa (c # rest) ap =
     (case spec_char fa c rest ap of
        None \<Rightarrow> None
      | Some (SConv k fa ap) \<Rightarrow> Some (Convert k fa rest ap)
      | Some (SLit fa) \<Rightarrow> unget (c # seen) fa rest ap
      | Some (SMore fa ap) \<Rightarrow> parse_spec (c # seen) fa rest ap
      | Some (SMore2 fa) \<Rightarrow> (case rest of [] \<Rightarrow> None | x # rest' \<Rightarrow> parse_spec (x # c # seen) fa rest' ap)
      | Some SEnd \<Rightarrow> Some EndFmt)"

section \<open>The printing loop\<close>

text \<open>\<^verbatim>\<open>BC\<close>: the result is \<open>None\<close> when the function returns \<^verbatim>\<open>dsize\<close> at once, and the number of bytes written so far otherwise.\<close>

definition print_conv :: "memory \<Rightarrow> nat \<Rightarrow> nat \<Rightarrow> nat \<Rightarrow> conv \<Rightarrow> fattrs \<Rightarrow> (nat option \<times> memory) option" where
  "print_conv m dest dsize cs k fa =
     (case k of
        CNum d \<Rightarrow> do {
          (ret, m) \<leftarrow> digit m (dest + cs) (dsize - cs) d fa;
          Some (if ret = 0 then None else Some (cs + ret), m)
        }
      | CStr q \<Rightarrow> do {
          len \<leftarrow> (if q = 0 then Some (length ''<NULL>'') else strlen m q);
          let fa = fa\<lparr>width := (if size_of_int (width fa) \<le> len then 0 else int_of_size (size_of_int (width fa) - len))\<rparr>;
          (ret, m) \<leftarrow> (if has fa FMT_FLJ then Some (0, m) else make_width m (dest + cs) (dsize - cs) (CHR '' '') fa);
          let cs = cs + ret;
          (cs, m) \<leftarrow> (if len \<le> dsize - cs
                     then do { m \<leftarrow> (if q = 0 then store m (dest + cs) ''<NULL>'' else memcpy m (dest + cs) q len); Some (cs + len, m) }
                     else Some (cs, m));
          (ret, m) \<leftarrow> (if has fa FMT_FLJ then make_width m (dest + cs) (dsize - cs) (CHR '' '') fa else Some (0, m));
          Some (Some (cs + ret), m)
        }
      | CChar c \<Rightarrow> do {
          let fa = fa\<lparr>width := (if width fa \<le> 1 then 0 else width fa - 1)\<rparr>;
          (ret, m) \<leftarrow> (if has fa FMT_FLJ then Some (0, m) else make_width m (dest + cs) (dsize - cs) (CHR '' '') fa);
          let cs = cs + ret;
          (ok, m) \<leftarrow> copy_byte_ip m (dest + cs) (dsize - cs) c;
          if \<not> ok then Some (None, m)
          else do {
            let cs = cs + 1;
            (ret, m) \<leftarrow> (if has fa FMT_FLJ then make_width m (dest + cs) (dsize - cs) (CHR '' '') fa else Some (0, m));
            Some (Some (cs + ret), m)
          }
        })"

abbreviation percents :: "char list \<Rightarrow> nat" where
  "percents s \<equiv> count_list s (CHR 0x25)"

lemma unget_rest:
  assumes "unget (c # seen) fa rest ap = Some (Literal d rest' ap')" "CHR 0x25 \<notin> set (butlast seen)" "c \<noteq> CHR 0x25 \<or> cinf fa = 0"
  shows "percents rest' = percents rest"
proof -
  have k: "nat (cinf fa) \<le> length seen" "rest' = rev (take (nat (cinf fa)) (c # seen)) @ rest" using assms(1) by (auto simp: unget_def split: if_splits)
  have "CHR 0x25 \<notin> set (take (nat (cinf fa)) (c # seen))"
  proof (cases "nat (cinf fa)")
    case (Suc n)
    then have "take n seen = take n (butlast seen)" using k(1) by (simp add: take_butlast)
    then show ?thesis using Suc assms(2,3) by (auto dest: in_set_takeD)
  qed simp
  then show ?thesis using k(2) by (simp add: count_notin)
qed

lemma isdigit_percent [simp]: "\<not> isdigit (CHR 0x25)"
  by (simp add: isdigit_def schar_def)

lemma spec_char_more:
  "spec_char fa c rest ap = Some (SMore fa' ap') \<Longrightarrow> c \<noteq> CHR 0x25"
  "spec_char fa c rest ap = Some (SMore2 fa') \<Longrightarrow> c \<noteq> CHR 0x25 \<and> rest \<noteq> [] \<and> hd rest \<noteq> CHR 0x25"
  "spec_char fa c rest ap = Some (SLit fa') \<Longrightarrow> c \<noteq> CHR 0x25 \<or> cinf fa' = 0"
  by (auto simp: spec_char_def Let_def step_num_def bind_eq_Some_conv split: if_splits prod.splits list.splits va_arg.splits)

lemma parse_rest:
  assumes "parse_spec seen fa s ap = Some r" "CHR 0x25 \<notin> set (butlast seen)" "seen \<noteq> []"
  shows "(case r of Convert k fa' rest ap' \<Rightarrow> percents rest \<le> percents s | Literal d rest ap' \<Rightarrow> percents rest \<le> percents s | EndFmt \<Rightarrow> True)"
  using assms
proof (induction seen fa s ap rule: parse_spec.induct)
  case (2 seen fa c rest ap)
  obtain st where st: "spec_char fa c rest ap = Some st" using "2.prems"(1) by (cases "spec_char fa c rest ap") auto
  show ?case
  proof (cases st)
    case (SConv k fa' ap')
    then show ?thesis using "2.prems"(1) st by auto
  next
    case (SLit fa')
    then have u: "unget (c # seen) fa' rest ap = Some r" using "2.prems"(1) st by simp
    then obtain d rest' ap' where r: "r = Literal d rest' ap'" by (auto simp: unget_def split: if_splits)
    then have "percents rest' = percents rest" using unget_rest u "2.prems"(2) spec_char_more(3) st SLit by simp
    then show ?thesis using r by simp
  next
    case (SMore fa' ap')
    then have "c \<noteq> CHR 0x25" using spec_char_more(1) st by simp
    then show ?thesis using "2.IH"(1) [OF st SMore] "2.prems" st SMore by (auto split: spec_result.splits)
  next
    case (SMore2 fa')
    then obtain x rest' where x: "rest = x # rest'" "x \<noteq> CHR 0x25" "c \<noteq> CHR 0x25"
      using spec_char_more(2) [of fa c rest ap fa'] st SMore2 by (cases rest) auto
    then show ?thesis using "2.IH"(2) [OF st SMore2 x(1)] "2.prems" st SMore2 by (auto split: spec_result.splits)
  qed (use "2.prems"(1) st in auto)
qed simp

function fmt_loop :: "nat \<Rightarrow> nat \<Rightarrow> nat \<Rightarrow> char list \<Rightarrow> va_arg list \<Rightarrow> memory \<Rightarrow> (nat \<times> memory) option" where
  "fmt_loop dest dsize cs [] ap m = Some (cs, m)"
| "fmt_loop dest dsize cs (c # rest) ap m =
     (if c \<noteq> CHR 0x25
      then (case copy_byte_ip m (dest + cs) (dsize - cs) c of
              None \<Rightarrow> None
            | Some (ok, m) \<Rightarrow> if ok then fmt_loop dest dsize (cs + 1) rest ap m else Some (dsize, m))
      else (case parse_spec [c] fattrs0 rest ap of
              None \<Rightarrow> None
            | Some EndFmt \<Rightarrow> Some (cs, m)
            | Some (Literal d rest ap) \<Rightarrow>
                (case copy_byte_ip m (dest + cs) (dsize - cs) d of
                   None \<Rightarrow> None
                 | Some (ok, m) \<Rightarrow> if ok then fmt_loop dest dsize (cs + 1) rest ap m else Some (dsize, m))
            | Some (Convert k fa rest ap) \<Rightarrow>
                (case print_conv m dest dsize cs k fa of
                   None \<Rightarrow> None
                 | Some (None, m) \<Rightarrow> Some (dsize, m)
                 | Some (Some cs, m) \<Rightarrow> fmt_loop dest dsize cs rest ap m)))"
  by pat_completeness auto

termination
  by (relation "measures [\<lambda>(dest, dsize, cs, s, ap, m). percents s, \<lambda>(dest, dsize, cs, s, ap, m). length s]")
     (auto dest!: parse_rest)

definition vsnprintf :: "memory \<Rightarrow> nat \<Rightarrow> nat \<Rightarrow> char list \<Rightarrow> va_arg list \<Rightarrow> (nat \<times> memory) option" where
  "vsnprintf m dest dsize fmt ap = fmt_loop dest dsize 0 fmt ap m"

definition vsprintf :: "memory \<Rightarrow> nat \<Rightarrow> char list \<Rightarrow> va_arg list \<Rightarrow> (nat \<times> memory) option" where
  "vsprintf m dest fmt ap = vsnprintf m dest (2 ^ 31 - 1) fmt ap"

text \<open>The history buffer is switched off: \<^verbatim>\<open>kbuf_insert\<close> returns the length at once.\<close>

definition kbuf_insert :: "nat \<Rightarrow> nat" where
  "kbuf_insert slen = slen"

text \<open>\<open>tmp\<close> is the address of \<^verbatim>\<open>tmp_buf\<close>. The result is what the console is told to display, if anything.\<close>

definition vkprintf :: "memory \<Rightarrow> nat \<Rightarrow> bool \<Rightarrow> char list \<Rightarrow> va_arg list \<Rightarrow> (char list option \<times> memory) option" where
  "vkprintf m tmp is_enabled fmt ap = do {
     m \<leftarrow> memset m tmp NUL TMPBUF_SIZE;
     (sl, m) \<leftarrow> vsprintf m tmp fmt ap;
     if kbuf_insert sl \<noteq> sl then Some (Some (CHR 0x0A # ''__kbuf error'' @ [CHR 0x0A]), m)
     else if is_enabled then do { n \<leftarrow> strlen m tmp; s \<leftarrow> load m tmp n; Some (Some s, m) }
     else Some (None, m)
   }"

section \<open>\<^verbatim>\<open>itoa\<close>\<close>

definition itoa_table :: "nat \<Rightarrow> char list option" where
  "itoa_table radix =
     (if radix = 10 \<or> radix = 8 then Some ''0123456789''
      else if radix = 16 then Some ''0123456789ABCDEF'' else None)"

text \<open>\<open>num\<close> is compared with the unsigned \<open>radix\<close> and divided by it, and so as an unsigned number.\<close>

fun itoa_loop :: "memory \<Rightarrow> nat \<Rightarrow> nat \<Rightarrow> 32 word \<Rightarrow> nat \<Rightarrow> char list \<Rightarrow> (nat \<times> nat \<times> memory) option" where
  "itoa_loop m buf 0 num radix table = Some (buf, 0, m)"
| "itoa_loop m buf (Suc n) num radix table =
     (if unat num < radix
      then do { m \<leftarrow> wr m buf (table ! unat num); Some (buf + 1, Suc n, m) }
      else do {
        m \<leftarrow> wr m buf (table ! (unat num mod radix));
        itoa_loop m (buf + 1) n (word_of_nat (unat num div radix)) radix table
      })"

function swap_loop :: "memory \<Rightarrow> nat \<Rightarrow> nat \<Rightarrow> memory option" where
  "swap_loop m sbuf buf =
     (if sbuf < buf
      then do { c \<leftarrow> m sbuf; d \<leftarrow> m buf; m \<leftarrow> wr m sbuf d; m \<leftarrow> wr m buf c; swap_loop m (sbuf + 1) (buf - 1) }
      else Some m)"
  by auto

termination by (relation "measure (\<lambda>(m, sbuf, buf). buf - sbuf)") auto

declare swap_loop.simps [simp del]

definition itoa :: "memory \<Rightarrow> 32 word \<Rightarrow> nat \<Rightarrow> nat \<Rightarrow> nat \<Rightarrow> memory option" where
  "itoa m num buf buflen radix =
     (case itoa_table radix of
        None \<Rightarrow> Some m
      | Some table \<Rightarrow>
          if buflen = 0 then Some m
          else do {
            (p, n, m) \<leftarrow> (if sint num < 0 \<and> radix = 10 then do { m \<leftarrow> wr m buf (CHR ''-''); Some (buf + 1, buflen - 1, m) }
                          else Some (buf, buflen, m));
            (p, n, m) \<leftarrow> itoa_loop m p n num radix table;
            m \<leftarrow> (if n > 0 then wr m p NUL else Some m);
            swap_loop m buf (p - 1)
          })"

section \<open>Numerals\<close>

text \<open>The reference: the digits of a number in a base, most significant first.\<close>

function numeral_str :: "char list \<Rightarrow> nat \<Rightarrow> nat \<Rightarrow> char list" where
  "numeral_str nums base d =
     (if base < 2 \<or> d < base then [nums ! d] else numeral_str nums base (d div base) @ [nums ! (d mod base)])"
  by auto

termination by (relation "measure (\<lambda>(nums, base, d). d)") auto

declare numeral_str.simps [simp del]

text \<open>Its value is the number.\<close>

definition numeral_val :: "char list \<Rightarrow> nat \<Rightarrow> char list \<Rightarrow> nat" where
  "numeral_val nums base s = foldl (\<lambda>n c. n * base + length (takeWhile (\<lambda>x. x \<noteq> c) nums)) 0 s"

lemma takeWhile_nth: "distinct nums \<Longrightarrow> i < length nums \<Longrightarrow> length (takeWhile (\<lambda>x. x \<noteq> nums ! i) nums) = i"
proof (induction nums arbitrary: i)
  case (Cons a nums)
  then show ?case by (cases i) (auto simp: in_set_conv_nth)
qed simp

lemma numeral_val_str:
  assumes "distinct nums" "2 \<le> base" "base \<le> length nums"
  shows "numeral_val nums base (numeral_str nums base d) = d"
proof (induction d rule: less_induct)
  case (less d)
  show ?case
  proof (cases "d < base")
    case True
    then show ?thesis using assms takeWhile_nth [of nums d] by (subst numeral_str.simps) (simp add: numeral_val_def)
  next
    case False
    then have "d div base < d" using assms(2) by simp
    from less [OF this] have ih: "numeral_val nums base (numeral_str nums base (d div base)) = d div base" .
    have "d mod base < length nums" using assms(2,3) mod_less_divisor [of base d] by linarith
    then have "length (takeWhile (\<lambda>x. x \<noteq> nums ! (d mod base)) nums) = d mod base" by (rule takeWhile_nth [OF assms(1)])
    then show ?thesis using False assms(2) ih by (subst numeral_str.simps) (simp add: numeral_val_def)
  qed
qed

lemma numeral_str_length:
  assumes "2 \<le> base" "d < base ^ Suc k"
  shows "0 < length (numeral_str nums base d) \<and> length (numeral_str nums base d) \<le> Suc k"
  using assms(2)
proof (induction k arbitrary: d)
  case 0
  then show ?case by (subst (1 2) numeral_str.simps) simp
next
  case (Suc k)
  have "d div base < base ^ Suc k" using Suc.prems assms(1) by (simp add: less_mult_imp_div_less mult.commute)
  from Suc.IH [OF this] show ?case using assms(1) by (subst (1 2) numeral_str.simps) auto
qed

lemma digit_loop_numeral:
  assumes "2 \<le> base" "d < base ^ k" "0 < k"
  shows "digit_loop base nums k d = Some (rev (numeral_str nums base d))"
  using assms(2,3)
proof (induction k arbitrary: d)
  case (Suc k)
  show ?case
  proof (cases "d < base")
    case True
    then show ?thesis using assms(1) by (subst numeral_str.simps) simp
  next
    case False
    then have k: "0 < k" using Suc.prems(1) by (cases k) auto
    have "d div base < base ^ k" using Suc.prems(1) assms(1) by (simp add: less_mult_imp_div_less mult.commute)
    from Suc.IH [OF this k] show ?thesis using False assms(1) by (subst numeral_str.simps) (simp add: Let_def div_eq_0_iff)
  qed
qed simp

section \<open>Bounds\<close>

lemma same_but_upd: "p \<le> q \<Longrightarrow> q < p + n \<Longrightarrow> same_but m (m(q := x)) p n"
  by (auto simp: same_but_def)

lemma memset_frame: "memset m p c n = Some m' \<Longrightarrow> same_but m m' p n"
proof (induction n arbitrary: m p)
  case (Suc n)
  then obtain u where "wr m p c = Some u" "memset u (p + 1) c n = Some m'" by (auto simp: bind_eq_Some_conv)
  then show ?case using Suc.IH [of u "p + 1"] by (auto simp: wr_def same_but_def split: if_splits)
qed simp

lemma store_frame: "store m p s = Some m' \<Longrightarrow> same_but m m' p (length s)"
proof (induction s arbitrary: m p)
  case (Cons c s)
  then obtain u where "wr m p c = Some u" "store u (p + 1) s = Some m'" by (auto simp: bind_eq_Some_conv)
  then show ?case using Cons.IH [of u "p + 1"] by (auto simp: wr_def same_but_def split: if_splits)
qed simp

lemma memcpy_frame: "memcpy m p q n = Some m' \<Longrightarrow> same_but m m' p n"
proof (induction n arbitrary: m p q)
  case (Suc n)
  then obtain c u where "wr m p c = Some u" "memcpy u (p + 1) (q + 1) n = Some m'" by (auto simp: bind_eq_Some_conv)
  then show ?case using Suc.IH [of u "p + 1" "q + 1"] by (auto simp: wr_def same_but_def split: if_splits)
qed simp

text \<open>\<open>m\<close> and \<open>m'\<close> differ only between \<open>cs\<close> and the end of the buffer.\<close>

definition inside :: "nat \<Rightarrow> nat \<Rightarrow> nat \<Rightarrow> memory \<Rightarrow> memory \<Rightarrow> bool" where
  "inside dest dsize cs m m' \<longleftrightarrow> cs \<le> dsize \<and> same_but m m' dest dsize"

lemma copy_byte_inside:
  "copy_byte_ip m (dest + cs) (dsize - cs) c = Some (ok, m') \<Longrightarrow> cs \<le> dsize \<Longrightarrow>
    inside dest dsize (if ok then cs + 1 else cs) m m'"
  by (auto simp: copy_byte_ip_def inside_def wr_def bind_eq_Some_conv same_but_def split: if_splits)

lemma copy_bytes_inside:
  "copy_bytes m dest dsize cs s = Some (ok, cs', m') \<Longrightarrow> cs \<le> dsize \<Longrightarrow> inside dest dsize cs' m m'"
proof (induction s arbitrary: m cs)
  case (Cons c s)
  then obtain b u where u: "copy_byte_ip m (dest + cs) (dsize - cs) c = Some (b, u)" by (auto simp: bind_eq_Some_conv)
  note i = copy_byte_inside [OF u Cons.prems(2)]
  show ?case
  proof (cases b)
    case True
    then have "inside dest dsize cs' u m'" using Cons.IH [of u "cs + 1"] Cons.prems(1) u i by (simp add: inside_def)
    then show ?thesis using i by (auto simp: inside_def intro: same_but_trans)
  next
    case False
    then show ?thesis using Cons.prems(1) u i by simp
  qed
qed (simp add: inside_def)

lemma make_width_inside:
  "make_width m (dest + cs) (dsize - cs) c fa = Some (ret, m') \<Longrightarrow> cs \<le> dsize \<Longrightarrow> inside dest dsize (cs + ret) m m'"
  by (auto simp: make_width_def inside_def bind_eq_Some_conv split: if_splits dest!: memset_frame elim!: same_but_mono)

lemma inside_trans: "inside dest dsize cs m m' \<Longrightarrow> inside dest dsize cs' m' m'' \<Longrightarrow> inside dest dsize cs' m m''"
  by (auto simp: inside_def intro: same_but_trans)

lemma inside_step:
  "memset m (dest + cs) c n = Some m' \<Longrightarrow> n \<le> dsize - cs \<Longrightarrow> cs \<le> dsize \<Longrightarrow> inside dest dsize (cs + n) m m'"
  "store m (dest + cs) s = Some m' \<Longrightarrow> length s \<le> dsize - cs \<Longrightarrow> cs \<le> dsize \<Longrightarrow> inside dest dsize (cs + length s) m m'"
  "memcpy m (dest + cs) q n = Some m' \<Longrightarrow> n \<le> dsize - cs \<Longrightarrow> cs \<le> dsize \<Longrightarrow> inside dest dsize (cs + n) m m'"
  by (auto simp: inside_def dest!: memset_frame store_frame memcpy_frame elim!: same_but_mono)

lemma pad_inside:
  "(if b then make_width m (dest + cs) (dsize - cs) c fa else Some (0, m)) = Some (ret, m') \<Longrightarrow> cs \<le> dsize \<Longrightarrow> inside dest dsize (cs + ret) m m'"
  "(if b then Some (0, m) else make_width m (dest + cs) (dsize - cs) c fa) = Some (ret, m') \<Longrightarrow> cs \<le> dsize \<Longrightarrow> inside dest dsize (cs + ret) m m'"
  by (auto simp: inside_def split: if_splits dest!: make_width_inside)

lemma inside_le: "inside dest dsize cs m m' \<Longrightarrow> cs \<le> dsize"
  by (simp add: inside_def)

lemma inside_full: "inside dest dsize cs m m' \<Longrightarrow> inside dest dsize dsize m m'"
  by (simp add: inside_def)

lemma digit_out_inside:
  assumes "digit_out m dest dsize cs tmp fa = Some (ret, m')" "cs \<le> dsize"
  shows "inside dest dsize ret m m'"
proof -
  obtain cs1 m1 where 1: "(if presiction fa > 0 \<and> nat (presiction fa) \<le> dsize - cs
      then do { m \<leftarrow> memset m (dest + cs) (CHR ''0'') (nat (presiction fa)); Some (cs + nat (presiction fa), m) }
      else Some (cs, m)) = Some (cs1, m1)"
    and rest: "(let s = rev (take (dsize - cs1) tmp) in do { m \<leftarrow> store m1 (dest + cs1) s;
      let cs = cs1 + length s;
      (ret, m) \<leftarrow> (if has fa FMT_FLJ then make_width m (dest + cs) (dsize - cs) (CHR '' '') fa else Some (0, m));
      Some (cs + ret, m) }) = Some (ret, m')"
    using assms(1) unfolding digit_out_def bind_eq_Some_conv by auto
  have i1: "inside dest dsize cs1 m m1"
    using 1 assms(2) by (auto simp: bind_eq_Some_conv inside_def split: if_splits dest!: memset_frame elim!: same_but_mono)
  let ?s = "rev (take (dsize - cs1) tmp)"
  obtain m2 r where 2: "store m1 (dest + cs1) ?s = Some m2" "ret = cs1 + length ?s + r"
    "(if has fa FMT_FLJ then make_width m2 (dest + (cs1 + length ?s)) (dsize - (cs1 + length ?s)) (CHR '' '') fa else Some (0, m2)) = Some (r, m')"
    using rest by (auto simp: Let_def bind_eq_Some_conv)
  have i2: "inside dest dsize (cs1 + length ?s) m1 m2" using inside_step(2) [OF 2(1)] inside_le [OF i1] by simp
  have "inside dest dsize ret m2 m'" using pad_inside(1) [OF 2(3)] inside_le [OF i2] 2(2) by simp
  then show ?thesis using i1 i2 by (blast intro: inside_trans)
qed

lemma digit_print_inside:
  assumes "digit_print m dest dsize tmp neg fa = Some (ret, m')"
  shows "inside dest dsize ret m m'"
proof -
  obtain ok cs m1 where 1: "copy_bytes m dest dsize 0 (if has fa FMT_FSPACE then '' '' else []) = Some (ok, cs, m1)"
    "(if \<not> ok then Some (dsize, m1)
     else do {
       (ret, m) \<leftarrow> (if has fa FMT_FLJ then Some (0, m1)
                   else make_width m1 (dest + cs) (dsize - cs) (if has fa FMT_FZERO then CHR ''0'' else CHR '' '') fa);
       (ok, cs, m) \<leftarrow> copy_bytes m dest dsize (cs + ret) (digit_prefix fa neg);
       if \<not> ok then Some (dsize, m) else digit_out m dest dsize cs tmp fa
     }) = Some (ret, m')"
    using assms unfolding digit_print_def bind_eq_Some_conv by auto
  have i1: "inside dest dsize cs m m1" using copy_bytes_inside [OF 1(1)] by simp
  show ?thesis
  proof (cases ok)
    case False
    then show ?thesis using 1(2) inside_full [OF i1] by simp
  next
    case True
    then obtain r m2 ok2 cs2 m3 where
      2: "(if has fa FMT_FLJ then Some (0, m1) else make_width m1 (dest + cs) (dsize - cs) (if has fa FMT_FZERO then CHR ''0'' else CHR '' '') fa) = Some (r, m2)"
      and 3: "copy_bytes m2 dest dsize (cs + r) (digit_prefix fa neg) = Some (ok2, cs2, m3)"
      and 4: "(if \<not> ok2 then Some (dsize, m3) else digit_out m3 dest dsize cs2 tmp fa) = Some (ret, m')"
      using 1(2) by (auto simp: bind_eq_Some_conv)
    have i2: "inside dest dsize (cs + r) m1 m2" using pad_inside(2) [OF 2] inside_le [OF i1] by simp
    have i3: "inside dest dsize cs2 m2 m3" using copy_bytes_inside [OF 3] inside_le [OF i2] by simp
    have "inside dest dsize ret m3 m'"
    proof (cases ok2)
      case True
      then show ?thesis using 4 digit_out_inside inside_le [OF i3] by simp
    next
      case False
      then show ?thesis using 4 by (auto simp: inside_def)
    qed
    then show ?thesis using i1 i2 i3 by (blast intro: inside_trans)
  qed
qed

lemma digit_inside: "digit m dest dsize d fa = Some (ret, m') \<Longrightarrow> inside dest dsize ret m m'"
  by (auto simp: digit_def Let_def bind_eq_Some_conv split: if_splits dest!: digit_print_inside)

lemma bind_pairE:
  assumes "Option.bind x (\<lambda>(a, b). f a b) = Some z"
  obtains a b where "x = Some (a, b)" "f a b = Some z"
  using assms by (cases x) auto

lemma print_str_inside:
  assumes "do {
      (ret, m) \<leftarrow> (if has fa FMT_FLJ then Some (0, m) else make_width m (dest + cs) (dsize - cs) (CHR '' '') fa);
      let cs = cs + ret;
      (cs, m) \<leftarrow> (if len \<le> dsize - cs
                 then do { m \<leftarrow> (if q = 0 then store m (dest + cs) ''<NULL>'' else memcpy m (dest + cs) q len); Some (cs + len, m) }
                 else Some (cs, m));
      (ret, m) \<leftarrow> (if has fa FMT_FLJ then make_width m (dest + cs) (dsize - cs) (CHR '' '') fa else Some (0, m));
      Some (Some (cs + ret), m)
    } = Some (r, m')" "cs \<le> dsize" "q = 0 \<Longrightarrow> len = length ''<NULL>''"
  shows "\<exists>cs'. r = Some cs' \<and> inside dest dsize cs' m m'"
proof -
  obtain r1 m1 cs2 m2 r3 m3 where
    1: "(if has fa FMT_FLJ then Some (0, m) else make_width m (dest + cs) (dsize - cs) (CHR '' '') fa) = Some (r1, m1)"
    and 2: "(if len \<le> dsize - (cs + r1)
       then do { m \<leftarrow> (if q = 0 then store m1 (dest + (cs + r1)) ''<NULL>'' else memcpy m1 (dest + (cs + r1)) q len); Some (cs + r1 + len, m) }
       else Some (cs + r1, m1)) = Some (cs2, m2)"
    and 3: "(if has fa FMT_FLJ then make_width m2 (dest + cs2) (dsize - cs2) (CHR '' '') fa else Some (0, m2)) = Some (r3, m3)" "Some (Some (cs2 + r3), m3) = Some (r, m')"
    using assms(1) unfolding Let_def by (elim bind_pairE) blast
  have i1: "inside dest dsize (cs + r1) m m1" by (rule pad_inside(2) [OF 1 assms(2)])
  have i2: "inside dest dsize cs2 m1 m2"
    using 2 inside_le [OF i1] assms(3) inside_step(2) [of m1 dest "cs + r1" "''<NULL>''" m2 dsize] inside_step(3) [of m1 dest "cs + r1" q len m2 dsize]
    by (auto simp: bind_eq_Some_conv inside_def split: if_splits)
  have "inside dest dsize (cs2 + r3) m2 m3" by (rule pad_inside(1) [OF 3(1) inside_le [OF i2]])
  then have "inside dest dsize (cs2 + r3) m m3" using i1 i2 by (blast intro: inside_trans)
  then show ?thesis using 3(2) by auto
qed

lemma print_char_inside:
  assumes "do {
      (ret, m) \<leftarrow> (if has fa FMT_FLJ then Some (0, m) else make_width m (dest + cs) (dsize - cs) (CHR '' '') fa);
      let cs = cs + ret;
      (ok, m) \<leftarrow> copy_byte_ip m (dest + cs) (dsize - cs) c;
      if \<not> ok then Some (None, m)
      else do {
        let cs = cs + 1;
        (ret, m) \<leftarrow> (if has fa FMT_FLJ then make_width m (dest + cs) (dsize - cs) (CHR '' '') fa else Some (0, m));
        Some (Some (cs + ret), m)
      }
    } = Some (r, m')" "cs \<le> dsize"
  shows "inside dest dsize (case r of None \<Rightarrow> dsize | Some cs' \<Rightarrow> cs') m m'"
proof -
  obtain r1 m1 ok m2 where
    1: "(if has fa FMT_FLJ then Some (0, m) else make_width m (dest + cs) (dsize - cs) (CHR '' '') fa) = Some (r1, m1)"
    and 2: "copy_byte_ip m1 (dest + (cs + r1)) (dsize - (cs + r1)) c = Some (ok, m2)"
    and 3: "(if \<not> ok then Some (None, m2)
      else do {
        let cs = cs + r1 + 1;
        (ret, m) \<leftarrow> (if has fa FMT_FLJ then make_width m2 (dest + cs) (dsize - cs) (CHR '' '') fa else Some (0, m2));
        Some (Some (cs + ret), m)
      }) = Some (r, m')"
    using assms(1) unfolding Let_def by (elim bind_pairE) blast
  have i1: "inside dest dsize (cs + r1) m m1" by (rule pad_inside(2) [OF 1 assms(2)])
  have i2: "inside dest dsize (if ok then cs + r1 + 1 else cs + r1) m1 m2" by (rule copy_byte_inside [OF 2 inside_le [OF i1]])
  show ?thesis
  proof (cases ok)
    case False
    then show ?thesis using 3 inside_full [OF inside_trans [OF i1 i2]] by auto
  next
    case True
    then obtain r3 where 4: "(if has fa FMT_FLJ then make_width m2 (dest + (cs + r1 + 1)) (dsize - (cs + r1 + 1)) (CHR '' '') fa else Some (0, m2)) = Some (r3, m')"
      "r = Some (cs + r1 + 1 + r3)" using 3 unfolding Let_def by (auto simp del: add_Suc_right elim!: bind_pairE)
    have i2': "inside dest dsize (cs + r1 + 1) m1 m2" using i2 True by simp
    have "inside dest dsize (cs + r1 + 1 + r3) m2 m'" by (rule pad_inside(1) [OF 4(1) inside_le [OF i2']])
    then show ?thesis using inside_trans [OF inside_trans [OF i1 i2']] 4(2) by simp
  qed
qed

lemma print_conv_inside:
  assumes "print_conv m dest dsize cs k fa = Some (r, m')" "cs \<le> dsize"
  shows "inside dest dsize (case r of None \<Rightarrow> dsize | Some cs' \<Rightarrow> cs') m m'"
proof (cases k)
  case (CNum d)
  then obtain ret where d: "digit m (dest + cs) (dsize - cs) d fa = Some (ret, m')" "r = (if ret = 0 then None else Some (cs + ret))"
    using assms(1) by (auto simp: print_conv_def bind_eq_Some_conv)
  have "same_but m m' (dest + cs) (dsize - cs)" "ret \<le> dsize - cs" using digit_inside [OF d(1)] by (auto simp: inside_def)
  then show ?thesis using d(2) assms(2) by (auto simp: inside_def elim!: same_but_mono)
next
  case (CStr q)
  obtain len where len: "(if q = 0 then Some (length ''<NULL>'') else strlen m q) = Some len"
    using assms(1) unfolding CStr print_conv_def conv.case bind_eq_Some_conv by blast
  then have "q = 0 \<Longrightarrow> len = length ''<NULL>''" by (auto split: if_splits)
  note ps = print_str_inside [where fa = "fa\<lparr>width := (if size_of_int (width fa) \<le> len then 0 else int_of_size (size_of_int (width fa) - len))\<rparr>"
      and m = m and dest = dest and r = r and m' = m', OF _ assms(2) this]
  have "\<exists>cs'. r = Some cs' \<and> inside dest dsize cs' m m'"
    using assms(1) unfolding print_conv_def CStr conv.case len Option.bind.bind_lunit Let_def by (intro ps) (simp_all only: Let_def)
  then show ?thesis by auto
next
  case (CChar c)
  have e: "print_conv m dest dsize cs (CChar c) fa = Some (r, m')" using assms(1) CChar by simp
  show ?thesis
    by (rule print_char_inside [of "fa\<lparr>width := (if width fa \<le> 1 then 0 else width fa - 1)\<rparr>", OF _ assms(2)])
      (use e in \<open>simp only: print_conv_def conv.case Let_def\<close>)
qed

lemma byte_then_inside:
  assumes "(case copy_byte_ip m (dest + cs) (dsize - cs) c of None \<Rightarrow> None
      | Some (ok, m) \<Rightarrow> if ok then f m else Some (dsize, m)) = Some (ret, m')" "cs \<le> dsize"
    and ih: "\<And>u. copy_byte_ip m (dest + cs) (dsize - cs) c = Some (True, u) \<Longrightarrow> f u = Some (ret, m') \<Longrightarrow> cs + 1 \<le> dsize \<Longrightarrow> inside dest dsize ret u m'"
  shows "inside dest dsize ret m m'"
proof -
  obtain ok u where u: "copy_byte_ip m (dest + cs) (dsize - cs) c = Some (ok, u)" "(if ok then f u else Some (dsize, u)) = Some (ret, m')"
    using assms(1) by (auto split: option.splits)
  note i = copy_byte_inside [OF u(1) assms(2)]
  show ?thesis
  proof (cases ok)
    case True
    then have "inside dest dsize ret u m'" using ih u inside_le [OF i] by simp
    then show ?thesis using i by (blast intro: inside_trans)
  next
    case False
    then show ?thesis using u(2) inside_full [OF i] by simp
  qed
qed

lemma fmt_loop_inside:
  "fmt_loop dest dsize cs s ap m = Some (ret, m') \<Longrightarrow> cs \<le> dsize \<Longrightarrow> inside dest dsize ret m m'"
proof (induction dest dsize cs s ap m rule: fmt_loop.induct)
  case (1 dest dsize cs ap m)
  then show ?case by (simp add: inside_def)
next
  case (2 dest dsize cs c rest ap m)
  show ?case
  proof (cases "c = CHR 0x25")
    case False
    then have e: "(case copy_byte_ip m (dest + cs) (dsize - cs) c of None \<Rightarrow> None
      | Some (ok, m) \<Rightarrow> if ok then fmt_loop dest dsize (cs + 1) rest ap m else Some (dsize, m)) = Some (ret, m')" using "2.prems"(1) by simp
    show ?thesis by (rule byte_then_inside [OF e "2.prems"(2)]) (use "2.IH"(1) [OF False] in simp)
  next
    case True
    then obtain r where r: "parse_spec [c] fattrs0 rest ap = Some r" using "2.prems"(1) by (cases "parse_spec [c] fattrs0 rest ap") auto
    show ?thesis
    proof (cases r)
      case (Convert k fa rest' ap')
      then obtain q u where q: "print_conv m dest dsize cs k fa = Some (q, u)"
        "(case q of None \<Rightarrow> Some (dsize, u) | Some cs \<Rightarrow> fmt_loop dest dsize cs rest' ap' u) = Some (ret, m')"
        using "2.prems"(1) True r by (auto split: option.splits)
      note i = print_conv_inside [OF q(1) "2.prems"(2)]
      show ?thesis
      proof (cases q)
        case None
        then show ?thesis using q(2) i by simp
      next
        case (Some cs')
        then have "inside dest dsize ret u m'" using "2.IH"(2) [OF _ r Convert] True q inside_le [OF i] by simp
        then show ?thesis using i by (blast intro: inside_trans)
      qed
    next
      case (Literal d rest' ap')
      then have e: "(case copy_byte_ip m (dest + cs) (dsize - cs) d of None \<Rightarrow> None
        | Some (ok, m) \<Rightarrow> if ok then fmt_loop dest dsize (cs + 1) rest' ap' m else Some (dsize, m)) = Some (ret, m')"
        using "2.prems"(1) True r by simp
      show ?thesis by (rule byte_then_inside [OF e "2.prems"(2)]) (use "2.IH"(3) [OF _ r Literal] True in simp)
    next
      case EndFmt
      then show ?thesis using "2.prems" True r by (simp add: inside_def)
    qed
  qed
qed

section \<open>Plain text and numbers\<close>

lemma fmt_loop_text:
  assumes "CHR 0x25 \<notin> set s" "mapped m dest dsize" "cs \<le> dsize"
  shows "\<exists>m'. fmt_loop dest dsize cs s ap m = Some (min (cs + length s) dsize, m') \<and>
    at m' (dest + cs) (take (dsize - cs) s) \<and> same_but m m' (dest + cs) (length (take (dsize - cs) s))"
  using assms
proof (induction s arbitrary: cs m)
  case (Cons c s)
  show ?case
  proof (cases "cs = dsize")
    case True
    then show ?thesis using Cons.prems(1) by (auto simp: copy_byte_ip_def)
  next
    case False
    then have lt: "cs < dsize" using Cons.prems(3) by simp
    then have w: "m (dest + cs) \<noteq> None" using Cons.prems(2) by (simp add: mapped_def)
    let ?u = "m(dest + cs \<mapsto> c)"
    have mu: "mapped ?u dest dsize" using Cons.prems(2) mapped_upd [of m "dest + cs"] w by simp
    have np: "CHR 0x25 \<notin> set s" "cs + 1 \<le> dsize" using Cons.prems(1) lt by auto
    obtain m' where m': "fmt_loop dest dsize (cs + 1) s ap ?u = Some (min (cs + 1 + length s) dsize, m')"
      "at m' (dest + (cs + 1)) (take (dsize - (cs + 1)) s)" "same_but ?u m' (dest + (cs + 1)) (length (take (dsize - (cs + 1)) s))"
      using Cons.IH [OF np(1) mu np(2)] by (elim exE conjE)
    have t: "take (dsize - cs) (c # s) = c # take (dsize - (cs + 1)) s" using lt by (simp add: take_Cons')
    have "m' (dest + cs) = Some c" using m'(3) by (simp add: same_but_def)
    moreover have "same_but m m' (dest + cs) (Suc (length (take (dsize - (cs + 1)) s)))" using m'(3) by (auto simp: same_but_def)
    moreover have "fmt_loop dest dsize cs (c # s) ap m = Some (min (cs + length (c # s)) dsize, m')"
      using m'(1) Cons.prems(1) lt w by (auto simp: copy_byte_ip_def)
    ultimately show ?thesis using m'(2) unfolding t by (intro exI [of _ m']) simp
  qed
qed simp

lemma sint_ext32:
  fixes x :: "32 word"
  shows "sint (scast x :: 64 word) = sint x"
  by (simp add: sint_up_scast is_up_def source_size_def target_size_def word_size)

lemma sint32_bounds: "- (2 ^ 31) \<le> sint (x :: 32 word)" "sint (x :: 32 word) < 2 ^ 31"
  using sint_ge [of x] sint_lt [of x] by simp_all

lemma unat_nonneg:
  fixes x :: "64 word"
  assumes "0 \<le> sint x"
  shows "unat x = nat (sint x)"
proof -
  have "sint x < 2 ^ 63" using sint_lt [of x] by simp
  then have "take_bit 64 (sint x) = sint x" using assms by (simp add: take_bit_int_eq_self)
  moreover have "uint x = take_bit 64 (sint x)" using uint_sint [of x] by simp
  ultimately have "uint x = sint x" by simp
  then show ?thesis by (simp add: unat_eq_nat_uint)
qed

text \<open>The decimal numeral of an integer.\<close>

definition dec_str :: "int \<Rightarrow> char list" where
  "dec_str n = (if n < 0 then CHR ''-'' # numeral_str ''0123456789abcdef'' 10 (nat (- n)) else numeral_str ''0123456789abcdef'' 10 (nat n))"

lemma dec_spec:
  "parse_spec ''%'' fattrs0 ''d'' [VInt w] =
     Some (Convert (CNum (scast (ucast w :: 32 word))) \<lparr>width = 0, presiction = 0, cinf = 1, fflags = 0x8001\<rparr> [] [])"
  by (simp add: spec_char_def isdigit_def schar_def step_num_def ident_num_size_def fattrs0_def has_def fmt_defs)

lemma copy_bytes_ok:
  "mapped m dest dsize \<Longrightarrow> cs + length s \<le> dsize \<Longrightarrow>
    \<exists>m'. copy_bytes m dest dsize cs s = Some (True, cs + length s, m') \<and> at m' (dest + cs) s \<and> same_but m m' (dest + cs) (length s) \<and> dom m' = dom m"
proof (induction s arbitrary: m cs)
  case (Cons c s)
  have w: "m (dest + cs) \<noteq> None" using Cons.prems by (simp add: mapped_def)
  have mu: "mapped (m(dest + cs \<mapsto> c)) dest dsize" using Cons.prems(1) mapped_upd [of m "dest + cs"] w by simp
  have "cs + 1 + length s \<le> dsize" using Cons.prems(2) by simp
  from Cons.IH [OF mu this] obtain m' where m': "copy_bytes (m(dest + cs \<mapsto> c)) dest dsize (cs + 1) s = Some (True, cs + 1 + length s, m')"
    "at m' (dest + (cs + 1)) s" "same_but (m(dest + cs \<mapsto> c)) m' (dest + (cs + 1)) (length s)" "dom m' = dom (m(dest + cs \<mapsto> c))"
    by (elim exE conjE)
  have "m' (dest + cs) = Some c" "same_but m m' (dest + cs) (length (c # s))" using m'(3) by (auto simp: same_but_def)
  then show ?case using m' w Cons.prems(2) by (auto simp: copy_byte_ip_def)
qed simp

lemma digit_plain:
  assumes map: "mapped m dest dsize" and n: "sint d = n" "- (2 ^ 63) < n" "length (dec_str n) \<le> dsize"
    and fa: "fa = \<lparr>width = 0, presiction = 0, cinf = k, fflags = 0x8001\<rparr>"
  shows "\<exists>m'. digit m dest dsize d fa = Some (length (dec_str n), m') \<and> at m' dest (dec_str n) \<and> same_but m m' dest (length (dec_str n))"
proof -
  let ?nums = "''0123456789abcdef''" and ?a = "nat \<bar>n\<bar>"
  let ?s = "numeral_str ?nums 10 ?a" and ?pre = "if n < 0 then ''-'' else []"
  have h: "\<not> has fa FMT_DUNSIG" "\<not> has fa FMT_FSPACE" "\<not> has fa FMT_FLJ" "\<not> has fa FMT_DOCT" "has fa FMT_DDEC" "\<not> has fa FMT_DHEX"
    "\<not> has fa FMT_DHEX_UP" "\<not> has fa FMT_FSIG" "\<not> has fa FMT_FPREF" and fc: "fclear FMT_FSPACE fa = fa"
    by (simp_all add: has_def fmt_defs fa)
  have df: "digit_fields j fa = fa" for j by (simp add: digit_fields_def fa size_of_int_def)
  have pre: "digit_prefix fa (n < 0) = ?pre" using h by (simp add: digit_prefix_def)
  have str: "dec_str n = ?pre @ ?s" by (simp add: dec_str_def)
  have "n < 2 ^ 63" using sint_lt [of d] n(1) by simp
  then have "?a < 2 ^ 63" using n(2) by simp
  then have "?a < 10 ^ FMT_DBUF_SIZE" by (simp add: FMT_DBUF_SIZE_def)
  then have loop: "digit_loop 10 ?nums FMT_DBUF_SIZE ?a = Some (rev ?s)" by (intro digit_loop_numeral) (simp_all add: FMT_DBUF_SIZE_def)
  have val: "(if n < 0 then nat (- sint d) else unat d) = ?a" using n(1) unat_nonneg [of d] by auto
  have dig: "digit m dest dsize d fa = digit_print m dest dsize (rev ?s) (n < 0) fa"
    using n(1,2) h fc loop val df by (cases "n < 0") (simp_all add: digit_def digit_base_def digit_nums_def Let_def)
  obtain m1 where m1: "copy_bytes m dest dsize 0 ?pre = Some (True, length ?pre, m1)" "at m1 dest ?pre" "same_but m m1 dest (length ?pre)" "dom m1 = dom m"
    using copy_bytes_ok [OF map, of 0 ?pre] n(3) str by auto
  have len: "length ?pre + length ?s \<le> dsize" using n(3) str by simp
  have "mapped m1 (dest + length ?pre) (length ?s)" unfolding mapped_frame [OF m1(4)] by (rule mapped_part [OF map]) (use len in simp_all)
  from store_spec [OF this] obtain m2 where m2: "store m1 (dest + length ?pre) ?s = Some m2" "at m2 (dest + length ?pre) ?s"
    "same_but m1 m2 (dest + length ?pre) (length ?s)" by blast
  have out: "digit_out m1 dest dsize (length ?pre) (rev ?s) fa = Some (length ?pre + length ?s, m2)"
    using h m2(1) len by (simp add: digit_out_def fa Let_def)
  have "digit_print m dest dsize (rev ?s) (n < 0) fa = Some (length ?pre + length ?s, m2)"
    using h pre m1(1) out by (simp add: digit_print_def make_width_def fa)
  moreover have "at m2 dest ?pre" by (rule at_frame [OF m1(2) m2(3)]) simp
  moreover have "same_but m m2 dest (length ?pre + length ?s)"
  proof (rule same_but_trans)
    show "same_but m m1 dest (length ?pre + length ?s)" by (rule same_but_mono [OF m1(3)]) simp_all
    show "same_but m1 m2 dest (length ?pre + length ?s)" by (rule same_but_mono [OF m2(3)]) simp_all
  qed
  ultimately show ?thesis using dig m2(2) str by simp
qed

lemma dec_str_length:
  assumes "- (2 ^ 31) \<le> n" "n < 2 ^ 31"
  shows "0 < length (dec_str n) \<and> length (dec_str n) \<le> 11"
proof -
  have "nat \<bar>n\<bar> < 10 ^ Suc 9" using assms by (simp add: nat_less_iff)
  from numeral_str_length [OF _ this, of "''0123456789abcdef''"] show ?thesis using assms by (auto simp: dec_str_def)
qed

section \<open>The zero flag\<close>

lemma has_FZERO: "has fa FMT_FZERO \<longleftrightarrow> bit (fflags fa) 4"
  using and_exp_eq_0_iff_not_bit [of "fflags fa" 4] by (simp add: has_def FMT_FZERO_def)

lemma step_num_zero:
  assumes "step_num x fa ap = Some r" "\<not> bit (fflags fa) 4" "\<not> bit x 4"
  shows "\<exists>k fa' ap'. r = SConv k fa' ap' \<and> \<not> bit (fflags fa') 4"
  using assms by (auto simp: step_num_def Let_def bind_eq_Some_conv bit_or_iff)

lemma spec_char_zero:
  assumes "spec_char fa c rest ap = Some r" "\<not> bit (fflags fa) 4"
  shows "case r of SConv k fa' ap' \<Rightarrow> \<not> bit (fflags fa') 4 | SLit fa' \<Rightarrow> True | SMore fa' ap' \<Rightarrow> \<not> bit (fflags fa') 4
    | SMore2 fa' \<Rightarrow> \<not> bit (fflags fa') 4 | SEnd \<Rightarrow> True"
proof -
  have z: "isdigit (CHR ''0'')" by (simp add: isdigit_def schar_def)
  have b: "\<not> bit FMT_FPREF 4" "\<not> bit FMT_FSIG 4" "\<not> bit FMT_FLJ 4" "\<not> bit FMT_FSPACE 4" "\<not> bit FMT_DOT 4" "\<not> bit FMT_LCHAR 4"
    "\<not> bit FMT_LSHORT 4" "\<not> bit FMT_LLONG 4" "\<not> bit FMT_LDLONG 4" "\<not> bit FMT_LSIZET 4" "\<not> bit FMT_TCHAR 4" "\<not> bit FMT_TSTR 4"
    "\<not> bit FMT_TNUM 4" "\<not> bit FMT_DDEC 4" "\<not> bit FMT_DHEX 4" "\<not> bit FMT_DHEX_UP 4" "\<not> bit FMT_DOCT 4" "\<not> bit FMT_DUNSIG 4"
    by (simp_all add: fmt_defs)
  have n: "case r of SConv k fa' ap' \<Rightarrow> \<not> bit (fflags fa') 4 | SLit fa' \<Rightarrow> True | SMore fa' ap' \<Rightarrow> \<not> bit (fflags fa') 4
    | SMore2 fa' \<Rightarrow> \<not> bit (fflags fa') 4 | SEnd \<Rightarrow> True" if "step_num x (fa\<lparr>cinf := cinf fa + 1\<rparr>) ap = Some r" "\<not> bit x 4" for x
    using step_num_zero [OF that(1)] that(2) assms(2) by auto
  show ?thesis
    using assms z n
    by (auto simp: spec_char_def Let_def bind_eq_Some_conv b bit_or_iff bit_and_iff split: if_splits list.splits va_arg.splits)
qed

lemma parse_zero:
  assumes "parse_spec seen fa s ap = Some (Convert k fa' rest ap')" "\<not> bit (fflags fa) 4"
  shows "\<not> bit (fflags fa') 4"
  using assms
proof (induction seen fa s ap rule: parse_spec.induct)
  case (2 seen fa c rest' ap)
  obtain st where st: "spec_char fa c rest' ap = Some st" using "2.prems"(1) by (cases "spec_char fa c rest' ap") auto
  note z = spec_char_zero [OF st "2.prems"(2)]
  show ?case
  proof (cases st)
    case (SMore fb bp)
    then show ?thesis using "2.IH"(1) [OF st SMore] "2.prems"(1) st z by simp
  next
    case (SMore2 fb)
    then show ?thesis using "2.IH"(2) [OF st SMore2] "2.prems"(1) st z by (auto split: list.splits)
  qed (use "2.prems"(1) st z in \<open>auto simp: unget_def split: if_splits\<close>)
qed simp

section \<open>\<^verbatim>\<open>itoa\<close> for numbers that are not negative\<close>

lemma itoa_loop_spec:
  assumes "2 \<le> radix" "mapped m p n" "length (numeral_str table radix (unat num)) \<le> n"
  shows "\<exists>m'. itoa_loop m p n num radix table =
      Some (p + length (numeral_str table radix (unat num)), n + 1 - length (numeral_str table radix (unat num)), m') \<and>
    at m' p (rev (numeral_str table radix (unat num))) \<and> same_but m m' p (length (numeral_str table radix (unat num))) \<and> dom m' = dom m"
  using assms(2,3)
proof (induction n arbitrary: m p num)
  case 0
  have "numeral_str table radix (unat num) \<noteq> []" by (subst numeral_str.simps) simp
  then show ?case using 0(2) by simp
next
  case (Suc n)
  have w: "m p \<noteq> None" "mapped m (p + 1) n" using Suc.prems(1) by (auto simp: mapped_Suc)
  show ?case
  proof (cases "unat num < radix")
    case True
    then have s: "numeral_str table radix (unat num) = [table ! unat num]" by (subst numeral_str.simps) simp
    then show ?thesis using True w(1) by (auto simp: s same_but_def)
  next
    case False
    let ?q = "word_of_nat (unat num div radix) :: 32 word" and ?c = "table ! (unat num mod radix)"
    have "unat num < 2 ^ LENGTH(32)" by (rule unsigned_less)
    then have "unat num div radix < 2 ^ LENGTH(32)" using div_le_dividend [of "unat num" radix] by (rule order.strict_trans1 [rotated])
    then have q: "unat ?q = unat num div radix" by (simp add: unsigned_of_nat take_bit_nat_eq_self)
    have s: "numeral_str table radix (unat num) = numeral_str table radix (unat ?q) @ [?c]"
      using False assms(1) q by (subst numeral_str.simps) simp
    have "mapped (m(p \<mapsto> ?c)) (p + 1) n" using w mapped_upd [of m p] by simp
    moreover have "length (numeral_str table radix (unat ?q)) \<le> n" using Suc.prems(2) s by simp
    ultimately obtain m' where m': "itoa_loop (m(p \<mapsto> ?c)) (p + 1) n ?q radix table =
        Some (p + 1 + length (numeral_str table radix (unat ?q)), n + 1 - length (numeral_str table radix (unat ?q)), m')"
      "at m' (p + 1) (rev (numeral_str table radix (unat ?q)))" "same_but (m(p \<mapsto> ?c)) m' (p + 1) (length (numeral_str table radix (unat ?q)))"
      "dom m' = dom (m(p \<mapsto> ?c))" using Suc.IH by blast
    have "m' p = Some ?c" "same_but m m' p (length (numeral_str table radix (unat num)))" using m'(3) s by (auto simp: same_but_def)
    then show ?thesis using m' w(1) False s by (auto simp: s)
  qed
qed

lemma swap_loop_spec:
  assumes "at m p xs" "xs \<noteq> []"
  shows "\<exists>m'. swap_loop m p (p + length xs - 1) = Some m' \<and> at m' p (rev xs) \<and> same_but m m' p (length xs)"
  using assms
proof (induction "length xs" arbitrary: m p xs rule: less_induct)
  case less
  show ?case
  proof (cases "length xs \<le> 1")
    case True
    then obtain a where "xs = [a]" using less.prems(2) by (cases xs) auto
    then show ?thesis using less.prems(1) by (subst swap_loop.simps) simp
  next
    case False
    then obtain a ys b where xs: "xs = a # ys @ [b]"
    proof -
      obtain a zs where "xs = a # zs" "zs \<noteq> []" using False less.prems(2) by (cases xs) auto
      then show thesis using that [of a "butlast zs" "last zs"] by simp
    qed
    let ?q = "p + length xs - 1"
    have q: "?q = p + 1 + length ys" "p < ?q" using xs by simp_all
    have ma: "m p = Some a" "m ?q = Some b" "at m (p + 1) ys" using less.prems(1) xs q by auto
    let ?u = "m(p \<mapsto> b, ?q \<mapsto> a)"
    have st: "swap_loop m p ?q = swap_loop ?u (p + 1) (?q - 1)" using ma q by (subst swap_loop.simps) simp
    have ys: "at ?u (p + 1) ys" using ma(3) q unfolding at_nth by auto
    show ?thesis
    proof (cases "ys = []")
      case True
      then have "swap_loop ?u (p + 1) (?q - 1) = Some ?u" using q by (subst swap_loop.simps) simp
      then show ?thesis using st q True by (auto simp: xs same_but_def)
    next
      case False
      have "length ys < length xs" using xs by simp
      from less.hyps [OF this ys False] obtain m' where m': "swap_loop ?u (p + 1) (p + 1 + length ys - 1) = Some m'" "at m' (p + 1) (rev ys)"
        "same_but ?u m' (p + 1) (length ys)" by blast
      have "m' p = Some b" "m' ?q = Some a" using m'(3) q by (auto simp: same_but_def)
      moreover have "same_but m m' p (length xs)" using m'(3) q xs by (auto simp: same_but_def)
      moreover have "?q - 1 = p + 1 + length ys - 1" using q by simp
      ultimately show ?thesis using st m'(1,2) q by (auto simp: xs)
    qed
  qed
qed

lemma numeral_no_nul:
  assumes "2 \<le> base" "base \<le> length nums" "NUL \<notin> set nums"
  shows "NUL \<notin> set (numeral_str nums base d)"
proof (induction d rule: less_induct)
  case (less d)
  have "d mod base < length nums" using assms(1,2) mod_less_divisor [of base d] by linarith
  then have "nums ! (d mod base) \<noteq> NUL" using assms(3) by (metis nth_mem)
  moreover have "d < base \<Longrightarrow> nums ! d \<noteq> NUL" using assms(2,3) by (metis nth_mem order.strict_trans2)
  moreover have "\<not> d < base \<Longrightarrow> NUL \<notin> set (numeral_str nums base (d div base))" using less [of "d div base"] assms(1) by simp
  ultimately show ?case using assms(1) by (subst numeral_str.simps) auto
qed

text \<open>When the digits fill the buffer exactly, the terminating character is written behind its end.\<close>

lemma itoa_overruns:
  assumes "itoa_table radix = Some table" "0 \<le> sint num" "mapped m buf n" "length (numeral_str table radix (unat num)) = n" "m (buf + n) = None"
  shows "itoa m num buf n radix = None"
proof -
  have r: "2 \<le> radix" using assms(1) by (auto simp: itoa_table_def split: if_splits)
  have "numeral_str table radix (unat num) \<noteq> []" by (subst numeral_str.simps) simp
  then have n: "n > 0" using assms(4) by auto
  obtain m' where m': "itoa_loop m buf n num radix table = Some (buf + n, 1, m')" "dom m' = dom m"
    using itoa_loop_spec [OF r assms(3), of table num] assms(4) by auto
  have "m' (buf + n) = None" using m'(2) assms(5) by (metis domIff)
  then show ?thesis using assms(1,2) n m'(1) by (simp add: itoa_def wr_def)
qed

section \<open>Properties\<close>

text \<open>
  C14. \<^verbatim>\<open>vsnprintf\<close> stays inside of its buffer: whatever the format and the arguments, the bytes it writes lie
  in the \<open>dsize\<close> bytes from \<open>dest\<close>, and the number it returns is at most \<open>dsize\<close>.
\<close>

theorem vsnprintf_stays_inside:
  assumes "vsnprintf m dest dsize fmt ap = Some (ret, m')"
  shows "ret \<le> dsize \<and> same_but m m' dest dsize"
  using fmt_loop_inside [of dest dsize 0 fmt ap m ret m'] assms by (simp add: vsnprintf_def inside_def)

theorem vsnprintf_stays_inside_witness:
  "\<exists>ret m'. vsnprintf (\<lambda>a. if a < 3 then Some NUL else None) 0 3 ''ab%cdef'' [VInt 0x41] = Some (ret, m') \<and>
    ret \<le> 3 \<and> same_but (\<lambda>a. if a < 3 then Some NUL else None) m' 0 3"
proof -
  let ?m = "\<lambda>a :: nat. if a < 3 then Some NUL else None"
  have "\<exists>ret m'. vsnprintf ?m 0 3 ''ab%cdef'' [VInt 0x41] = Some (ret, m')"
    by (simp add: vsnprintf_def copy_byte_ip_def spec_char_def isdigit_def schar_def fattrs0_def print_conv_def make_width_def Let_def has_def fmt_defs wr_def)
  then show ?thesis using vsnprintf_stays_inside by blast
qed

text \<open>
  C23. Printing an \<^verbatim>\<open>int\<close> with \<^verbatim>\<open>%d\<close> into a buffer of at least eleven bytes writes its decimal numeral: a minus
  sign for negative numbers and then digits whose value is the magnitude of the number, also for the
  smallest one. It returns the length of the numeral.
\<close>

theorem vsnprintf_decimal:
  assumes "mapped m dest dsize" "11 \<le> dsize" "n = sint (ucast w :: 32 word)"
  shows "\<exists>m' ds. vsnprintf m dest dsize ''%d'' [VInt w] = Some (length (dec_str n), m') \<and> at m' dest (dec_str n) \<and>
    dec_str n = (if n < 0 then ''-'' else []) @ ds \<and> numeral_val ''0123456789abcdef'' 10 ds = nat \<bar>n\<bar>"
proof -
  let ?d = "scast (ucast w :: 32 word) :: 64 word"
  have n: "sint ?d = n" "- (2 ^ 63) < n" using assms(3) sint_ext32 [of "ucast w"] sint32_bounds [of "ucast w"] by auto
  have len: "0 < length (dec_str n)" "length (dec_str n) \<le> 11" using dec_str_length [of n] assms(3) sint32_bounds by auto
  obtain m' where m': "digit m dest dsize ?d \<lparr>width = 0, presiction = 0, cinf = 1, fflags = 0x8001\<rparr> = Some (length (dec_str n), m')" "at m' dest (dec_str n)"
    using digit_plain [OF assms(1) n _ refl] len assms(2) by auto
  have "vsnprintf m dest dsize ''%d'' [VInt w] = Some (length (dec_str n), m')"
    using m'(1) len by (simp add: vsnprintf_def dec_spec print_conv_def del: parse_spec.simps)
  moreover have "numeral_val ''0123456789abcdef'' 10 (numeral_str ''0123456789abcdef'' 10 (nat \<bar>n\<bar>)) = nat \<bar>n\<bar>"
    by (rule numeral_val_str) simp_all
  ultimately show ?thesis using m'(2) by (intro exI [of _ m'] exI [of _ "numeral_str ''0123456789abcdef'' 10 (nat \<bar>n\<bar>)"]) (simp add: dec_str_def)
qed

theorem vsnprintf_decimal_witness:
  "\<exists>m'. vsnprintf (\<lambda>_. Some NUL) 100 16 ''%d'' [VInt (- 42)] = Some (3, m') \<and> at m' 100 ''-42''"
proof -
  have w: "sint (ucast (- 42 :: 64 word) :: 32 word) = - 42" by simp
  have d: "dec_str (- 42) = ''-42''" by (simp add: dec_str_def numeral_str.simps)
  show ?thesis using vsnprintf_decimal [of "\<lambda>_. Some NUL" 100 16 "- 42" "- 42"] w d by (auto simp: mapped_def)
qed

text \<open>
  No format ever selects padding with zeros: the digit \<^verbatim>\<open>0\<close> is taken for the first digit of the width
  before the case of the zero flag is reached, so that \<^verbatim>\<open>%05d\<close> pads with spaces.
\<close>

theorem zero_flag_never_set:
  assumes "parse_spec seen fattrs0 s ap = Some (Convert k fa rest ap')"
  shows "\<not> has fa FMT_FZERO"
  using parse_zero [OF assms] by (simp add: has_FZERO fattrs0_def)

theorem zero_flag_never_set_witness:
  "\<exists>k fa. parse_spec ''%'' fattrs0 ''05d'' [VInt 7] = Some (Convert k fa [] []) \<and> width fa = 5 \<and> \<not> has fa FMT_FZERO"
proof -
  have "\<exists>k fa. parse_spec ''%'' fattrs0 ''05d'' [VInt 7] = Some (Convert k fa [] []) \<and> width fa = 5"
    by (simp add: spec_char_def isdigit_def schar_def step_num_def ident_num_size_def fattrs0_def has_def fmt_defs fields_inc_def chk_int_def char2int_def)
  then show ?thesis using zero_flag_never_set by blast
qed



text \<open>
  C32. \<^verbatim>\<open>itoa\<close> of a number that is not negative, in base 8, 10 or 16 and into a buffer with a byte to spare,
  leaves the numeral of the number as a string in the buffer and writes nothing else.
\<close>

theorem itoa_numeral:
  assumes "itoa_table radix = Some table" "0 \<le> sint num" "mapped m buf buflen" "length (numeral_str table radix (unat num)) < buflen"
  shows "\<exists>m'. itoa m num buf buflen radix = Some m' \<and> cstr m' buf (numeral_str table radix (unat num)) \<and> same_but m m' buf buflen"
proof -
  let ?s = "numeral_str table radix (unat num)"
  have r: "2 \<le> radix" "radix \<le> length table" "NUL \<notin> set table" using assms(1) by (auto simp: itoa_table_def split: if_splits)
  have ne: "?s \<noteq> []" by (subst numeral_str.simps) simp
  obtain m1 where m1: "itoa_loop m buf buflen num radix table = Some (buf + length ?s, buflen + 1 - length ?s, m1)" "at m1 buf (rev ?s)"
    "same_but m m1 buf (length ?s)" "dom m1 = dom m" using itoa_loop_spec [OF r(1) assms(3), of table num] assms(4) by auto
  have "m (buf + length ?s) \<noteq> None" using assms(3,4) by (simp add: mapped_def)
  then have w: "m1 (buf + length ?s) \<noteq> None" using m1(4) by (metis domIff)
  let ?u = "m1(buf + length ?s \<mapsto> NUL)"
  have "at ?u buf (rev ?s)" using m1(2) unfolding at_nth by auto
  from swap_loop_spec [OF this] ne obtain m2 where m2: "swap_loop ?u buf (buf + length ?s - 1) = Some m2" "at m2 buf ?s"
    "same_but ?u m2 buf (length ?s)" by auto
  have "itoa m num buf buflen radix = Some m2" using assms(1,2,4) m1(1) w m2(1) by (simp add: itoa_def)
  moreover have "cstr m2 buf ?s" using m2(2,3) numeral_no_nul [OF r] by (simp add: cstr_def same_but_def)
  moreover have "same_but m m2 buf buflen" using m1(3) m2(3) assms(4) by (auto simp: same_but_def)
  ultimately show ?thesis by blast
qed

theorem itoa_numeral_witness: "\<exists>m'. itoa (\<lambda>_. Some NUL) 0xBEE 100 8 16 = Some m' \<and> cstr m' 100 ''BEE''"
proof -
  have s: "numeral_str ''0123456789ABCDEF'' 16 (unat (0xBEE :: 32 word)) = ''BEE''" by (simp add: numeral_str.simps)
  show ?thesis using itoa_numeral [of 16 "''0123456789ABCDEF''" "0xBEE" "\<lambda>_. Some NUL" 100 8] s by (auto simp: itoa_table_def mapped_def)
qed

end
