(* ===== verification/Tlsf.thy ===== *)
theory Tlsf
  imports Prelude Bitwise "HOL-Library.Word" "HOL-Library.Monad_Syntax"
begin

text \<open>
  The page allocator of \<^verbatim>\<open>kernel/mm/page_allocators/tlsf.c\<close>: free blocks of page frames kept in a
  two-level directory with bitmaps, coalesced when they are freed, and a cache of single pages for
  every CPU. The state is the array of page frames together with one memory pool and its TLSF
  context (\<^verbatim>\<open>mmpool_t\<close> and \<^verbatim>\<open>tlsf_t\<close>, which point to each other). A list of blocks or of cached
  pages is the sequence of the frame numbers linked in it. The model is the configuration
  \<^verbatim>\<open>CONFIG_SMP\<close> with \<^verbatim>\<open>CONFIG_DEBUG_MM\<close>, in which a double free is a panic; a panic, a failed
  \<^verbatim>\<open>ASSERT\<close>, an access outside of the frames array or of the directory and an undefined shift are \<open>None\<close>.
\<close>

unbundle bit_operations_syntax

section \<open>Page frames\<close>

record page_frame =
  pf_flags :: "16 word"
  refcount :: int
  slab_lazy_freelist :: "nat option"
  pf_offset :: nat
  priv_head :: bool
  priv_tail :: bool
  priv_size :: nat

definition PF_RESERVED :: "16 word" where "PF_RESERVED = push_bit 4 0x01"
definition PF_DIRTY :: "16 word" where "PF_DIRTY = push_bit 4 0x02"
definition PF_COW :: "16 word" where "PF_COW = push_bit 4 0x04"
definition PF_SHARED :: "16 word" where "PF_SHARED = push_bit 4 0x08"
definition PF_SLAB :: "16 word" where "PF_SLAB = push_bit 4 0x10"
definition PF_PENDING :: "16 word" where "PF_PENDING = push_bit 4 0x20"
definition PF_LOCK :: "16 word" where "PF_LOCK = push_bit 4 0x40"
definition PF_BUSY :: "16 word" where "PF_BUSY = push_bit 4 0x80"

definition PF_CLEAR_MASK :: "16 word" where
  "PF_CLEAR_MASK = PF_COW OR PF_DIRTY OR PF_SHARED OR PF_SLAB OR PF_PENDING"

definition PF_MMPOOL_TYPE :: "16 word \<Rightarrow> 16 word" where
  "PF_MMPOOL_TYPE fl = fl AND 0xf"

definition PF_MARK_BUSY :: "page_frame \<Rightarrow> page_frame" where
  "PF_MARK_BUSY p = p\<lparr>pf_flags := pf_flags p OR PF_BUSY\<rparr>"

definition PF_MARK_FREE :: "page_frame \<Rightarrow> page_frame" where
  "PF_MARK_FREE p = p\<lparr>pf_flags := pf_flags p AND NOT PF_BUSY\<rparr>"

definition PF_IS_BUSY :: "page_frame \<Rightarrow> bool" where
  "PF_IS_BUSY p \<longleftrightarrow> pf_flags p AND PF_BUSY \<noteq> 0"

definition pf_reserved :: "page_frame \<Rightarrow> bool" where
  "pf_reserved p \<longleftrightarrow> pf_flags p AND PF_RESERVED \<noteq> 0"

definition clear_page_frame :: "page_frame \<Rightarrow> page_frame option" where
  "clear_page_frame p =
     (let p1 = p\<lparr>pf_flags := pf_flags p AND NOT PF_CLEAR_MASK\<rparr>
      in if pf_flags p1 AND PF_LOCK \<noteq> 0 then None
         else Some (p1\<lparr>refcount := 0, slab_lazy_freelist := None, pf_offset := 0\<rparr>))"

section \<open>The pool and its directory\<close>

record tlsf_node =
  num_blocks :: int
  max_avail_size :: nat
  blocks :: "nat list"

record tlsf_percpu_cache =
  noc_pages :: int
  cpu_pages :: "nat list"
  cpu_ready :: bool

record tlsf =
  num_phys_pages :: nat
  frames :: "nat \<Rightarrow> page_frame"
  pool_type :: "16 word"
  first_pidx :: nat
  num_pages :: nat
  num_free_pages :: int
  node_map :: "nat \<times> nat \<Rightarrow> tlsf_node"
  total_blocks :: "nat \<Rightarrow> int"
  percpu :: "nat \<Rightarrow> tlsf_percpu_cache"
  slds_bitmap :: "nat \<Rightarrow> 8 word"
  fld_bitmap :: "8 word"

definition TLSF_FLD_SIZE :: nat where "TLSF_FLD_SIZE = 8"
definition TLSF_SLD_SIZE :: nat where "TLSF_SLD_SIZE = 4"
definition TLSF_CPUCACHE_PAGES :: nat where "TLSF_CPUCACHE_PAGES = 32"
definition TLSF_FIRST_OFFSET :: nat where "TLSF_FIRST_OFFSET = 4"

definition MAX_BLOCK_SIZE :: nat where
  "MAX_BLOCK_SIZE = push_bit (TLSF_FLD_SIZE + TLSF_FIRST_OFFSET - 1) 1"

definition pframe :: "tlsf \<Rightarrow> nat \<Rightarrow> page_frame option" where
  "pframe s i = (if i < num_phys_pages s then Some (frames s i) else None)"

definition upd_pframe :: "nat \<Rightarrow> (page_frame \<Rightarrow> page_frame) \<Rightarrow> tlsf \<Rightarrow> tlsf option" where
  "upd_pframe i f s =
     (if i < num_phys_pages s then Some (s\<lparr>frames := (frames s)(i := f (frames s i))\<rparr>) else None)"

section \<open>Directory indices\<close>

definition fld_offset :: "nat \<Rightarrow> nat" where
  "fld_offset fldi = (if fldi \<noteq> 0 then push_bit (fldi - 1) TLSF_SLD_SIZE else TLSF_SLD_SIZE)"

definition fldi2power :: "nat \<Rightarrow> nat" where
  "fldi2power fldi = (if fldi \<noteq> 0 then fldi + TLSF_FIRST_OFFSET - 1 else 0)"

definition power2fldi :: "nat \<Rightarrow> nat" where
  "power2fldi pow = (if pow \<ge> TLSF_FIRST_OFFSET then pow - TLSF_FIRST_OFFSET + 1 else 0)"

text \<open>The shift by \<open>bit_find_msf(0) = -1\<close> is undefined.\<close>

definition get_tlsf_ids :: "nat \<Rightarrow> (nat \<times> nat) option" where
  "get_tlsf_ids sz =
     (let pow2 = arch_bit_find_msf (of_nat sz)
      in if pow2 < 0 then None
         else let fldi = power2fldi (nat pow2)
              in Some (fldi, unset_bit (nat pow2) sz div fld_offset fldi))"

definition size_from_tlsf_ids :: "nat \<times> nat \<Rightarrow> nat" where
  "size_from_tlsf_ids ids = push_bit (fldi2power (fst ids)) 1 + snd ids * fld_offset (fst ids)"

definition fld_mark_avail :: "nat \<Rightarrow> tlsf \<Rightarrow> tlsf" where
  "fld_mark_avail fldi s = s\<lparr>fld_bitmap := set_bit fldi (fld_bitmap s)\<rparr>"

definition fld_mark_unavail :: "nat \<Rightarrow> tlsf \<Rightarrow> tlsf" where
  "fld_mark_unavail fldi s = s\<lparr>fld_bitmap := unset_bit fldi (fld_bitmap s)\<rparr>"

definition fld_is_avail :: "tlsf \<Rightarrow> nat \<Rightarrow> bool" where
  "fld_is_avail s fldi \<longleftrightarrow> bit (fld_bitmap s) fldi"

definition sld_bitmap :: "tlsf \<Rightarrow> nat \<Rightarrow> 8 word" where
  "sld_bitmap s fldi = slds_bitmap s (fldi * TLSF_SLD_SIZE)"

definition sld_mark_avail :: "nat \<Rightarrow> nat \<Rightarrow> tlsf \<Rightarrow> tlsf" where
  "sld_mark_avail fldi sldi s =
     s\<lparr>slds_bitmap := (slds_bitmap s)(fldi * TLSF_SLD_SIZE := set_bit sldi (sld_bitmap s fldi))\<rparr>"

definition sld_mark_unavail :: "nat \<Rightarrow> nat \<Rightarrow> tlsf \<Rightarrow> tlsf" where
  "sld_mark_unavail fldi sldi s =
     s\<lparr>slds_bitmap := (slds_bitmap s)(fldi * TLSF_SLD_SIZE := unset_bit sldi (sld_bitmap s fldi))\<rparr>"

definition sld_is_avail :: "tlsf \<Rightarrow> nat \<Rightarrow> nat \<Rightarrow> bool" where
  "sld_is_avail s fldi sldi \<longleftrightarrow> bit (sld_bitmap s fldi) sldi"

definition find_next_fldi :: "tlsf \<Rightarrow> nat \<Rightarrow> int" where
  "find_next_fldi s start = arch_bit_find_lsf (ucast (fld_bitmap s) AND NOT (push_bit (start + 1) 1 - 1))"

definition find_next_sldi :: "tlsf \<Rightarrow> nat \<Rightarrow> nat \<Rightarrow> int" where
  "find_next_sldi s fldi sldi_start =
     arch_bit_find_lsf (ucast (sld_bitmap s fldi) AND NOT (push_bit (sldi_start + 1) 1 - 1))"

section \<open>Blocks\<close>

definition pages_block_create :: "nat \<Rightarrow> nat \<Rightarrow> tlsf \<Rightarrow> tlsf option" where
  "pages_block_create bh offs s =
     (let tail = bh + offs; sz = offs + 1
      in do {
        s \<leftarrow> upd_pframe bh (priv_head_update (\<lambda>_. True)) s;
        s \<leftarrow> upd_pframe tail (priv_tail_update (\<lambda>_. True)) s;
        s \<leftarrow> upd_pframe bh (priv_size_update (\<lambda>_. sz)) s;
        if bh \<noteq> tail then upd_pframe tail (priv_size_update (\<lambda>_. sz)) s else Some s
      })"

definition pages_block_destroy :: "nat \<Rightarrow> tlsf \<Rightarrow> tlsf option" where
  "pages_block_destroy bh s =
     do {
       p \<leftarrow> pframe s bh;
       if bh + priv_size p = 0 then None else do {
         let tail = bh + priv_size p - 1;
         q \<leftarrow> pframe s tail;
         if \<not> priv_head p \<or> \<not> priv_tail q then None else do {
           s \<leftarrow> upd_pframe bh (priv_head_update (\<lambda>_. False)) s;
           s \<leftarrow> upd_pframe tail (priv_tail_update (\<lambda>_. False)) s;
           s \<leftarrow> upd_pframe bh (priv_size_update (\<lambda>_. 0)) s;
           if bh \<noteq> tail then upd_pframe tail (priv_size_update (\<lambda>_. 0)) s else Some s
         }
       }
     }"

text \<open>The greatest block is the last one of the list of its class.\<close>

definition node_add :: "nat \<Rightarrow> nat \<Rightarrow> tlsf_node \<Rightarrow> tlsf_node" where
  "node_add bh sz node =
     (if sz > max_avail_size node
      then node\<lparr>blocks := blocks node @ [bh], max_avail_size := sz\<rparr>
      else node\<lparr>blocks := bh # blocks node\<rparr>)"

text \<open>The first block of a second-level entry arrives; the last one leaves.\<close>

definition sld_filled :: "nat \<Rightarrow> nat \<Rightarrow> tlsf \<Rightarrow> tlsf" where
  "sld_filled fldi sldi s =
     (let s1 = sld_mark_avail fldi sldi s;
          s2 = s1\<lparr>total_blocks := (total_blocks s1)(fldi := total_blocks s1 fldi + 1)\<rparr>
      in if total_blocks s1 fldi = 0 then fld_mark_avail fldi s2 else s2)"

definition sld_emptied :: "nat \<Rightarrow> nat \<Rightarrow> tlsf \<Rightarrow> tlsf" where
  "sld_emptied fldi sldi s =
     (let s1 = sld_mark_unavail fldi sldi s;
          s2 = s1\<lparr>total_blocks := (total_blocks s1)(fldi := total_blocks s1 fldi - 1)\<rparr>
      in if total_blocks s2 fldi = 0 then fld_mark_unavail fldi s2 else s2)"

definition set_node :: "nat \<times> nat \<Rightarrow> tlsf_node \<Rightarrow> tlsf \<Rightarrow> tlsf" where
  "set_node ix node s = s\<lparr>node_map := (node_map s)(ix := node)\<rparr>"

definition pages_block_insert :: "nat \<Rightarrow> tlsf \<Rightarrow> tlsf option" where
  "pages_block_insert bh s =
     do {
       p \<leftarrow> pframe s bh;
       (fldi, sldi) \<leftarrow> get_tlsf_ids (priv_size p);
       if \<not> (fldi < TLSF_FLD_SIZE \<and> sldi < TLSF_SLD_SIZE) then None else do {
         let node = node_add bh (priv_size p) (node_map s (fldi, sldi));
         let s1 = set_node (fldi, sldi) (node\<lparr>num_blocks := num_blocks node + 1\<rparr>) s;
         Some (if num_blocks node = 0 then sld_filled fldi sldi s1 else s1)
       }
     }"

text \<open>\<^verbatim>\<open>list_del\<close> unlinks a block that is in the list of its size class.\<close>

definition pages_block_remove :: "nat \<Rightarrow> tlsf \<Rightarrow> tlsf option" where
  "pages_block_remove bh s =
     do {
       p \<leftarrow> pframe s bh;
       (fldi, sldi) \<leftarrow> get_tlsf_ids (priv_size p);
       if \<not> (fldi < TLSF_FLD_SIZE \<and> sldi < TLSF_SLD_SIZE) then None else do {
         let node = node_map s (fldi, sldi);
         if bh \<notin> set (blocks node) then None else do {
           let node1 = node\<lparr>blocks := remove1 bh (blocks node), num_blocks := num_blocks node - 1\<rparr>;
           if num_blocks node1 = 0 then
             Some (sld_emptied fldi sldi (set_node (fldi, sldi) (node1\<lparr>max_avail_size := 0\<rparr>) s))
           else if max_avail_size node1 = priv_size p then
             (if blocks node1 = [] then None
              else do {
                q \<leftarrow> pframe s (last (blocks node1));
                Some (set_node (fldi, sldi) (node1\<lparr>max_avail_size := priv_size q\<rparr>) s)
              })
           else Some (set_node (fldi, sldi) node1 s)
         }
       }
     }"

text \<open>The result \<open>Some None\<close> of the two neighbour functions is the null pointer.\<close>

definition left_neighbour :: "tlsf \<Rightarrow> nat \<Rightarrow> nat option option" where
  "left_neighbour s bh =
     (if bh = 0 then None
      else do {
        p \<leftarrow> pframe s (bh - 1);
        b \<leftarrow> pframe s bh;
        if \<not> priv_tail p \<or> PF_MMPOOL_TYPE (pf_flags p) \<noteq> PF_MMPOOL_TYPE (pf_flags b) \<or> pf_reserved p
        then Some None
        else if priv_size p > bh then None
        else do {
          let page = bh - priv_size p;
          q \<leftarrow> pframe s page;
          if priv_head q then Some (Some page) else None
        }
      })"

definition right_neighbour :: "tlsf \<Rightarrow> nat \<Rightarrow> nat option option" where
  "right_neighbour s bh =
     do {
       b \<leftarrow> pframe s bh;
       let page = bh + priv_size b;
       p \<leftarrow> pframe s page;
       if \<not> priv_head p \<or> PF_MMPOOL_TYPE (pf_flags p) = PF_MMPOOL_TYPE (pf_flags b) \<or> pf_reserved p
       then Some None
       else Some (Some page)
     }"

definition pages_block_split :: "nat \<Rightarrow> nat \<Rightarrow> tlsf \<Rightarrow> (nat \<times> tlsf) option" where
  "pages_block_split bh split_size s =
     do {
       p \<leftarrow> pframe s bh;
       if priv_size p \<le> split_size \<or> split_size = 0 then None else do {
         let offset = priv_size p - split_size;
         s \<leftarrow> pages_block_destroy bh s;
         let new_block = bh + offset;
         s \<leftarrow> pages_block_create bh (offset - 1) s;
         s \<leftarrow> pages_block_create new_block (split_size - 1) s;
         Some (new_block, s)
       }
     }"

definition find_neighbour :: "tlsf \<Rightarrow> nat \<Rightarrow> int \<Rightarrow> nat option option" where
  "find_neighbour s bh side =
     do {
       p \<leftarrow> pframe s bh;
       if side < 0 \<and> bh > first_pidx s then left_neighbour s bh
       else if bh + priv_size p < first_pidx s + num_pages s then right_neighbour s bh
       else Some None
     }"

definition try_merge_blocks :: "nat \<Rightarrow> int \<Rightarrow> tlsf \<Rightarrow> (nat \<times> tlsf) option" where
  "try_merge_blocks bh side s =
     do {
       p \<leftarrow> pframe s bh;
       let sz = priv_size p;
       nb \<leftarrow> find_neighbour s bh side;
       case nb of
         None \<Rightarrow> Some (bh, s)
       | Some neighbour \<Rightarrow> do {
           q \<leftarrow> pframe s neighbour;
           let n_size = priv_size q;
           if sz + n_size \<ge> MAX_BLOCK_SIZE then Some (bh, s) else do {
             s \<leftarrow> pages_block_remove neighbour s;
             s \<leftarrow> pages_block_destroy neighbour s;
             s \<leftarrow> pages_block_destroy bh s;
             if bh > neighbour
             then do { s \<leftarrow> pages_block_create neighbour (sz + n_size - 1) s; Some (neighbour, s) }
             else do { s \<leftarrow> pages_block_create bh (sz + n_size - 1) s; Some (bh, s) }
           }
         }
     }"

definition try_merge_left :: "nat \<Rightarrow> tlsf \<Rightarrow> (nat \<times> tlsf) option" where
  "try_merge_left bh s = try_merge_blocks bh (- 1) s"

definition try_merge_right :: "nat \<Rightarrow> tlsf \<Rightarrow> (nat \<times> tlsf) option" where
  "try_merge_right bh s = try_merge_blocks bh 1 s"

text \<open>The first or last node of an empty list is the list head, which is no page frame.\<close>

definition list_node_first :: "nat list \<Rightarrow> nat option" where
  "list_node_first xs = (case xs of [] \<Rightarrow> None | x # _ \<Rightarrow> Some x)"

definition list_node_last :: "nat list \<Rightarrow> nat option" where
  "list_node_last xs = (if xs = [] then None else Some (last xs))"

definition find_next_block :: "tlsf \<Rightarrow> nat \<Rightarrow> nat option option" where
  "find_next_block s fldi =
     (let fldi1 = find_next_fldi s fldi
      in if fldi1 < 0 then Some None
         else let sldi = arch_bit_find_lsf (ucast (sld_bitmap s (nat fldi1)))
              in if sldi < 0 \<or> nat fldi1 \<ge> TLSF_FLD_SIZE \<or> nat sldi \<ge> TLSF_SLD_SIZE then None
                 else map_option Some (list_node_first (blocks (node_map s (nat fldi1, nat sldi)))))"

definition find_suitable_block :: "tlsf \<Rightarrow> nat \<Rightarrow> nat option option" where
  "find_suitable_block s sz =
     do {
       (fldi, sldi) \<leftarrow> get_tlsf_ids sz;
       if \<not> (fldi < TLSF_FLD_SIZE \<and> sldi < TLSF_SLD_SIZE) then None
       else if fld_is_avail s fldi then
         (let node = node_map s (fldi, sldi)
          in if sld_is_avail s fldi sldi \<and> max_avail_size node \<ge> sz then
               map_option Some (if sz = push_bit (fldi2power fldi) 1 then list_node_first (blocks node)
                                else list_node_last (blocks node))
             else
               let sldi1 = find_next_sldi s fldi sldi
               in if sldi1 > 0 then
                    (if nat sldi1 \<ge> TLSF_SLD_SIZE then None
                     else map_option Some (list_node_first (blocks (node_map s (fldi, nat sldi1)))))
                  else find_next_block s fldi)
       else find_next_block s fldi
     }"

section \<open>The CPU caches\<close>

text \<open>\<open>None\<close> is the result \<open>-1\<close>, the page not taken.\<close>

definition put_page_to_cache :: "nat \<Rightarrow> nat \<Rightarrow> tlsf \<Rightarrow> tlsf option" where
  "put_page_to_cache cpu page s =
     (let pcpu = percpu s cpu
      in if \<not> cpu_ready pcpu \<or> noc_pages pcpu \<ge> int TLSF_CPUCACHE_PAGES then None
         else Some (s\<lparr>percpu := (percpu s)
                (cpu := pcpu\<lparr>cpu_pages := page # cpu_pages pcpu, noc_pages := noc_pages pcpu + 1\<rparr>)\<rparr>))"

text \<open>The outer option is a fault, the inner one the null pointer.\<close>

definition get_page_from_cache :: "nat \<Rightarrow> tlsf \<Rightarrow> (nat option \<times> tlsf) option" where
  "get_page_from_cache cpu s =
     (let pcpu = percpu s cpu
      in if \<not> cpu_ready pcpu \<or> noc_pages pcpu = 0 then Some (None, s)
         else case cpu_pages pcpu of
                [] \<Rightarrow> None
              | page # rest \<Rightarrow>
                  Some (Some page, s\<lparr>percpu := (percpu s)
                    (cpu := pcpu\<lparr>cpu_pages := rest, noc_pages := noc_pages pcpu - 1\<rparr>)\<rparr>))"

section \<open>Freeing and allocating\<close>

definition free_one :: "nat \<Rightarrow> tlsf \<Rightarrow> tlsf option" where
  "free_one i s =
     do {
       p \<leftarrow> pframe s i;
       if PF_MMPOOL_TYPE (pf_flags p) \<noteq> pool_type s \<or> \<not> PF_IS_BUSY p then None else do {
         p \<leftarrow> clear_page_frame (PF_MARK_FREE p);
         upd_pframe i (\<lambda>_. p) s
       }
     }"

primrec free_loop :: "nat \<Rightarrow> nat \<Rightarrow> tlsf \<Rightarrow> tlsf option" where
  "free_loop i 0 s = Some s"
| "free_loop i (Suc n) s = do { s \<leftarrow> free_one i s; free_loop (Suc i) n s }"

definition tlsf_free_pages :: "nat \<Rightarrow> nat \<Rightarrow> nat \<Rightarrow> tlsf \<Rightarrow> tlsf option" where
  "tlsf_free_pages cpu pages n s =
     (if n = 0 then None
      else if n + pages - 1 < first_pidx s \<or> n + pages - 1 \<ge> first_pidx s + num_pages s then Some s
      else do {
        s \<leftarrow> free_loop pages n s;
        case (if n = 1 then put_page_to_cache cpu pages s else None) of
          Some s1 \<Rightarrow> Some s1
        | None \<Rightarrow> do {
            s \<leftarrow> pages_block_create pages (n - 1) s;
            (merged_block, s) \<leftarrow> try_merge_left pages s;
            (merged_block, s) \<leftarrow> try_merge_right merged_block s;
            pages_block_insert merged_block s
          }
      })"

definition take_one :: "nat \<Rightarrow> tlsf \<Rightarrow> tlsf option" where
  "take_one i s =
     do {
       p \<leftarrow> pframe s i;
       if PF_IS_BUSY p then None else upd_pframe i PF_MARK_BUSY s
     }"

primrec take_loop :: "nat \<Rightarrow> nat \<Rightarrow> tlsf \<Rightarrow> tlsf option" where
  "take_loop i 0 s = Some s"
| "take_loop i (Suc n) s = do { s \<leftarrow> take_one i s; take_loop (Suc i) n s }"

text \<open>
  The block taken from the directory, cut to the requested size. The pages of the result are
  linked by their \<^verbatim>\<open>chain_node\<close> in ascending order, which is the sequence \<^verbatim>\<open>init_block\<close> returns.
\<close>

definition take_block :: "nat \<Rightarrow> tlsf \<Rightarrow> (nat option \<times> tlsf) option" where
  "take_block n s =
     do {
       fb \<leftarrow> find_suitable_block s n;
       case fb of
         None \<Rightarrow> Some (None, s)
       | Some bh \<Rightarrow> do {
           p \<leftarrow> pframe s bh;
           let sz = priv_size p;
           if sz = 0 then None else do {
             s \<leftarrow> pages_block_remove bh s;
             s \<leftarrow> (if sz > n
                   then do { (new_block, s) \<leftarrow> pages_block_split bh (sz - n) s; pages_block_insert new_block s }
                   else Some s);
             s \<leftarrow> pages_block_destroy bh s;
             Some (Some bh, s)
           }
         }
     }"

definition init_block :: "nat \<Rightarrow> nat \<Rightarrow> tlsf \<Rightarrow> (nat list option \<times> tlsf) option" where
  "init_block bh n s = do { s \<leftarrow> take_loop bh n s; Some (Some [bh..<bh + n], s) }"

definition tlsf_alloc_pages :: "nat \<Rightarrow> nat \<Rightarrow> tlsf \<Rightarrow> (nat list option \<times> tlsf) option" where
  "tlsf_alloc_pages cpu n s =
     (if n \<ge> MAX_BLOCK_SIZE \<or> int n > num_free_pages s then Some (None, s)
      else do {
        (cached, s) \<leftarrow> (if n = 1 then get_page_from_cache cpu s else Some (None, s));
        case cached of
          Some bh \<Rightarrow> init_block bh n s
        | None \<Rightarrow> do {
            (block, s) \<leftarrow> take_block n s;
            case block of
              None \<Rightarrow> Some (None, s)
            | Some bh \<Rightarrow> init_block bh n s
          }
      })"

section \<open>Initialisation\<close>

definition empty_node :: tlsf_node where
  "empty_node = \<lparr>num_blocks = 0, max_avail_size = 0, blocks = []\<rparr>"

definition empty_cache :: tlsf_percpu_cache where
  "empty_cache = \<lparr>noc_pages = 0, cpu_pages = [], cpu_ready = False\<rparr>"

primrec build_loop :: "nat \<Rightarrow> nat \<Rightarrow> nat \<Rightarrow> tlsf \<Rightarrow> tlsf option" where
  "build_loop cpu i 0 s = Some s"
| "build_loop cpu i (Suc n) s =
     do {
       p \<leftarrow> pframe s i;
       s \<leftarrow> (if pf_reserved p then Some s
             else do { s \<leftarrow> upd_pframe i PF_MARK_BUSY s; tlsf_free_pages cpu i 1 s });
       build_loop cpu (Suc i) n s
     }"

definition build_tlsf_map :: "nat \<Rightarrow> tlsf \<Rightarrow> tlsf option" where
  "build_tlsf_map cpu s =
     build_loop cpu (first_pidx s) (num_pages s)
       (s\<lparr>node_map := (\<lambda>_. empty_node), total_blocks := (\<lambda>_. 0), slds_bitmap := (\<lambda>_. 0), fld_bitmap := 0\<rparr>)"

primrec cache_loop :: "nat \<Rightarrow> nat list \<Rightarrow> tlsf \<Rightarrow> tlsf option" where
  "cache_loop cpu [] s = Some s"
| "cache_loop cpu (p # ps) s =
     do {
       s \<leftarrow> upd_pframe p PF_MARK_FREE s;
       cache_loop cpu ps (s\<lparr>percpu := (percpu s)
         (cpu := (percpu s cpu)\<lparr>cpu_pages := cpu_pages (percpu s cpu) @ [p]\<rparr>)\<rparr>)
     }"

text \<open>The boot CPU \<open>boot\<close> runs the initialisation; the result code of the cache is not looked at.\<close>

definition initialize_percpu_cache :: "nat \<Rightarrow> nat \<Rightarrow> tlsf \<Rightarrow> tlsf option" where
  "initialize_percpu_cache boot cpuid s =
     do {
       (r, s) \<leftarrow> tlsf_alloc_pages boot TLSF_CPUCACHE_PAGES
                   (s\<lparr>percpu := (percpu s)(cpuid := empty_cache)\<rparr>);
       case r of
         None \<Rightarrow> Some s
       | Some pages \<Rightarrow> do {
           s \<leftarrow> cache_loop cpuid pages s;
           Some (s\<lparr>percpu := (percpu s)
             (cpuid := (percpu s cpuid)\<lparr>noc_pages := int TLSF_CPUCACHE_PAGES, cpu_ready := True\<rparr>)\<rparr>)
         }
     }"

primrec init_caches :: "nat \<Rightarrow> nat list \<Rightarrow> tlsf \<Rightarrow> tlsf option" where
  "init_caches boot [] s = Some s"
| "init_caches boot (c # cs) s = do { s \<leftarrow> initialize_percpu_cache boot c s; init_caches boot cs s }"

definition tlsf_initialize :: "nat \<Rightarrow> nat list \<Rightarrow> tlsf \<Rightarrow> tlsf option" where
  "tlsf_initialize boot cpus s =
     do {
       s \<leftarrow> build_tlsf_map boot (s\<lparr>percpu := (\<lambda>_. empty_cache)\<rparr>);
       init_caches boot cpus s
     }"

section \<open>The debugging check\<close>

definition validate_empty_sldi_dbg :: "tlsf \<Rightarrow> nat \<Rightarrow> nat \<Rightarrow> bool" where
  "validate_empty_sldi_dbg s fldi sldi \<longleftrightarrow>
     (let node = node_map s (fldi, sldi)
      in blocks node = [] \<and> num_blocks node = 0 \<and> max_avail_size node = 0)"

text \<open>One directory entry: the number of pages in its blocks, or the panic of a failed check.\<close>

definition validate_sldi_dbg :: "tlsf \<Rightarrow> nat \<Rightarrow> nat \<Rightarrow> nat option" where
  "validate_sldi_dbg s fldi sldi =
     (if \<not> sld_is_avail s fldi sldi
      then if validate_empty_sldi_dbg s fldi sldi then Some 0 else None
      else do {
        let node = node_map s (fldi, sldi);
        l \<leftarrow> list_node_last (blocks node);
        pf \<leftarrow> pframe s l;
        if priv_size pf \<noteq> max_avail_size node then None
        else if int (length (blocks node)) \<noteq> num_blocks node then None
        else Some (sum_list (map (\<lambda>b. priv_size (frames s b)) (blocks node)))
      })"

definition validate_fldi_dbg :: "tlsf \<Rightarrow> nat \<Rightarrow> bool" where
  "validate_fldi_dbg s fldi \<longleftrightarrow>
     fld_is_avail s fldi \<or>
     (\<forall>sldi \<in> set [0..<TLSF_SLD_SIZE]. sld_is_avail s fldi sldi \<or> validate_empty_sldi_dbg s fldi sldi)"

fun validate_slds :: "tlsf \<Rightarrow> (nat \<times> nat) list \<Rightarrow> nat option" where
  "validate_slds s [] = Some 0"
| "validate_slds s ((fldi, sldi) # ids) =
     do { a \<leftarrow> validate_sldi_dbg s fldi sldi; b \<leftarrow> validate_slds s ids; Some (a + b) }"

definition tlsf_ids :: "(nat \<times> nat) list" where
  "tlsf_ids = List.product [0..<TLSF_FLD_SIZE] [0..<TLSF_SLD_SIZE]"

text \<open>\<open>True\<close> when the check returns, \<open>False\<close> when it panics.\<close>

definition tlsf_validate_dbg :: "nat list \<Rightarrow> tlsf \<Rightarrow> bool" where
  "tlsf_validate_dbg cpus s \<longleftrightarrow>
     list_all (validate_fldi_dbg s) [0..<TLSF_FLD_SIZE] \<and>
     (case validate_slds s tlsf_ids of
        None \<Rightarrow> False
      | Some total_pgs \<Rightarrow>
          list_all (\<lambda>c. noc_pages (percpu s c) \<ge> 0) cpus \<and>
          int total_pgs + sum_list (map (\<lambda>c. noc_pages (percpu s c)) cpus) = num_free_pages s)"

end
