(* ===== verification/Tlsf_Inv.thy ===== *)
theory Tlsf_Inv
  imports Tlsf
begin

text \<open>
  The invariant of the page allocator and that every operation of \<open>Tlsf\<close> keeps it. The frames
  layer says how the marks in the page frames describe a set \<open>B\<close> of disjoint free blocks (first
  frame to size) and a set \<open>C\<close> of single free pages; the index layer says that the directory,
  its counters and its bitmaps describe the same blocks.
\<close>

unbundle bit_operations_syntax

section \<open>Flags of a frame\<close>

definition pf_locked :: "page_frame \<Rightarrow> bool" where
  "pf_locked p \<longleftrightarrow> pf_flags p AND PF_LOCK \<noteq> 0"

lemmas pf_masks = PF_RESERVED_def PF_DIRTY_def PF_COW_def PF_SHARED_def PF_SLAB_def PF_PENDING_def
  PF_LOCK_def PF_BUSY_def PF_CLEAR_MASK_def

lemma pf_bits:
  "PF_IS_BUSY p \<longleftrightarrow> bit (pf_flags p) 11" "pf_reserved p \<longleftrightarrow> bit (pf_flags p) 4"
  "pf_locked p \<longleftrightarrow> bit (pf_flags p) 10"
  using and_exp_eq_0_iff_not_bit [of "pf_flags p" 11] and_exp_eq_0_iff_not_bit [of "pf_flags p" 4]
    and_exp_eq_0_iff_not_bit [of "pf_flags p" 10]
  by (simp_all add: PF_IS_BUSY_def pf_reserved_def pf_locked_def pf_masks)

lemma bit_PF_BUSY: "bit PF_BUSY n \<longleftrightarrow> n = 11"
proof -
  have e: "PF_BUSY = 2 ^ 11" by (simp add: PF_BUSY_def)
  show ?thesis unfolding e bit_exp_iff by auto
qed

lemma PF_CLEAR_MASK_bits:
  "\<not> bit PF_CLEAR_MASK 11" "\<not> bit PF_CLEAR_MASK 10" "\<not> bit PF_CLEAR_MASK 4"
  "PF_CLEAR_MASK AND 0xf = 0"
  by (simp_all add: pf_masks)

lemma mark_busy_simps [simp]:
  "PF_IS_BUSY (PF_MARK_BUSY p)" "pf_reserved (PF_MARK_BUSY p) = pf_reserved p"
  "pf_locked (PF_MARK_BUSY p) = pf_locked p"
  "PF_MMPOOL_TYPE (pf_flags (PF_MARK_BUSY p)) = PF_MMPOOL_TYPE (pf_flags p)"
  "priv_head (PF_MARK_BUSY p) = priv_head p" "priv_tail (PF_MARK_BUSY p) = priv_tail p"
  "priv_size (PF_MARK_BUSY p) = priv_size p"
proof -
  have "PF_BUSY AND 0xf = 0" by (simp add: PF_BUSY_def)
  then show "PF_MMPOOL_TYPE (pf_flags (PF_MARK_BUSY p)) = PF_MMPOOL_TYPE (pf_flags p)"
    by (simp add: PF_MMPOOL_TYPE_def PF_MARK_BUSY_def bit.conj_disj_distrib2)
qed (simp_all add: pf_bits PF_MARK_BUSY_def bit_or_iff bit_PF_BUSY)

lemma mark_free_simps [simp]:
  "\<not> PF_IS_BUSY (PF_MARK_FREE p)" "pf_reserved (PF_MARK_FREE p) = pf_reserved p"
  "pf_locked (PF_MARK_FREE p) = pf_locked p"
  "PF_MMPOOL_TYPE (pf_flags (PF_MARK_FREE p)) = PF_MMPOOL_TYPE (pf_flags p)"
  "priv_head (PF_MARK_FREE p) = priv_head p" "priv_tail (PF_MARK_FREE p) = priv_tail p"
  "priv_size (PF_MARK_FREE p) = priv_size p"
proof -
  have "NOT PF_BUSY AND (0xf :: 16 word) = 0xf" by (simp add: PF_BUSY_def)
  then show "PF_MMPOOL_TYPE (pf_flags (PF_MARK_FREE p)) = PF_MMPOOL_TYPE (pf_flags p)"
    by (simp add: PF_MMPOOL_TYPE_def PF_MARK_FREE_def and.assoc)
qed (simp_all add: pf_bits PF_MARK_FREE_def bit_and_iff bit_not_iff bit_PF_BUSY)

lemma clear_page_frame_ok:
  assumes "\<not> pf_locked p"
  shows "\<exists>q. clear_page_frame p = Some q \<and> PF_IS_BUSY q = PF_IS_BUSY p \<and> pf_reserved q = pf_reserved p \<and>
    \<not> pf_locked q \<and> PF_MMPOOL_TYPE (pf_flags q) = PF_MMPOOL_TYPE (pf_flags p) \<and>
    priv_head q = priv_head p \<and> priv_tail q = priv_tail p \<and> priv_size q = priv_size p"
proof -
  let ?fl = "pf_flags p AND NOT PF_CLEAR_MASK"
  have b: "bit ?fl n = bit (pf_flags p) n" if "n \<in> {4, 10, 11}" for n
    using that PF_CLEAR_MASK_bits by (auto simp: bit_and_iff bit_not_iff)
  have "NOT PF_CLEAR_MASK AND (0xf :: 16 word) = 0xf" by (simp add: pf_masks)
  then have t: "PF_MMPOOL_TYPE ?fl = PF_MMPOOL_TYPE (pf_flags p)"
    by (simp add: PF_MMPOOL_TYPE_def and.assoc)
  have l: "?fl AND PF_LOCK = 0"
    using assms b [of 10] pf_bits(3) [of "p\<lparr>pf_flags := ?fl\<rparr>"] pf_bits(3) [of p]
    by (simp add: pf_locked_def)
  show ?thesis
    using assms t l b [of 4] b [of 10] b [of 11]
    by (simp add: clear_page_frame_def Let_def pf_bits)
qed

section \<open>Size classes\<close>

lemma msf_of_size:
  assumes "2 ^ p \<le> n" "n < 2 ^ Suc p" "p < 64"
  shows "arch_bit_find_msf (of_nat n) = int p" "bit n p"
proof -
  have "n div 2 ^ p = 1" using assms by (auto intro!: div_nat_eqI)
  then show b: "bit n p" by (simp add: bit_iff_odd)
  have 2: "\<not> bit n m" if "p < m" for m
  proof -
    have "n < 2 ^ m" using assms(2) that power_increasing [of "Suc p" m "2::nat"] by simp
    then show ?thesis by (simp add: bit_iff_odd)
  qed
  show "arch_bit_find_msf (of_nat n) = int p"
    using b 2 assms(3) bsr_Some [of "of_nat n" p] by (simp add: arch_bit_find_msf_def bit_of_nat_iff)
qed

lemma size_power:
  assumes "0 < n" "n < MAX_BLOCK_SIZE"
  obtains p where "2 ^ p \<le> n" "n < 2 ^ Suc p" "p < 11"
proof -
  obtain p where p: "2 ^ p \<le> n" "n < 2 ^ Suc p"
    using ex_power_ivl1 [of 2 n] assms(1) by auto
  have "(2::nat) ^ p < 2 ^ 11" using p(1) assms(2) by (simp add: MAX_BLOCK_SIZE_def TLSF_FLD_SIZE_def TLSF_FIRST_OFFSET_def)
  then have "p < 11" using power_strict_increasing_iff [of "2::nat" p 11] by linarith
  then show thesis using p that by blast
qed

lemma pow_sub2: "2 \<le> k \<Longrightarrow> (4::nat) * 2 ^ (k - 2) = 2 ^ k"
  by (drule le_Suc_ex) (auto simp: power_add)

lemma get_tlsf_ids_eq:
  assumes "2 ^ p \<le> n" "n < 2 ^ Suc p" "p < 64"
  shows "get_tlsf_ids n =
    Some (if 4 \<le> p then (p - 3, (n - 2 ^ p) div 2 ^ (p - 2)) else (0, (n - 2 ^ p) div 4))"
proof -
  have "int (unset_bit p n) = int n - 2 ^ p"
    using msf_of_size(2) [OF assms] by (simp add: of_nat_unset_bit_eq unset_bit_eq bit_of_nat_iff)
  then have "int (unset_bit p n) = int (n - 2 ^ p)"
    using assms(1) by (simp add: of_nat_diff)
  then have u: "unset_bit p n = n - 2 ^ p" by (simp only: of_nat_eq_iff)
  have o: "fld_offset (p - 3) = 2 ^ (p - 2)" if "4 \<le> p"
  proof -
    have "(4::nat) * 2 ^ (p - 4) = 2 ^ (p - 2)" using pow_sub2 [of "p - 2"] that by simp
    then show ?thesis using that by (simp add: fld_offset_def TLSF_SLD_SIZE_def push_bit_eq_mult algebra_simps)
  qed
  show ?thesis
    using msf_of_size(1) [OF assms] u o
    by (auto simp: get_tlsf_ids_def Let_def power2fldi_def TLSF_FIRST_OFFSET_def fld_offset_def TLSF_SLD_SIZE_def
        Suc_diff_le)
qed

lemma ids_range:
  assumes "0 < n" "n < MAX_BLOCK_SIZE"
  obtains f sl where "get_tlsf_ids n = Some (f, sl)" "f < TLSF_FLD_SIZE" "sl < TLSF_SLD_SIZE"
proof -
  obtain p where p: "2 ^ p \<le> n" "n < 2 ^ Suc p" "p < 11" using size_power [OF assms] .
  have "(n - 2 ^ p) div 2 ^ (p - 2) < 4" if "4 \<le> p"
  proof -
    have "(2::nat) ^ p = 4 * 2 ^ (p - 2)" using pow_sub2 [of p] that by simp
    then have "n - 2 ^ p < 4 * 2 ^ (p - 2)" using p by simp
    then show ?thesis by (simp add: less_mult_imp_div_less)
  qed
  moreover have "(n - 2 ^ p) div 4 < 4" if "\<not> 4 \<le> p"
  proof -
    have "(2::nat) ^ p \<le> 2 ^ 3" using that by (intro power_increasing) auto
    then show ?thesis using p by (simp add: less_mult_imp_div_less)
  qed
  ultimately show thesis
    using that get_tlsf_ids_eq [OF p(1,2)] p(3)
    by (auto simp: TLSF_FLD_SIZE_def TLSF_SLD_SIZE_def split: if_splits)
qed

lemma ids_mono:
  assumes "0 < m" "m \<le> n" "n < MAX_BLOCK_SIZE"
    and "get_tlsf_ids m = Some (f, sl)" "get_tlsf_ids n = Some (f', sl')"
  shows "f < f' \<or> f = f' \<and> sl \<le> sl'"
proof -
  obtain p where p: "2 ^ p \<le> m" "m < 2 ^ Suc p" "p < 11" using size_power [of m] assms by auto
  obtain q where q: "2 ^ q \<le> n" "n < 2 ^ Suc q" "q < 11" using size_power [of n] assms by auto
  have "(2::nat) ^ p < 2 ^ Suc q" using p(1) q(2) assms(2) by linarith
  then have le: "p \<le> q" using power_strict_increasing_iff [of "2::nat" p "Suc q"] by simp
  have ids: "get_tlsf_ids m = Some (if 4 \<le> p then (p - 3, (m - 2 ^ p) div 2 ^ (p - 2)) else (0, (m - 2 ^ p) div 4))"
    "get_tlsf_ids n = Some (if 4 \<le> q then (q - 3, (n - 2 ^ q) div 2 ^ (q - 2)) else (0, (n - 2 ^ q) div 4))"
    using get_tlsf_ids_eq p q by auto
  show ?thesis
  proof (cases "p = q")
    case True
    then show ?thesis using ids assms(2,4,5) by (auto simp: div_le_mono split: if_splits)
  next
    case False
    then have lt: "p < q" using le by simp
    show ?thesis
    proof (cases "4 \<le> q")
      case True
      then show ?thesis using ids assms(4,5) lt by (auto split: if_splits)
    next
      case False
      have "(2::nat) ^ p \<le> 2 ^ 2" using lt False by (intro power_increasing) auto
      then have "(m - 2 ^ p) div 4 = 0" using p(2) by simp
      then show ?thesis using ids assms(4,5) lt False by auto
    qed
  qed
qed

lemma ids_lower:
  assumes "0 < n" "n < MAX_BLOCK_SIZE" "get_tlsf_ids n = Some (f, sl)"
  shows "push_bit (fldi2power f) 1 \<le> n"
proof -
  obtain p where p: "2 ^ p \<le> n" "n < 2 ^ Suc p" "p < 11" using size_power [OF assms(1,2)] .
  have "fldi2power f \<le> p"
    using get_tlsf_ids_eq [OF p(1,2)] p(3) assms(3)
    by (auto simp: fldi2power_def TLSF_FIRST_OFFSET_def split: if_splits)
  then have "(2::nat) ^ fldi2power f \<le> 2 ^ p" by (intro power_increasing) auto
  then have "(2::nat) ^ fldi2power f \<le> n" using p(1) by linarith
  then show ?thesis by (simp add: push_bit_eq_mult)
qed

section \<open>The frames layer\<close>

definition in_pool :: "tlsf \<Rightarrow> nat \<Rightarrow> bool" where
  "in_pool s i \<longleftrightarrow> first_pidx s \<le> i \<and> i < first_pidx s + num_pages s"

definition pages_of :: "(nat \<Rightarrow> nat option) \<Rightarrow> nat set" where
  "pages_of B = {i. \<exists>h z. B h = Some z \<and> h \<le> i \<and> i < h + z}"

definition free_frame :: "page_frame \<Rightarrow> bool" where
  "free_frame p \<longleftrightarrow> \<not> PF_IS_BUSY p \<and> \<not> pf_reserved p"

text \<open>The pages the pool can give out.\<close>

definition free_set :: "tlsf \<Rightarrow> nat set" where
  "free_set s = {i. in_pool s i \<and> free_frame (frames s i)}"

definition pool_ok :: "tlsf \<Rightarrow> bool" where
  "pool_ok s \<longleftrightarrow> first_pidx s + num_pages s \<le> num_phys_pages s \<and>
     (\<forall>i. in_pool s i \<longrightarrow> PF_MMPOOL_TYPE (pf_flags (frames s i)) = pool_type s)"

definition blocks_ok :: "tlsf \<Rightarrow> (nat \<Rightarrow> nat option) \<Rightarrow> bool" where
  "blocks_ok s B \<longleftrightarrow>
     (\<forall>h z. B h = Some z \<longrightarrow> 0 < z \<and> z < MAX_BLOCK_SIZE \<and> first_pidx s \<le> h \<and> h + z \<le> first_pidx s + num_pages s \<and>
        priv_size (frames s h) = z \<and> priv_size (frames s (h + z - 1)) = z) \<and>
     (\<forall>h z h' z'. B h = Some z \<longrightarrow> B h' = Some z' \<longrightarrow> h < h' \<longrightarrow> h + z \<le> h')"

definition marks_ok :: "tlsf \<Rightarrow> (nat \<Rightarrow> nat option) \<Rightarrow> bool" where
  "marks_ok s B \<longleftrightarrow>
     (\<forall>i. in_pool s i \<longrightarrow> priv_head (frames s i) = (B i \<noteq> None)) \<and>
     (\<forall>i. in_pool s i \<longrightarrow> priv_tail (frames s i) = (\<exists>h z. B h = Some z \<and> Suc i = h + z))"

definition frames_ok :: "tlsf \<Rightarrow> (nat \<Rightarrow> nat option) \<Rightarrow> nat set \<Rightarrow> bool" where
  "frames_ok s B C \<longleftrightarrow> pool_ok s \<and> blocks_ok s B \<and> marks_ok s B \<and>
     free_set s = pages_of B \<union> C \<and> pages_of B \<inter> C = {}"

lemma pages_of_upd: "B h = None \<Longrightarrow> pages_of (B(h \<mapsto> z)) = pages_of B \<union> {h..<h + z}"
  by (auto simp: pages_of_def split: if_splits)

lemma in_pages_of: "B h = Some z \<Longrightarrow> h \<le> i \<Longrightarrow> i < h + z \<Longrightarrow> i \<in> pages_of B"
  by (auto simp: pages_of_def)

lemma blocks_okD:
  assumes "blocks_ok s B" "B h = Some z"
  shows "0 < z" "z < MAX_BLOCK_SIZE" "first_pidx s \<le> h" "h + z \<le> first_pidx s + num_pages s"
    "priv_size (frames s h) = z" "priv_size (frames s (h + z - 1)) = z"
  using assms by (auto simp: blocks_ok_def)

lemma blocks_disjoint:
  assumes "blocks_ok s B" "B h = Some z" "B h' = Some z'" "h \<noteq> h'"
  shows "h + z \<le> h' \<or> h' + z' \<le> h"
  using assms by (auto simp: blocks_ok_def linorder_neq_iff)

lemma pages_of_del:
  assumes "blocks_ok s B" "B h = Some z"
  shows "pages_of (B(h := None)) = pages_of B - {h..<h + z}"
proof -
  have "i \<notin> {h..<h + z}" if "B h' = Some z'" "h' \<noteq> h" "h' \<le> i" "i < h' + z'" for h' z' i
    using blocks_disjoint [OF assms(1) that(1) assms(2)] that by auto
  then show ?thesis using assms(2) by (fastforce simp: pages_of_def split: if_splits)
qed

definition mk_block :: "nat \<Rightarrow> nat \<Rightarrow> (nat \<Rightarrow> page_frame) \<Rightarrow> nat \<Rightarrow> page_frame" where
  "mk_block h z fr i = (fr i)\<lparr>priv_head := (i = h \<or> priv_head (fr i)), priv_tail := (Suc i = h + z \<or> priv_tail (fr i)),
     priv_size := (if i = h \<or> Suc i = h + z then z else priv_size (fr i))\<rparr>"

definition rm_block :: "nat \<Rightarrow> nat \<Rightarrow> (nat \<Rightarrow> page_frame) \<Rightarrow> nat \<Rightarrow> page_frame" where
  "rm_block h z fr i = (fr i)\<lparr>priv_head := (i \<noteq> h \<and> priv_head (fr i)), priv_tail := (Suc i \<noteq> h + z \<and> priv_tail (fr i)),
     priv_size := (if i = h \<or> Suc i = h + z then 0 else priv_size (fr i))\<rparr>"

lemma block_fields [simp]:
  "pf_flags (mk_block h z fr i) = pf_flags (fr i)" "pf_flags (rm_block h z fr i) = pf_flags (fr i)"
  "free_frame (mk_block h z fr i) = free_frame (fr i)" "free_frame (rm_block h z fr i) = free_frame (fr i)"
  "priv_head (mk_block h z fr i) = (i = h \<or> priv_head (fr i))"
  "priv_tail (mk_block h z fr i) = (Suc i = h + z \<or> priv_tail (fr i))"
  "priv_size (mk_block h z fr i) = (if i = h \<or> Suc i = h + z then z else priv_size (fr i))"
  "priv_head (rm_block h z fr i) = (i \<noteq> h \<and> priv_head (fr i))"
  "priv_tail (rm_block h z fr i) = (Suc i \<noteq> h + z \<and> priv_tail (fr i))"
  "priv_size (rm_block h z fr i) = (if i = h \<or> Suc i = h + z then 0 else priv_size (fr i))"
  by (simp_all add: mk_block_def rm_block_def free_frame_def PF_IS_BUSY_def pf_reserved_def)

lemma pages_block_create_eq:
  assumes "h + offs < num_phys_pages s"
  shows "pages_block_create h offs s = Some (s\<lparr>frames := mk_block h (Suc offs) (frames s)\<rparr>)"
proof -
  have "h < num_phys_pages s" using assms by simp
  then show ?thesis
    using assms by (auto simp: pages_block_create_def upd_pframe_def mk_block_def fun_eq_iff Let_def intro!: tlsf.equality)
qed

lemma pages_block_destroy_eq:
  assumes "priv_size (frames s h) = z" "0 < z" "h + z \<le> num_phys_pages s"
    and "priv_head (frames s h)" "priv_tail (frames s (h + z - 1))"
  shows "pages_block_destroy h s = Some (s\<lparr>frames := rm_block h z (frames s)\<rparr>)"
proof -
  obtain k where k: "z = Suc k" using assms(2) by (cases z) auto
  have "h < num_phys_pages s" "h + k < num_phys_pages s" using assms(3) k by simp_all
  then show ?thesis
    using assms k
    by (auto simp: pages_block_destroy_def pframe_def upd_pframe_def rm_block_def fun_eq_iff Let_def intro!: tlsf.equality)
qed

lemma in_pool_frames [simp]: "in_pool (s\<lparr>frames := fr\<rparr>) i = in_pool s i"
  by (simp add: in_pool_def)

lemma free_set_frames: "(\<And>i. free_frame (fr i) = free_frame (frames s i)) \<Longrightarrow> free_set (s\<lparr>frames := fr\<rparr>) = free_set s"
  by (simp add: free_set_def)

lemma frames_ok_create:
  assumes ok: "frames_ok s B C" and sub: "{h..<h + z} \<subseteq> C" and z: "0 < z" "z < MAX_BLOCK_SIZE"
  shows "frames_ok (s\<lparr>frames := mk_block h z (frames s)\<rparr>) (B(h \<mapsto> z)) (C - {h..<h + z})"
proof -
  have o: "pool_ok s" "blocks_ok s B" "marks_ok s B" "free_set s = pages_of B \<union> C" "pages_of B \<inter> C = {}"
    using ok by (simp_all add: frames_ok_def)
  have new: "i \<notin> pages_of B" "in_pool s i" if "h \<le> i" "i < h + z" for i
    using that sub o(4,5) by (auto simp: free_set_def)
  have hN: "B h = None"
  proof (cases "B h")
    case (Some y)
    then show ?thesis using new(1) [of h] z in_pages_of [of B h y h] Some blocks_okD(1) [OF o(2) Some] by simp
  qed
  have range: "first_pidx s \<le> h" "h + z \<le> first_pidx s + num_pages s"
  proof -
    have "h \<le> h + z - 1" "h + z - 1 < h + z" using z by auto
    then have "in_pool s (h + z - 1)" by (rule new(2))
    moreover have "in_pool s h" using new(2) [of h] z by simp
    ultimately show "first_pidx s \<le> h" "h + z \<le> first_pidx s + num_pages s" by (auto simp: in_pool_def)
  qed
  have apart: "h' + z' \<le> h \<or> h + z \<le> h'" if "B h' = Some z'" for h' z'
  proof (rule ccontr)
    assume a: "\<not> ?thesis"
    then have "max h h' \<in> pages_of B" using in_pages_of [of B h' z' "max h h'"] that blocks_okD(1) [OF o(2) that] by auto
    moreover have "h \<le> max h h'" "max h h' < h + z" using a z by auto
    ultimately show False using new(1) by blast
  qed
  have b: "blocks_ok (s\<lparr>frames := mk_block h z (frames s)\<rparr>) (B(h \<mapsto> z))"
    unfolding blocks_ok_def
  proof (intro conjI allI impI)
    fix h' z' assume a: "(B(h \<mapsto> z)) h' = Some z'"
    show "0 < z'" "z' < MAX_BLOCK_SIZE" "first_pidx (s\<lparr>frames := mk_block h z (frames s)\<rparr>) \<le> h'"
      "h' + z' \<le> first_pidx (s\<lparr>frames := mk_block h z (frames s)\<rparr>) + num_pages (s\<lparr>frames := mk_block h z (frames s)\<rparr>)"
      using a z range blocks_okD [OF o(2), of h' z'] by (auto split: if_splits)
    show "priv_size (frames (s\<lparr>frames := mk_block h z (frames s)\<rparr>) h') = z'"
      using a z apart [of h' z'] blocks_okD [OF o(2), of h' z'] by (auto split: if_splits)
    show "priv_size (frames (s\<lparr>frames := mk_block h z (frames s)\<rparr>) (h' + z' - 1)) = z'"
      using a z apart [of h' z'] blocks_okD [OF o(2), of h' z'] by (auto split: if_splits)
  next
    fix h1 z1 h2 z2
    assume "(B(h \<mapsto> z)) h1 = Some z1" "(B(h \<mapsto> z)) h2 = Some z2" "h1 < h2"
    then show "h1 + z1 \<le> h2"
      using apart [of h1 z1] apart [of h2 z2] blocks_disjoint [OF o(2), of h1 z1 h2 z2] z
        blocks_okD(1) [OF o(2), of h1 z1] blocks_okD(1) [OF o(2), of h2 z2]
      by (auto split: if_splits)
  qed
  have m: "marks_ok (s\<lparr>frames := mk_block h z (frames s)\<rparr>) (B(h \<mapsto> z))"
    using o(3) hN by (auto simp: marks_ok_def) (metis option.distinct(1))+
  show ?thesis
    using o b m hN sub
    by (auto simp: frames_ok_def pool_ok_def pages_of_upd free_set_frames)
qed

lemma frames_okD:
  assumes "frames_ok s B C"
  shows "pool_ok s" "blocks_ok s B" "marks_ok s B" "free_set s = pages_of B \<union> C" "pages_of B \<inter> C = {}"
  using assms by (simp_all add: frames_ok_def)

lemma block_marks:
  assumes "frames_ok s B C" "B h = Some z"
  shows "priv_head (frames s h)" "priv_tail (frames s (h + z - 1))" "h + z \<le> num_phys_pages s" "h < num_phys_pages s"
proof -
  note b = blocks_okD [OF frames_okD(2) [OF assms(1)] assms(2)]
  have "in_pool s h" "in_pool s (h + z - 1)" using b by (auto simp: in_pool_def)
  then show "priv_head (frames s h)" "priv_tail (frames s (h + z - 1))"
    using frames_okD(3) [OF assms(1)] assms(2) b(1) by (auto simp: marks_ok_def)
  show "h + z \<le> num_phys_pages s" "h < num_phys_pages s"
    using b frames_okD(1) [OF assms(1)] by (auto simp: pool_ok_def)
qed

lemma frames_ok_destroy:
  assumes ok: "frames_ok s B C" and h: "B h = Some z"
  shows "pages_block_destroy h s = Some (s\<lparr>frames := rm_block h z (frames s)\<rparr>)"
    and "frames_ok (s\<lparr>frames := rm_block h z (frames s)\<rparr>) (B(h := None)) (C \<union> {h..<h + z})"
proof -
  note o = frames_okD [OF ok]
  note b = blocks_okD [OF o(2) h]
  show "pages_block_destroy h s = Some (s\<lparr>frames := rm_block h z (frames s)\<rparr>)"
    using pages_block_destroy_eq b block_marks [OF ok h] by simp
  have sub: "{h..<h + z} \<subseteq> pages_of B" using in_pages_of [of B h z] h by auto
  have apart: "h' + z' \<le> h \<or> h + z \<le> h'" if "B h' = Some z'" "h' \<noteq> h" for h' z'
    using blocks_disjoint [OF o(2) that(1) h that(2)] .
  have bl: "blocks_ok (s\<lparr>frames := rm_block h z (frames s)\<rparr>) (B(h := None))"
    unfolding blocks_ok_def
  proof (intro conjI allI impI)
    fix h' z' assume a: "(B(h := None)) h' = Some z'"
    then have a': "B h' = Some z'" "h' \<noteq> h" by (auto split: if_splits)
    show "0 < z'" "z' < MAX_BLOCK_SIZE" "first_pidx (s\<lparr>frames := rm_block h z (frames s)\<rparr>) \<le> h'"
      "h' + z' \<le> first_pidx (s\<lparr>frames := rm_block h z (frames s)\<rparr>) + num_pages (s\<lparr>frames := rm_block h z (frames s)\<rparr>)"
      "priv_size (frames (s\<lparr>frames := rm_block h z (frames s)\<rparr>) h') = z'"
      "priv_size (frames (s\<lparr>frames := rm_block h z (frames s)\<rparr>) (h' + z' - 1)) = z'"
      using apart [OF a'] blocks_okD [OF o(2) a'(1)] b(1) a'(2) by auto
  next
    fix h1 z1 h2 z2
    assume "(B(h := None)) h1 = Some z1" "(B(h := None)) h2 = Some z2" "h1 < h2"
    then show "h1 + z1 \<le> h2" using o(2) by (auto simp: blocks_ok_def split: if_splits)
  qed
  have tl: "h' + z' \<noteq> h + z" if "B h' = Some z'" "h' \<noteq> h" for h' z'
    using apart [OF that] blocks_okD(1) [OF o(2) that(1)] b(1) by auto
  have "marks_ok (s\<lparr>frames := rm_block h z (frames s)\<rparr>) (B(h := None))"
    unfolding marks_ok_def
  proof (intro conjI allI impI)
    fix i assume "in_pool (s\<lparr>frames := rm_block h z (frames s)\<rparr>) i"
    then have i: "priv_head (frames s i) = (B i \<noteq> None)" "priv_tail (frames s i) = (\<exists>h z. B h = Some z \<and> Suc i = h + z)"
      using o(3) by (simp_all add: marks_ok_def)
    show "priv_head (frames (s\<lparr>frames := rm_block h z (frames s)\<rparr>) i) = ((B(h := None)) i \<noteq> None)"
      using i(1) by simp
    have "(\<exists>h' z'. (B(h := None)) h' = Some z' \<and> Suc i = h' + z') =
        (\<exists>h' z'. h' \<noteq> h \<and> B h' = Some z' \<and> Suc i = h' + z')"
      by (metis fun_upd_apply option.distinct(1))
    moreover have "\<dots> = (Suc i \<noteq> h + z \<and> (\<exists>h' z'. B h' = Some z' \<and> Suc i = h' + z'))"
      using tl h by (metis option.inject)
    ultimately show "priv_tail (frames (s\<lparr>frames := rm_block h z (frames s)\<rparr>) i) =
        (\<exists>h' z'. (B(h := None)) h' = Some z' \<and> Suc i = h' + z')"
      using i(2) by simp
  qed
  then show "frames_ok (s\<lparr>frames := rm_block h z (frames s)\<rparr>) (B(h := None)) (C \<union> {h..<h + z})"
    using o bl sub pages_of_del [OF o(2) h]
    by (auto simp: frames_ok_def pool_ok_def free_set_frames)
qed

text \<open>A change of the flags of one frame.\<close>

definition same_marks :: "page_frame \<Rightarrow> page_frame \<Rightarrow> bool" where
  "same_marks p q \<longleftrightarrow> PF_MMPOOL_TYPE (pf_flags q) = PF_MMPOOL_TYPE (pf_flags p) \<and>
     priv_head q = priv_head p \<and> priv_tail q = priv_tail p \<and> priv_size q = priv_size p"

lemma frames_ok_flags:
  assumes ok: "frames_ok s B C" and m: "same_marks (frames s i) q" and ip: "in_pool s i" and nb: "i \<notin> pages_of B"
  shows "frames_ok (s\<lparr>frames := (frames s)(i := q)\<rparr>) B (if free_frame q then insert i C else C - {i})"
proof -
  note o = frames_okD [OF ok]
  have "blocks_ok (s\<lparr>frames := (frames s)(i := q)\<rparr>) B"
    using o(2) m by (auto simp: blocks_ok_def same_marks_def)
  moreover have "marks_ok (s\<lparr>frames := (frames s)(i := q)\<rparr>) B"
    using o(3) m by (auto simp: marks_ok_def same_marks_def)
  moreover have "pool_ok (s\<lparr>frames := (frames s)(i := q)\<rparr>)"
    using o(1) m by (auto simp: pool_ok_def same_marks_def)
  moreover have "free_set (s\<lparr>frames := (frames s)(i := q)\<rparr>) =
      (if free_frame q then insert i (free_set s) else free_set s - {i})"
    using ip by (auto simp: free_set_def)
  ultimately show ?thesis using o(4,5) nb by (auto simp: frames_ok_def)
qed

lemma take_loop_ok:
  assumes "frames_ok s B C" "{i..<i + n} \<subseteq> C"
  shows "\<exists>fr. take_loop i n s = Some (s\<lparr>frames := fr\<rparr>) \<and>
    frames_ok (s\<lparr>frames := fr\<rparr>) B (C - {i..<i + n}) \<and>
    (\<forall>j. fr j = (if j \<in> {i..<i + n} then PF_MARK_BUSY (frames s j) else frames s j))"
  using assms
proof (induction n arbitrary: i s C)
  case 0
  then show ?case by (auto intro!: exI [of _ "frames s"])
next
  case (Suc n)
  have iC: "i \<in> C" using Suc.prems(2) by auto
  note o = frames_okD [OF Suc.prems(1)]
  have i: "in_pool s i" "free_frame (frames s i)" "i \<notin> pages_of B" "i < num_phys_pages s"
    using iC o by (auto simp: free_set_def pool_ok_def in_pool_def)
  let ?s = "s\<lparr>frames := (frames s)(i := PF_MARK_BUSY (frames s i))\<rparr>"
  have one: "take_one i s = Some ?s"
    using i by (simp add: take_one_def pframe_def upd_pframe_def free_frame_def)
  have "same_marks (frames s i) (PF_MARK_BUSY (frames s i))" by (simp add: same_marks_def)
  then have ok: "frames_ok ?s B (C - {i})"
    using frames_ok_flags [OF Suc.prems(1) _ i(1,3), of "PF_MARK_BUSY (frames s i)"] by (simp add: free_frame_def)
  have sub: "{Suc i..<Suc i + n} \<subseteq> C - {i}" using Suc.prems(2) by auto
  obtain fr where fr: "take_loop (Suc i) n ?s = Some (?s\<lparr>frames := fr\<rparr>)"
    "frames_ok (?s\<lparr>frames := fr\<rparr>) B (C - {i} - {Suc i..<Suc i + n})"
    "\<forall>j. fr j = (if j \<in> {Suc i..<Suc i + n} then PF_MARK_BUSY (frames ?s j) else frames ?s j)"
    using Suc.IH [OF ok sub] by (elim exE conjE)
  have e: "C - {i} - {Suc i..<Suc i + n} = C - {i..<i + Suc n}" by auto
  have "\<forall>j. fr j = (if j \<in> {i..<i + Suc n} then PF_MARK_BUSY (frames s j) else frames s j)"
    by (subst fr(3) [rule_format]) auto
  moreover have "take_loop i (Suc n) s = Some (s\<lparr>frames := fr\<rparr>)" using one fr(1) by simp
  moreover have "frames_ok (s\<lparr>frames := fr\<rparr>) B (C - {i..<i + Suc n})" using fr(2) e by simp
  ultimately show ?case by blast
qed

lemma free_loop_ok:
  assumes "frames_ok s B C"
    and "\<And>j. j \<in> {i..<i + n} \<Longrightarrow> in_pool s j \<and> PF_IS_BUSY (frames s j) \<and> \<not> pf_reserved (frames s j) \<and> \<not> pf_locked (frames s j)"
  shows "\<exists>fr. free_loop i n s = Some (s\<lparr>frames := fr\<rparr>) \<and>
    frames_ok (s\<lparr>frames := fr\<rparr>) B (C \<union> {i..<i + n}) \<and> (\<forall>j. j \<notin> {i..<i + n} \<longrightarrow> fr j = frames s j)"
  using assms
proof (induction n arbitrary: i s C)
  case 0
  then show ?case by (auto intro!: exI [of _ "frames s"])
next
  case (Suc n)
  note o = frames_okD [OF Suc.prems(1)]
  have i: "in_pool s i" "PF_IS_BUSY (frames s i)" "\<not> pf_reserved (frames s i)" "\<not> pf_locked (frames s i)"
    using Suc.prems(2) [of i] by auto
  have i2: "i \<notin> pages_of B" "i < num_phys_pages s" "PF_MMPOOL_TYPE (pf_flags (frames s i)) = pool_type s"
    using i o by (auto simp: free_set_def free_frame_def pool_ok_def in_pool_def)
  obtain q where q: "clear_page_frame (PF_MARK_FREE (frames s i)) = Some q" "free_frame q" "same_marks (frames s i) q"
    using clear_page_frame_ok [of "PF_MARK_FREE (frames s i)"] i by (auto simp: free_frame_def same_marks_def)
  let ?s = "s\<lparr>frames := (frames s)(i := q)\<rparr>"
  have one: "free_one i s = Some ?s"
    using i i2 q by (simp add: free_one_def pframe_def upd_pframe_def)
  have ok: "frames_ok ?s B (insert i C)"
    using frames_ok_flags [OF Suc.prems(1) q(3) i(1) i2(1)] q(2) by simp
  have b: "in_pool ?s j \<and> PF_IS_BUSY (frames ?s j) \<and> \<not> pf_reserved (frames ?s j) \<and> \<not> pf_locked (frames ?s j)"
    if "j \<in> {Suc i..<Suc i + n}" for j
    using Suc.prems(2) [of j] that by auto
  obtain fr where fr: "free_loop (Suc i) n ?s = Some (?s\<lparr>frames := fr\<rparr>)"
    "frames_ok (?s\<lparr>frames := fr\<rparr>) B (insert i C \<union> {Suc i..<Suc i + n})"
    "\<forall>j. j \<notin> {Suc i..<Suc i + n} \<longrightarrow> fr j = frames ?s j"
  proof -
    have "\<exists>fr. free_loop (Suc i) n ?s = Some (?s\<lparr>frames := fr\<rparr>) \<and>
      frames_ok (?s\<lparr>frames := fr\<rparr>) B (insert i C \<union> {Suc i..<Suc i + n}) \<and>
      (\<forall>j. j \<notin> {Suc i..<Suc i + n} \<longrightarrow> fr j = frames ?s j)"
      by (rule Suc.IH [OF ok]) (rule b)
    then show thesis using that by (elim exE conjE)
  qed
  have e: "insert i C \<union> {Suc i..<Suc i + n} = C \<union> {i..<i + Suc n}" by auto
  have "fr j = frames s j" if "j \<notin> {i..<i + Suc n}" for j
    using fr(3) [rule_format, of j] that by auto
  then show ?case using one fr(1) fr(2) [unfolded e] by (intro exI [of _ fr]) simp
qed

section \<open>The index layer\<close>

definition class_of :: "(nat \<Rightarrow> nat option) \<Rightarrow> nat \<times> nat \<Rightarrow> nat set" where
  "class_of B ix = {h. \<exists>z. B h = Some z \<and> get_tlsf_ids z = Some ix}"

definition node_ok :: "tlsf_node \<Rightarrow> (nat \<Rightarrow> nat option) \<Rightarrow> nat \<times> nat \<Rightarrow> bool" where
  "node_ok n B ix \<longleftrightarrow> set (blocks n) = class_of B ix \<and> distinct (blocks n) \<and> num_blocks n = int (length (blocks n)) \<and>
     max_avail_size n = (if blocks n = [] then 0 else the (B (last (blocks n))))"

definition used_slds :: "tlsf \<Rightarrow> nat \<Rightarrow> nat set" where
  "used_slds s f = {sl. sl < TLSF_SLD_SIZE \<and> blocks (node_map s (f, sl)) \<noteq> []}"

definition index_ok :: "tlsf \<Rightarrow> (nat \<Rightarrow> nat option) \<Rightarrow> bool" where
  "index_ok s B \<longleftrightarrow>
     (\<forall>f sl. f < TLSF_FLD_SIZE \<longrightarrow> sl < TLSF_SLD_SIZE \<longrightarrow> node_ok (node_map s (f, sl)) B (f, sl)) \<and>
     (\<forall>f sl. f < TLSF_FLD_SIZE \<longrightarrow> bit (sld_bitmap s f) sl = (sl \<in> used_slds s f)) \<and>
     (\<forall>f. f < TLSF_FLD_SIZE \<longrightarrow> total_blocks s f = int (card (used_slds s f)) \<and>
        bit (fld_bitmap s) f = (used_slds s f \<noteq> {}))"

text \<open>The part of the state the directory operations leave alone.\<close>

definition same_base :: "tlsf \<Rightarrow> tlsf \<Rightarrow> bool" where
  "same_base s t \<longleftrightarrow> num_phys_pages t = num_phys_pages s \<and> frames t = frames s \<and> pool_type t = pool_type s \<and>
     first_pidx t = first_pidx s \<and> num_pages t = num_pages s \<and> num_free_pages t = num_free_pages s \<and> percpu t = percpu s"

lemma same_baseD:
  assumes "same_base s t"
  shows "num_phys_pages t = num_phys_pages s" "frames t = frames s" "pool_type t = pool_type s"
    "first_pidx t = first_pidx s" "num_pages t = num_pages s" "num_free_pages t = num_free_pages s" "percpu t = percpu s"
  using assms by (simp_all add: same_base_def)

lemma frames_ok_base:
  assumes "same_base s t"
  shows "frames_ok t B C = frames_ok s B C"
  by (simp add: frames_ok_def pool_ok_def blocks_ok_def marks_ok_def free_set_def in_pool_def same_baseD [OF assms])

lemma used_slds_finite [simp]: "finite (used_slds s f)"
  by (simp add: used_slds_def)

lemma class_of_upd:
  assumes "B h = None" "get_tlsf_ids z = Some ix"
  shows "class_of (B(h \<mapsto> z)) ix' = (if ix' = ix then insert h (class_of B ix') else class_of B ix')"
  using assms by (auto simp: class_of_def)

lemma class_of_del:
  assumes "B h = Some z" "get_tlsf_ids z = Some ix"
  shows "class_of (B(h := None)) ix' = (if ix' = ix then class_of B ix' - {h} else class_of B ix')"
  using assms by (auto simp: class_of_def)

lemma node_ok_other:
  assumes "node_ok n B ix" "class_of B' ix = class_of B ix" "\<And>h. h \<in> class_of B ix \<Longrightarrow> B' h = B h"
  shows "node_ok n B' ix"
proof -
  have "last (blocks n) \<in> class_of B ix" if "blocks n \<noteq> []"
    using that assms(1) last_in_set [of "blocks n"] by (simp add: node_ok_def)
  then show ?thesis using assms by (auto simp: node_ok_def)
qed

lemma index_okD:
  assumes "index_ok s B" "f < TLSF_FLD_SIZE"
  shows "sl < TLSF_SLD_SIZE \<Longrightarrow> node_ok (node_map s (f, sl)) B (f, sl)"
    and "bit (sld_bitmap s f) sl = (sl \<in> used_slds s f)"
    and "total_blocks s f = int (card (used_slds s f))"
    and "bit (fld_bitmap s) f = (used_slds s f \<noteq> {})"
  using assms by (simp_all add: index_ok_def)

text \<open>
  An update of one directory entry: the node of the class \<open>(f, sl)\<close> becomes \<open>n\<close>, the bit and the
  counter of the entry follow from whether \<open>n\<close> has blocks, every other entry stays.
\<close>

definition entry_upd :: "tlsf \<Rightarrow> tlsf \<Rightarrow> nat \<Rightarrow> nat \<Rightarrow> tlsf_node \<Rightarrow> bool" where
  "entry_upd s t f sl n \<longleftrightarrow> node_map t = (node_map s)((f, sl) := n) \<and>
     (\<forall>f' sl'. f' < TLSF_FLD_SIZE \<longrightarrow> bit (sld_bitmap t f') sl' =
        (if f' = f \<and> sl' = sl then blocks n \<noteq> [] else bit (sld_bitmap s f') sl')) \<and>
     (\<forall>f'. f' \<noteq> f \<longrightarrow> total_blocks t f' = total_blocks s f' \<and> bit (fld_bitmap t) f' = bit (fld_bitmap s) f') \<and>
     total_blocks t f = total_blocks s f + of_bool (blocks n \<noteq> []) - of_bool (blocks (node_map s (f, sl)) \<noteq> []) \<and>
     bit (fld_bitmap t) f = (total_blocks t f \<noteq> 0)"

lemma used_slds_upd:
  assumes "entry_upd s t f sl n" "sl < TLSF_SLD_SIZE"
  shows "used_slds t f' = (if f' = f then if blocks n \<noteq> [] then insert sl (used_slds s f) else used_slds s f - {sl}
                           else used_slds s f')"
  using assms by (auto simp: used_slds_def entry_upd_def)

lemma index_ok_upd:
  assumes ok: "index_ok s B" and u: "entry_upd s t f sl n" and f: "f < TLSF_FLD_SIZE" "sl < TLSF_SLD_SIZE"
    and n: "node_ok n B' (f, sl)"
    and oth: "\<And>ix. ix \<noteq> (f, sl) \<Longrightarrow> class_of B' ix = class_of B ix \<and> (\<forall>h \<in> class_of B ix. B' h = B h)"
  shows "index_ok t B'"
proof -
  note us = used_slds_upd [OF u f(2)]
  have nodes: "node_ok (node_map t (f', sl')) B' (f', sl')" if "f' < TLSF_FLD_SIZE" "sl' < TLSF_SLD_SIZE" for f' sl'
  proof (cases "(f', sl') = (f, sl)")
    case True
    then show ?thesis using n u by (simp add: entry_upd_def)
  next
    case False
    have "node_ok (node_map s (f', sl')) B' (f', sl')"
      using node_ok_other [OF index_okD(1) [OF ok that]] oth [OF False] by blast
    then show ?thesis using u False by (auto simp: entry_upd_def)
  qed
  have bits: "bit (sld_bitmap t f') sl' = (sl' \<in> used_slds t f')" if "f' < TLSF_FLD_SIZE" for f' sl'
    using index_okD(2) [OF ok that, of sl'] u that by (auto simp: entry_upd_def us)
  have in_sl: "sl \<in> used_slds s f \<longleftrightarrow> blocks (node_map s (f, sl)) \<noteq> []" using f(2) by (simp add: used_slds_def)
  have tot: "total_blocks t f = int (card (used_slds t f))"
  proof -
    have "total_blocks t f = int (card (used_slds s f)) + of_bool (blocks n \<noteq> []) - of_bool (sl \<in> used_slds s f)"
      using u index_okD(3) [OF ok f(1)] in_sl by (simp add: entry_upd_def)
    moreover have "card (used_slds s f) = Suc (card (used_slds s f - {sl}))" if "sl \<in> used_slds s f"
      using card.remove [OF used_slds_finite that] .
    ultimately show ?thesis using us [of f] by (auto simp: insert_absorb)
  qed
  have "total_blocks t f' = int (card (used_slds t f')) \<and> bit (fld_bitmap t) f' = (used_slds t f' \<noteq> {})"
    if "f' < TLSF_FLD_SIZE" for f'
  proof (cases "f' = f")
    case True
    have "bit (fld_bitmap t) f = (total_blocks t f \<noteq> 0)" using u by (simp add: entry_upd_def)
    then show ?thesis using tot True by simp
  next
    case False
    then show ?thesis using index_okD(3,4) [OF ok that] u us [of f'] by (simp add: entry_upd_def)
  qed
  then show ?thesis using nodes bits by (simp add: index_ok_def)
qed

lemma same_base_refl [simp]: "same_base s s"
  by (simp add: same_base_def)

lemma set_node_simps [simp]:
  "same_base s (set_node ix n s)" "node_map (set_node ix n s) = (node_map s)(ix := n)"
  "total_blocks (set_node ix n s) = total_blocks s" "sld_bitmap (set_node ix n s) = sld_bitmap s"
  "fld_bitmap (set_node ix n s) = fld_bitmap s"
  by (simp_all add: same_base_def set_node_def sld_bitmap_def fun_eq_iff)

lemma sld_filled_simps:
  "same_base s (sld_filled f sl s)" "node_map (sld_filled f sl s) = node_map s"
  "total_blocks (sld_filled f sl s) = (total_blocks s)(f := total_blocks s f + 1)"
  "bit (sld_bitmap (sld_filled f sl s) f') sl' = (if f' = f then bit (set_bit sl (sld_bitmap s f)) sl' else bit (sld_bitmap s f') sl')"
  "fld_bitmap (sld_filled f sl s) = (if total_blocks s f = 0 then set_bit f (fld_bitmap s) else fld_bitmap s)"
  by (simp_all add: sld_filled_def Let_def fld_mark_avail_def sld_mark_avail_def same_base_def sld_bitmap_def TLSF_SLD_SIZE_def)

lemma sld_emptied_simps:
  "same_base s (sld_emptied f sl s)" "node_map (sld_emptied f sl s) = node_map s"
  "total_blocks (sld_emptied f sl s) = (total_blocks s)(f := total_blocks s f - 1)"
  "bit (sld_bitmap (sld_emptied f sl s) f') sl' = (if f' = f then bit (unset_bit sl (sld_bitmap s f)) sl' else bit (sld_bitmap s f') sl')"
  "fld_bitmap (sld_emptied f sl s) = (if total_blocks s f = 1 then unset_bit f (fld_bitmap s) else fld_bitmap s)"
  by (simp_all add: sld_emptied_def Let_def fld_mark_unavail_def sld_mark_unavail_def same_base_def sld_bitmap_def TLSF_SLD_SIZE_def)

lemma same_base_trans: "same_base s t \<Longrightarrow> same_base t u \<Longrightarrow> same_base s u"
  by (simp add: same_base_def)

lemma bit_set_small: "b < 8 \<Longrightarrow> bit (set_bit a (w :: 8 word)) b = (b = a \<or> bit w b)"
  by (auto simp: bit_set_bit_iff)

lemma entry_upd_same:
  assumes ok: "index_ok s B" and f: "f < TLSF_FLD_SIZE" "sl < TLSF_SLD_SIZE"
    and b: "(blocks n = []) = (blocks (node_map s (f, sl)) = [])"
  shows "entry_upd s (set_node (f, sl) n s) f sl n"
  using index_okD(2) [OF ok f(1), of sl] index_okD(3,4) [OF ok f(1)] f(2) b
  by (simp add: entry_upd_def used_slds_def)

lemma entry_upd_filled:
  assumes ok: "index_ok s B" and f: "f < TLSF_FLD_SIZE" "sl < TLSF_SLD_SIZE"
    and b: "blocks n \<noteq> []" "blocks (node_map s (f, sl)) = []"
  shows "entry_upd s (sld_filled f sl (set_node (f, sl) n s)) f sl n"
proof -
  have "sl < 8" "f < 8" using f by (simp_all add: TLSF_SLD_SIZE_def TLSF_FLD_SIZE_def)
  then show ?thesis
    using index_okD(3,4) [OF ok f(1)] b
    by (auto simp: entry_upd_def sld_filled_simps bit_set_bit_iff)
qed

lemma entry_upd_emptied:
  assumes ok: "index_ok s B" and f: "f < TLSF_FLD_SIZE" "sl < TLSF_SLD_SIZE"
    and b: "blocks n = []" "blocks (node_map s (f, sl)) \<noteq> []"
  shows "entry_upd s (sld_emptied f sl (set_node (f, sl) n s)) f sl n"
proof -
  have "used_slds s f \<noteq> {}" using f(2) b(2) by (auto simp: used_slds_def)
  then have "0 < total_blocks s f" using index_okD(3) [OF ok f(1)] by (simp add: card_gt_0_iff)
  then show ?thesis
    using index_okD(3,4) [OF ok f(1)] b
    by (auto simp: entry_upd_def sld_emptied_simps bit_unset_bit_iff)
qed

lemma index_ok_insert:
  assumes ok: "index_ok s B" and h: "B h = None" "h < num_phys_pages s" "priv_size (frames s h) = z"
    and z: "0 < z" "z < MAX_BLOCK_SIZE"
  shows "\<exists>t. pages_block_insert h s = Some t \<and> same_base s t \<and> index_ok t (B(h \<mapsto> z))"
proof -
  obtain f sl where ids: "get_tlsf_ids z = Some (f, sl)" "f < TLSF_FLD_SIZE" "sl < TLSF_SLD_SIZE"
    using ids_range [OF z] .
  define n m k where "n = node_map s (f, sl)" and "m = node_add h z n" and "k = m\<lparr>num_blocks := num_blocks m + 1\<rparr>"
  have n: "node_ok n B (f, sl)" using index_okD(1) [OF ok ids(2,3)] by (simp add: n_def)
  have hn: "h \<notin> set (blocks n)" using n h(1) by (auto simp: node_ok_def class_of_def)
  have l: "(B(h \<mapsto> z)) (last (blocks n)) = B (last (blocks n))" if "blocks n \<noteq> []"
    using that hn last_in_set [OF that] by auto
  have cl: "class_of (B(h \<mapsto> z)) (f, sl) = insert h (class_of B (f, sl))"
    using class_of_upd [of B h z "(f, sl)"] h(1) ids(1) by simp
  have k: "node_ok k (B(h \<mapsto> z)) (f, sl)"
  proof (cases "z > max_avail_size n")
    case True
    then show ?thesis using n hn cl by (simp add: node_ok_def k_def m_def node_add_def)
  next
    case False
    then have "blocks n \<noteq> []" using n z by (auto simp: node_ok_def)
    then show ?thesis using n hn l cl False by (simp add: node_ok_def k_def m_def node_add_def)
  qed
  have oth: "class_of (B(h \<mapsto> z)) ix = class_of B ix \<and> (\<forall>h' \<in> class_of B ix. (B(h \<mapsto> z)) h' = B h')"
    if "ix \<noteq> (f, sl)" for ix
    using that class_of_upd [of B h z "(f, sl)" ix] h(1) ids(1) by (auto simp: class_of_def)
  define t where "t = (if num_blocks m = 0 then sld_filled f sl (set_node (f, sl) k s) else set_node (f, sl) k s)"
  have ins: "pages_block_insert h s = Some t"
    using h(2,3) ids by (simp add: pages_block_insert_def pframe_def t_def k_def m_def n_def Let_def)
  have base: "same_base s t"
    using same_base_trans [OF set_node_simps(1) sld_filled_simps(1)] by (simp add: t_def)
  have nb: "num_blocks m = 0 \<longleftrightarrow> blocks n = []" using n by (auto simp: node_ok_def m_def node_add_def)
  have kb: "blocks k \<noteq> []" by (simp add: k_def m_def node_add_def)
  have "entry_upd s t f sl k"
    using entry_upd_filled [OF ok ids(2,3), of k] entry_upd_same [OF ok ids(2,3), of k] nb kb
    by (auto simp: t_def n_def)
  then show ?thesis using index_ok_upd [OF ok _ ids(2,3) k oth] ins base by blast
qed

lemma index_ok_remove:
  assumes ok: "index_ok s B" and h: "B h = Some z"
    and fr: "\<And>h z. B h = Some z \<Longrightarrow> h < num_phys_pages s \<and> priv_size (frames s h) = z"
    and z: "0 < z" "z < MAX_BLOCK_SIZE"
  shows "\<exists>t. pages_block_remove h s = Some t \<and> same_base s t \<and> index_ok t (B(h := None))"
proof -
  obtain f sl where ids: "get_tlsf_ids z = Some (f, sl)" "f < TLSF_FLD_SIZE" "sl < TLSF_SLD_SIZE"
    using ids_range [OF z] .
  define n where "n = node_map s (f, sl)"
  define r where "r = remove1 h (blocks n)"
  define k where "k = n\<lparr>blocks := r, num_blocks := num_blocks n - 1,
    max_avail_size := (if r = [] then 0 else if max_avail_size n = z then priv_size (frames s (last r)) else max_avail_size n)\<rparr>"
  have n: "node_ok n B (f, sl)" using index_okD(1) [OF ok ids(2,3)] by (simp add: n_def)
  have hn: "h \<in> set (blocks n)" using n h ids(1) by (auto simp: node_ok_def class_of_def)
  have d: "distinct (blocks n)" using n by (simp add: node_ok_def)
  have cl: "class_of (B(h := None)) (f, sl) = class_of B (f, sl) - {h}"
    using class_of_del [of B h z "(f, sl)"] h ids(1) by simp
  have rs: "set r = class_of B (f, sl) - {h}" "distinct r" "length r = length (blocks n) - 1" "0 < length (blocks n)"
    using n d hn by (auto simp: r_def node_ok_def length_remove1 intro: length_pos_if_in_set)
  have len: "int (length (blocks n)) - 1 = int (length r)" using rs(3,4) by linarith
  have lr: "B (last r) = Some (priv_size (frames s (last r)))" "last r \<noteq> h" "last r < num_phys_pages s" if "r \<noteq> []"
    using last_in_set [OF that] rs(1) fr by (auto simp: class_of_def)
  have lastn: "last r = last (blocks n)" if "r \<noteq> []" "max_avail_size n \<noteq> z"
  proof -
    have "blocks n \<noteq> []" using hn by auto
    then have "last (blocks n) \<noteq> h" using n that(2) h by (auto simp: node_ok_def)
    moreover obtain xs ys where e: "blocks n = xs @ h # ys" "h \<notin> set xs" using split_list_first [OF hn] by blast
    ultimately show ?thesis by (auto simp: r_def remove1_append split: if_splits)
  qed
  have k: "node_ok k (B(h := None)) (f, sl)"
  proof -
    have "max_avail_size n = the (B (last (blocks n)))" using n rs(4) by (simp add: node_ok_def)
    then show ?thesis using n cl rs(1,2) lr lastn len by (cases "r = []") (auto simp: node_ok_def k_def)
  qed
  have oth: "class_of (B(h := None)) ix = class_of B ix \<and> (\<forall>h' \<in> class_of B ix. (B(h := None)) h' = B h')"
    if "ix \<noteq> (f, sl)" for ix
    using that class_of_del [of B h z "(f, sl)" ix] h ids(1) by (auto simp: class_of_def)
  define t where "t = (if r = [] then sld_emptied f sl (set_node (f, sl) k s) else set_node (f, sl) k s)"
  have nb: "num_blocks n - 1 = 0 \<longleftrightarrow> r = []" 
  proof -
    have "num_blocks n - 1 = int (length r)" using n len by (simp add: node_ok_def)
    then show ?thesis by simp
  qed
  have rem: "pages_block_remove h s = Some t"
    using fr [OF h] ids hn nb lr
    by (auto simp: pages_block_remove_def pframe_def t_def k_def n_def [symmetric] r_def [symmetric] Let_def)
  have base: "same_base s t"
    using same_base_trans [OF set_node_simps(1) sld_emptied_simps(1)] by (simp add: t_def)
  have "entry_upd s t f sl k"
  proof -
    have "blocks k = r" "blocks (node_map s (f, sl)) \<noteq> []" using hn by (auto simp: k_def n_def)
    then show ?thesis
      using entry_upd_emptied [OF ok ids(2,3), of k] entry_upd_same [OF ok ids(2,3), of k] by (simp add: t_def)
  qed
  then show ?thesis using index_ok_upd [OF ok _ ids(2,3) k oth] rem base by blast
qed

lemma bit_set_dirs [simp]:
  "push_bit (Suc n) 1 - 1 = (mask (Suc n) :: 64 word)"
  by (simp add: mask_eq_exp_minus_1 push_bit_eq_mult)

lemma find_next_lsf:
  fixes w :: "8 word" and n :: nat
  defines "r \<equiv> arch_bit_find_lsf (ucast w AND NOT (push_bit (n + 1) 1 - 1))"
  shows "r \<ge> 0 \<Longrightarrow> n < nat r \<and> bit w (nat r)" and "r < 0 \<Longrightarrow> n < m \<Longrightarrow> \<not> bit w m"
proof -
  let ?v = "ucast w AND NOT (mask (Suc n)) :: 64 word"
  have b: "bit ?v k \<longleftrightarrow> k < 64 \<and> n < k \<and> bit w k" for k
    by (auto simp: bit_and_iff bit_not_iff bit_ucast_iff bit_mask_iff not_less less_Suc_eq_le dest: bit_imp_le_length)
  have r: "r = (case bsf ?v of None \<Rightarrow> - 1 | Some k \<Rightarrow> int k)"
    unfolding r_def arch_bit_find_lsf_def by (simp only: Suc_eq_plus1 [symmetric] bit_set_dirs)
  show "n < nat r \<and> bit w (nat r)" if "r \<ge> 0"
    using that r b bsf_Some [of ?v "nat r"] by (auto split: option.splits)
  show "\<not> bit w m" if "r < 0" "n < m"
  proof -
    have "?v = 0" using that(1) r bsf_None [of ?v] by (auto split: option.splits)
    then have "\<not> bit ?v m" by simp
    then show ?thesis using b [of m] that(2) bit_imp_le_length [of w m] by auto
  qed
qed

lemma find_lsf_byte:
  fixes w :: "8 word"
  assumes "w \<noteq> 0"
  shows "arch_bit_find_lsf (ucast w) \<ge> 0 \<and> bit w (nat (arch_bit_find_lsf (ucast w)))"
proof -
  have "(ucast w :: 64 word) \<noteq> 0"
  proof
    assume e: "(ucast w :: 64 word) = 0"
    have "bit w k = False" for k
      using arg_cong [OF e, of "\<lambda>v. bit v k"] bit_imp_le_length [of w k] by (auto simp: bit_ucast_iff)
    then show False using assms by (simp add: bit_eq_iff)
  qed
  then obtain k where "bsf (ucast w :: 64 word) = Some k" using bsf_None by (cases "bsf (ucast w :: 64 word)") auto
  then show ?thesis using bsf_Some [of "ucast w" k] by (simp add: arch_bit_find_lsf_def bit_ucast_iff)
qed

text \<open>
  What the search for a block returns. The order of the directory entries is that of the classes;
  \<open>bigger s n\<close> holds when a block of a strictly higher class than that of \<open>n\<close> is free.
\<close>

definition higher :: "nat \<Rightarrow> nat \<Rightarrow> bool" where
  "higher n z \<longleftrightarrow> (case (get_tlsf_ids n, get_tlsf_ids z) of
     (Some (f, sl), Some (f', sl')) \<Rightarrow> f < f' \<or> f = f' \<and> sl < sl' | _ \<Rightarrow> False)"

lemma higher_less:
  assumes "higher n z" "0 < z" "n < MAX_BLOCK_SIZE"
  shows "n < z"
proof (rule ccontr)
  assume "\<not> n < z"
  then have "z \<le> n" by simp
  moreover obtain f sl f' sl' where "get_tlsf_ids n = Some (f, sl)" "get_tlsf_ids z = Some (f', sl')"
    "f < f' \<or> f = f' \<and> sl < sl'"
    using assms(1) by (auto simp: higher_def split: option.splits)
  ultimately show False using ids_mono [of z n f' sl' f sl] assms by auto
qed

lemma index_first:
  assumes "index_ok s B" "f < TLSF_FLD_SIZE" "sl \<in> used_slds s f"
  obtains h z where "list_node_first (blocks (node_map s (f, sl))) = Some h" "B h = Some z" "get_tlsf_ids z = Some (f, sl)"
proof -
  have sl: "sl < TLSF_SLD_SIZE" "blocks (node_map s (f, sl)) \<noteq> []" using assms(3) by (auto simp: used_slds_def)
  obtain h r where e: "blocks (node_map s (f, sl)) = h # r" using sl(2) by (cases "blocks (node_map s (f, sl))") auto
  then have "h \<in> class_of B (f, sl)" using index_okD(1) [OF assms(1,2) sl(1)] by (simp add: node_ok_def) (metis insertI1)
  then show thesis using that e by (auto simp: list_node_first_def class_of_def)
qed

lemma find_next_block_ok:
  assumes ok: "index_ok s B" and f: "f < TLSF_FLD_SIZE"
  shows "\<exists>r. find_next_block s f = Some r \<and>
    (case r of Some h \<Rightarrow> \<exists>z f' sl'. B h = Some z \<and> get_tlsf_ids z = Some (f', sl') \<and> f < f'
             | None \<Rightarrow> \<forall>f'. f < f' \<longrightarrow> f' < TLSF_FLD_SIZE \<longrightarrow> used_slds s f' = {})"
proof (cases "find_next_fldi s f < 0")
  case True
  then have "\<not> bit (fld_bitmap s) f'" if "f < f'" for f'
    using find_next_lsf(2) [where w = "fld_bitmap s" and n = f and m = f'] that by (simp add: find_next_fldi_def)
  then have "used_slds s f' = {}" if "f < f'" "f' < TLSF_FLD_SIZE" for f'
    using index_okD(4) [OF ok that(2)] that(1) by simp
  then show ?thesis using True by (simp add: find_next_block_def)
next
  case False
  define f' where "f' = nat (find_next_fldi s f)"
  have b: "f < f'" "bit (fld_bitmap s) f'"
    using find_next_lsf(1) [where w = "fld_bitmap s" and n = f] False by (simp_all add: find_next_fldi_def f'_def)
  have f': "f' < TLSF_FLD_SIZE" using bit_imp_le_length [OF b(2)] by (simp add: TLSF_FLD_SIZE_def)
  obtain sl0 where "sl0 \<in> used_slds s f'" using index_okD(4) [OF ok f'] b(2) by auto
  then have "bit (sld_bitmap s f') sl0" using index_okD(2) [OF ok f', of sl0] by simp
  then have nz: "sld_bitmap s f' \<noteq> 0" by auto
  define sl where "sl = arch_bit_find_lsf (ucast (sld_bitmap s f'))"
  have sl: "0 \<le> sl" "nat sl \<in> used_slds s f'"
    using find_lsf_byte [OF nz] index_okD(2) [OF ok f'] by (simp_all add: sl_def)
  obtain h z where h: "list_node_first (blocks (node_map s (f', nat sl))) = Some h" "B h = Some z"
    "get_tlsf_ids z = Some (f', nat sl)"
    using index_first [OF ok f' sl(2)] .
  have "find_next_block s f = Some (Some h)"
    using False f' sl h(1) by (simp add: find_next_block_def f'_def [symmetric] sl_def [symmetric] used_slds_def)
  then show ?thesis using h(2,3) b(1) by auto
qed

lemma find_suitable_block_ok:
  assumes ok: "index_ok s B" and n: "0 < n" "n < MAX_BLOCK_SIZE"
    and B: "\<And>h z. B h = Some z \<Longrightarrow> 0 < z \<and> z < MAX_BLOCK_SIZE"
  shows "\<exists>r. find_suitable_block s n = Some r \<and>
    (case r of Some h \<Rightarrow> \<exists>z. B h = Some z \<and> n \<le> z | None \<Rightarrow> \<forall>h z. B h = Some z \<longrightarrow> \<not> higher n z)"
proof -
  obtain f sl where ids: "get_tlsf_ids n = Some (f, sl)" "f < TLSF_FLD_SIZE" "sl < TLSF_SLD_SIZE"
    using ids_range [OF n] .
  have used: "sl' \<in> used_slds s f'" if bz: "B h = Some z" "get_tlsf_ids z = Some (f', sl')" for h z f' sl'
  proof -
    obtain f2 sl2 where i: "get_tlsf_ids z = Some (f2, sl2)" "f2 < TLSF_FLD_SIZE" "sl2 < TLSF_SLD_SIZE"
      using ids_range [of z] B [OF bz(1)] by blast
    have "h \<in> set (blocks (node_map s (f2, sl2)))"
      using index_okD(1) [OF ok i(2,3)] bz(1) i(1) by (auto simp: node_ok_def class_of_def)
    then show ?thesis using i bz(2) by (auto simp: used_slds_def)
  qed
  have up: "n \<le> z" if "B h = Some z" "get_tlsf_ids z = Some (f', sl')" "f < f' \<or> f = f' \<and> sl < sl'" for h z f' sl'
    using higher_less [of n z] that ids(1) n(2) B [OF that(1)] by (auto simp: higher_def)
  have next_ok: "\<exists>r. find_next_block s f = Some r \<and>
     (case r of Some h \<Rightarrow> \<exists>z. B h = Some z \<and> n \<le> z | None \<Rightarrow> \<forall>h z. B h = Some z \<longrightarrow> \<not> higher n z)"
    if none: "\<And>sl'. sl < sl' \<Longrightarrow> sl' \<notin> used_slds s f"
  proof -
    obtain r where r: "find_next_block s f = Some r"
      "case r of Some h \<Rightarrow> \<exists>z f' sl'. B h = Some z \<and> get_tlsf_ids z = Some (f', sl') \<and> f < f'
               | None \<Rightarrow> \<forall>f'. f < f' \<longrightarrow> f' < TLSF_FLD_SIZE \<longrightarrow> used_slds s f' = {}"
      using find_next_block_ok [OF ok ids(2)] by (elim exE conjE)
    show ?thesis
    proof (cases r)
      case None
      have "\<not> higher n z" if bz: "B h = Some z" for h z
      proof
        assume "higher n z"
        then obtain f' sl' where c: "get_tlsf_ids z = Some (f', sl')" "f < f' \<or> f = f' \<and> sl < sl'"
          using ids(1) by (auto simp: higher_def split: option.splits)
        have "f' < TLSF_FLD_SIZE" using ids_range [of z] B [OF bz] c(1) by (metis option.inject prod.inject)
        then show False using used [OF bz c(1)] c(2) none r(2) None by auto
      qed
      then show ?thesis using r(1) None by auto
    next
      case (Some h)
      then show ?thesis using r up by fastforce
    qed
  qed
  note find = find_suitable_block_def ids Let_def
  show ?thesis
  proof (cases "fld_is_avail s f")
    case False
    then have "used_slds s f = {}" using index_okD(4) [OF ok ids(2)] by (simp add: fld_is_avail_def)
    then show ?thesis using next_ok False by (simp add: find)
  next
    case True
    let ?n = "node_map s (f, sl)"
    show ?thesis
    proof (cases "sld_is_avail s f sl \<and> max_avail_size ?n \<ge> n")
      case here: True
      have ne: "blocks ?n \<noteq> []"
        using index_okD(2) [OF ok ids(2), of sl] here by (simp add: sld_is_avail_def used_slds_def)
      have node: "node_ok ?n B (f, sl)" using index_okD(1) [OF ok ids(2,3)] .
      show ?thesis
      proof (cases "n = push_bit (fldi2power f) 1")
        case eq: True
        then have eq': "n = 2 ^ fldi2power f" by simp
        have "sl \<in> used_slds s f" using ne ids(3) by (simp add: used_slds_def)
        then obtain h z where h: "list_node_first (blocks ?n) = Some h" "B h = Some z" "get_tlsf_ids z = Some (f, sl)"
          using index_first [OF ok ids(2)] by blast
        then have "n \<le> z" using ids_lower [of z f sl] B [OF h(2)] eq by simp
        moreover have "find_suitable_block s n = Some (Some h)"
          unfolding find_suitable_block_def ids(1) Let_def
          using h(1) True here ids(2,3) by (simp add: eq' [symmetric])
        ultimately show ?thesis using h(2) by auto
      next
        case neq: False
        have "last (blocks ?n) \<in> class_of B (f, sl)" using node last_in_set [OF ne] by (simp add: node_ok_def)
        then obtain z where z: "B (last (blocks ?n)) = Some z" by (auto simp: class_of_def)
        then have "n \<le> z" using here node ne by (simp add: node_ok_def)
        then show ?thesis using z ne True here neq by (simp add: find list_node_last_def)
      qed
    next
      case there: False
      let ?r = "find_next_sldi s f sl"
      note lsf = find_next_lsf [where w = "sld_bitmap s f" and n = sl, folded find_next_sldi_def]
      show ?thesis
      proof (cases "?r > 0")
        case pos: True
        then have u: "sl < nat ?r" "nat ?r \<in> used_slds s f" using lsf(1) index_okD(2) [OF ok ids(2)] by auto
        obtain h z where h: "list_node_first (blocks (node_map s (f, nat ?r))) = Some h" "B h = Some z"
          "get_tlsf_ids z = Some (f, nat ?r)"
          using index_first [OF ok ids(2) u(2)] .
        moreover have "nat ?r < TLSF_SLD_SIZE" using u(2) by (simp add: used_slds_def)
        moreover have "n \<le> z" using up [OF h(2,3)] u(1) by simp
        ultimately show ?thesis using True there pos by (auto simp: find)
      next
        case npos: False
        have "?r < 0"
        proof (rule ccontr)
          assume "\<not> ?r < 0"
          then have "sl < nat ?r" using lsf(1) by auto
          then show False using npos by simp
        qed
        then have "sl' \<notin> used_slds s f" if "sl < sl'" for sl'
          using lsf(2) [of sl'] that index_okD(2) [OF ok ids(2), of sl'] by simp
        then show ?thesis using next_ok True there npos by (auto simp: find)
      qed
    qed
  qed
qed

end
