(* ===== verification/Tlsf_Runs.thy ===== *)
theory Tlsf_Runs
  imports Tlsf_Inv
begin

text \<open>
  What the allocator of \<open>Tlsf\<close> does to the pages of its pool: an allocation hands out consecutive
  free pages and nothing else, a release gives its pages back, neither faults, and both keep the
  invariant \<open>tlsf_inv\<close>; the state that \<^verbatim>\<open>tlsf_initialize\<close> builds satisfies it.
\<close>

section \<open>Neighbours and merging\<close>

definition same_pool :: "tlsf \<Rightarrow> tlsf \<Rightarrow> bool" where
  "same_pool s t \<longleftrightarrow> num_phys_pages t = num_phys_pages s \<and> pool_type t = pool_type s \<and>
     first_pidx t = first_pidx s \<and> num_pages t = num_pages s \<and> num_free_pages t = num_free_pages s"

lemma same_pool_refl [simp]: "same_pool s s" "same_pool s (s\<lparr>frames := fr\<rparr>)" "same_pool s (s\<lparr>percpu := pc\<rparr>)"
  by (simp_all add: same_pool_def)

lemma same_pool_trans: "same_pool s t \<Longrightarrow> same_pool t u \<Longrightarrow> same_pool s u"
  by (simp add: same_pool_def)

lemma same_base_pool: "same_base s t \<Longrightarrow> same_pool s t"
  by (simp add: same_base_def same_pool_def)

lemma index_ok_frames [simp]: "index_ok (s\<lparr>frames := fr\<rparr>) B = index_ok s B" "index_ok (s\<lparr>percpu := pc\<rparr>) B = index_ok s B"
  by (simp_all add: index_ok_def used_slds_def sld_bitmap_def)

lemma frames_ok_percpu [simp]: "frames_ok (s\<lparr>percpu := pc\<rparr>) B C = frames_ok s B C"
  by (simp add: frames_ok_def pool_ok_def blocks_ok_def marks_ok_def free_set_def in_pool_def)

lemma block_pages: "B h = Some z \<Longrightarrow> {h..<h + z} \<subseteq> pages_of B"
  by (rule subsetI, rule in_pages_of [of B h z]) auto

lemma block_disjoint_single:
  assumes "frames_ok s B C" "B h = Some z"
  shows "C \<inter> {h..<h + z} = {}"
  using frames_okD(5) [OF assms(1)] block_pages [of B h z, OF assms(2)] by blast

text \<open>The frames that do not belong to the pool stay as they are.\<close>

definition outside :: "tlsf \<Rightarrow> tlsf \<Rightarrow> bool" where
  "outside s t \<longleftrightarrow> (\<forall>i. \<not> in_pool s i \<longrightarrow> frames t i = frames s i)"

lemma outside_refl [simp]: "outside s s" "outside s (s\<lparr>percpu := pc\<rparr>)"
  by (simp_all add: outside_def)

lemma outside_trans: "outside s t \<Longrightarrow> outside t u \<Longrightarrow> same_pool s t \<Longrightarrow> outside s u"
  by (simp add: outside_def same_pool_def in_pool_def)

lemma outside_base: "same_base s t \<Longrightarrow> outside s t"
  by (simp add: outside_def same_base_def)

lemma outside_block:
  assumes "\<And>i. i \<in> {h..<h + z} \<Longrightarrow> in_pool s i" "0 < z"
  shows "outside s (s\<lparr>frames := mk_block h z (frames s)\<rparr>)" "outside s (s\<lparr>frames := rm_block h z (frames s)\<rparr>)"
proof -
  have o: "i \<noteq> h \<and> Suc i \<noteq> h + z" if "\<not> in_pool s i" for i
    using assms(1) [of i] assms(2) that by auto
  show "outside s (s\<lparr>frames := mk_block h z (frames s)\<rparr>)"
    using o by (simp add: outside_def mk_block_def)
  show "outside s (s\<lparr>frames := rm_block h z (frames s)\<rparr>)"
    using o by (simp add: outside_def rm_block_def)
qed

lemma block_in_pool: "frames_ok s B C \<Longrightarrow> B h = Some z \<Longrightarrow> i \<in> {h..<h + z} \<Longrightarrow> in_pool s i"
  using blocks_okD(3,4) [OF frames_okD(2)] by (fastforce simp: in_pool_def)

lemma left_neighbour_ok:
  assumes ok: "frames_ok s B C" and h: "in_pool s h" "first_pidx s < h"
  shows "\<exists>r. left_neighbour s h = Some r \<and> (\<forall>l. r = Some l \<longrightarrow> (\<exists>y. B l = Some y \<and> l + y = h))"
proof -
  note o = frames_okD [OF ok]
  have p: "in_pool s (h - 1)" "h - 1 < num_phys_pages s" "h < num_phys_pages s" "h \<noteq> 0"
    using h o(1) by (auto simp: in_pool_def pool_ok_def)
  show ?thesis
  proof (cases "priv_tail (frames s (h - 1)) \<and> \<not> pf_reserved (frames s (h - 1))")
    case False
    then show ?thesis using p by (auto simp: left_neighbour_def pframe_def)
  next
    case True
    then obtain l y where l: "B l = Some y" "Suc (h - 1) = l + y"
      using o(3) p(1) by (auto simp: marks_ok_def)
    have y: "priv_size (frames s (h - 1)) = y" "l + y = h"
      using blocks_okD(6) [OF o(2) l(1)] l(2) p(4) by auto
    have "PF_MMPOOL_TYPE (pf_flags (frames s (h - 1))) = PF_MMPOOL_TYPE (pf_flags (frames s h))"
      using o(1) p(1) h(1) by (simp add: pool_ok_def)
    moreover have "h - y = l" "\<not> y > h" "priv_head (frames s l)" "l < num_phys_pages s"
      using y(2) block_marks [OF ok l(1)] by auto
    ultimately have "left_neighbour s h = Some (Some l)"
      using True p y(1) by (simp add: left_neighbour_def pframe_def Let_def)
    then show ?thesis using l(1) y(2) by auto
  qed
qed

text \<open>Every frame up to the end of the pool has the pool's type, so there is never a right neighbour.\<close>

lemma right_neighbour_none:
  assumes ok: "frames_ok s B C" and h: "B h = Some z" "h + z < first_pidx s + num_pages s"
  shows "right_neighbour s h = Some None"
proof -
  note o = frames_okD [OF ok] and b = blocks_okD [OF frames_okD(2) [OF ok] h(1)]
  have "in_pool s h" "in_pool s (h + z)" "h < num_phys_pages s" "h + z < num_phys_pages s"
    using b h(2) o(1) by (auto simp: in_pool_def pool_ok_def)
  then show ?thesis using o(1) b(5) by (simp add: right_neighbour_def pframe_def pool_ok_def Let_def)
qed

lemma find_neighbour_ok:
  assumes ok: "frames_ok s B C" and h: "B h = Some z"
  shows "\<exists>r. find_neighbour s h side = Some r \<and> (\<forall>l. r = Some l \<longrightarrow> side < 0 \<and> (\<exists>y. B l = Some y \<and> l + y = h))"
proof -
  note b = blocks_okD [OF frames_okD(2) [OF ok] h]
  have p: "in_pool s h" "h < num_phys_pages s" using b block_marks [OF ok h] by (auto simp: in_pool_def)
  show ?thesis
  proof (cases "side < 0 \<and> h > first_pidx s")
    case True
    then show ?thesis using left_neighbour_ok [OF ok p(1)] p(2) by (auto simp: find_neighbour_def pframe_def)
  next
    case False
    then show ?thesis using right_neighbour_none [OF ok h] p(2) b(5) by (auto simp: find_neighbour_def pframe_def)
  qed
qed

lemma try_merge_blocks_ok:
  assumes ok: "frames_ok s B C" "index_ok s (B(h := None))" and h: "B h = Some z"
  shows "\<exists>h' t B' z'. try_merge_blocks h side s = Some (h', t) \<and> frames_ok t B' C \<and> index_ok t (B'(h' := None)) \<and>
    B' h' = Some z' \<and> pages_of B' = pages_of B \<and> same_pool s t \<and> percpu t = percpu s \<and>
    (\<forall>i. pf_flags (frames t i) = pf_flags (frames s i)) \<and> outside s t \<and> (\<not> side < 0 \<longrightarrow> t = s \<and> h' = h)"
proof -
  note b = blocks_okD [OF frames_okD(2) [OF ok(1)] h]
  note m = block_marks [OF ok(1) h]
  obtain r where r: "find_neighbour s h side = Some r" "\<forall>l. r = Some l \<longrightarrow> side < 0 \<and> (\<exists>y. B l = Some y \<and> l + y = h)"
    using find_neighbour_ok [OF ok(1) h, of side] by (elim exE conjE)
  show ?thesis
  proof (cases "\<exists>l y. r = Some l \<and> B l = Some y \<and> z + y < MAX_BLOCK_SIZE")
    case False
    have "try_merge_blocks h side s = Some (h, s)"
    proof (cases r)
      case None
      then show ?thesis using r(1) m(4) by (simp add: try_merge_blocks_def pframe_def)
    next
      case (Some l)
      then obtain y where l: "B l = Some y" "l + y = h" using r(2) by auto
      then have "\<not> z + y < MAX_BLOCK_SIZE" using False Some by auto
      then show ?thesis
        using r(1) Some m(4) b(5) block_marks(4) [OF ok(1) l(1)] blocks_okD(5) [OF frames_okD(2) [OF ok(1)] l(1)]
        by (simp add: try_merge_blocks_def pframe_def)
    qed
    then show ?thesis using ok h by (intro exI [of _ h] exI [of _ s] exI [of _ B] exI [of _ z]) simp
  next
    case True
    then obtain l y where l: "r = Some l" "B l = Some y" "z + y < MAX_BLOCK_SIZE" by blast
    then have e: "l + y = h" "side < 0" using r(2) by auto
    note bl = blocks_okD [OF frames_okD(2) [OF ok(1)] l(2)]
    note ml = block_marks [OF ok(1) l(2)]
    have lh: "l \<noteq> h" "l < h" using e(1) bl(1) by auto
    have sz: "\<And>h' z'. (B(h := None)) h' = Some z' \<Longrightarrow> h' < num_phys_pages s \<and> priv_size (frames s h') = z'"
      using block_marks(4) [OF ok(1)] blocks_okD(5) [OF frames_okD(2) [OF ok(1)]] by (auto split: if_splits)
    have Bl: "(B(h := None)) l = Some y" using l(2) lh by simp
    obtain t1 where t1: "pages_block_remove l s = Some t1" "same_base s t1" "index_ok t1 (B(h := None, l := None))"
      using index_ok_remove [OF ok(2) Bl sz bl(1,2)] by blast
    have f1: "frames_ok t1 B C" using frames_ok_base [OF t1(2)] ok(1) by simp
    define t2 where "t2 = t1\<lparr>frames := rm_block l y (frames t1)\<rparr>"
    have d1: "pages_block_destroy l t1 = Some t2" and f2: "frames_ok t2 (B(l := None)) (C \<union> {l..<l + y})"
      using frames_ok_destroy [OF f1 l(2)] by (simp_all add: t2_def)
    define t3 where "t3 = t2\<lparr>frames := rm_block h z (frames t2)\<rparr>"
    have "(B(l := None)) h = Some z" using h lh by simp
    then have d2: "pages_block_destroy h t2 = Some t3"
      and f3: "frames_ok t3 (B(l := None, h := None)) (C \<union> {l..<l + y} \<union> {h..<h + z})"
      using frames_ok_destroy [OF f2, of h z] by (simp_all add: t3_def)
    define t4 where "t4 = t3\<lparr>frames := mk_block l (y + z) (frames t3)\<rparr>"
    have rng: "{l..<l + y} \<union> {h..<h + z} = {l..<l + (y + z)}" using e(1) by auto
    have dis: "C \<inter> {l..<l + (y + z)} = {}"
      using block_disjoint_single [OF ok(1) l(2)] block_disjoint_single [OF ok(1) h] rng by blast
    have f4: "frames_ok t4 (B(l := None, h := None, l \<mapsto> y + z)) C"
    proof -
      have "frames_ok t4 (B(l := None, h := None, l \<mapsto> y + z)) (C \<union> {l..<l + y} \<union> {h..<h + z} - {l..<l + (y + z)})"
        unfolding t4_def by (rule frames_ok_create [OF f3]) (use rng l(3) bl(1) in auto)
      moreover have "C \<union> {l..<l + y} \<union> {h..<h + z} - {l..<l + (y + z)} = C" using rng dis by auto
      ultimately show ?thesis by simp
    qed
    have np: "num_phys_pages t3 = num_phys_pages s" using t1(2) by (simp add: t3_def t2_def same_base_def)
    have c: "pages_block_create l (z + y - 1) t3 = Some t4"
    proof -
      have "l + (z + y - 1) < num_phys_pages t3" using np m(3) e(1) bl(1) by linarith
      moreover have "Suc (z + y - 1) = y + z" using bl(1) by simp
      ultimately show ?thesis using pages_block_create_eq [of l "z + y - 1" t3] by (simp add: t4_def)
    qed
    have run: "try_merge_blocks h side s = Some (l, t4)"
      using r(1) l(1) m(4) b(5) ml(4) bl(5) l(3) t1(1) d1 d2 c lh
      by (simp add: try_merge_blocks_def pframe_def)
    have ix: "index_ok t4 ((B(l := None, h := None, l \<mapsto> y + z))(l := None))"
      using t1(3) lh by (simp add: t4_def t3_def t2_def fun_upd_twist)
    have pg: "pages_of (B(l := None, h := None, l \<mapsto> y + z)) = pages_of B"
    proof -
      have "free_set t4 = free_set s"
        using t1(2) by (simp add: t4_def t3_def t2_def free_set_def in_pool_def same_base_def)
      then show ?thesis using frames_okD(4,5) [OF f4] frames_okD(4,5) [OF ok(1)] by blast
    qed
    have "same_pool s t4" "percpu t4 = percpu s" "\<forall>i. pf_flags (frames t4 i) = pf_flags (frames s i)"
      using t1(2) by (simp_all add: t4_def t3_def t2_def same_base_def same_pool_def)
    moreover have "outside s t4"
    proof -
      have ip: "in_pool s i" if "i \<in> {l..<l + y} \<union> {h..<h + z}" for i
        using that block_in_pool [OF ok(1) l(2)] block_in_pool [OF ok(1) h] by blast
      have "i \<noteq> l \<and> Suc i \<noteq> l + y \<and> i \<noteq> h \<and> Suc i \<noteq> h + z \<and> Suc i \<noteq> l + (y + z)" if "\<not> in_pool s i" for i
        using ip [of i] that bl(1) b(1) e(1) by auto
      then show ?thesis
        using t1(2) by (simp add: outside_def t4_def t3_def t2_def mk_block_def rm_block_def same_base_def)
    qed
    ultimately show ?thesis using run f4 ix pg e(2)
      by (intro exI [of _ l] exI [of _ t4] exI [of _ "B(l := None, h := None, l \<mapsto> y + z)"] exI [of _ "y + z"]) simp
  qed
qed

section \<open>Taking a block\<close>

lemma pages_block_split_ok:
  assumes ok: "frames_ok s B C" and h: "B h = Some z" and n: "0 < n" "n < z"
  shows "\<exists>t. pages_block_split h (z - n) s = Some (h + n, t) \<and>
    frames_ok t (B(h := None, h \<mapsto> n, h + n \<mapsto> z - n)) C \<and> t = s\<lparr>frames := frames t\<rparr> \<and>
    (\<forall>i. pf_flags (frames t i) = pf_flags (frames s i)) \<and> outside s t"
proof -
  note b = blocks_okD [OF frames_okD(2) [OF ok] h] and m = block_marks [OF ok h]
  define t1 where "t1 = s\<lparr>frames := rm_block h z (frames s)\<rparr>"
  have d: "pages_block_destroy h s = Some t1" and f1: "frames_ok t1 (B(h := None)) (C \<union> {h..<h + z})"
    using frames_ok_destroy [OF ok h] by (simp_all add: t1_def)
  define t2 where "t2 = t1\<lparr>frames := mk_block h n (frames t1)\<rparr>"
  have f2: "frames_ok t2 (B(h := None, h \<mapsto> n)) (C \<union> {h..<h + z} - {h..<h + n})"
    unfolding t2_def by (rule frames_ok_create [OF f1]) (use n b(2) in auto)
  define t3 where "t3 = t2\<lparr>frames := mk_block (h + n) (z - n) (frames t2)\<rparr>"
  have f3: "frames_ok t3 (B(h := None, h \<mapsto> n, h + n \<mapsto> z - n)) (C \<union> {h..<h + z} - {h..<h + n} - {h + n..<h + n + (z - n)})"
    unfolding t3_def by (rule frames_ok_create [OF f2]) (use n b(2) in auto)
  have dis: "C \<inter> {h..<h + z} = {}" using block_disjoint_single [OF ok h] .
  have "C \<union> {h..<h + z} - {h..<h + n} - {h + n..<h + n + (z - n)} = C"
    using dis n(2) by auto
  then have f: "frames_ok t3 (B(h := None, h \<mapsto> n, h + n \<mapsto> z - n)) C" using f3 by simp
  have c1: "pages_block_create h (n - 1) t1 = Some t2"
    using pages_block_create_eq [of h "n - 1" t1] m(3) n by (simp add: t1_def t2_def)
  have c2: "pages_block_create (h + n) (z - n - 1) t2 = Some t3"
    using pages_block_create_eq [of "h + n" "z - n - 1" t2] m(3) n by (simp add: t1_def t2_def t3_def Suc_diff_Suc)
  have "pages_block_split h (z - n) s = Some (h + n, t3)"
    using m(4) b(5) n d c1 c2 by (simp add: pages_block_split_def pframe_def Let_def)
  moreover have "outside s t3"
  proof -
    have "i \<noteq> h \<and> Suc i \<noteq> h + z \<and> i \<noteq> h + n \<and> Suc i \<noteq> h + n" if "\<not> in_pool s i" for i
      using block_in_pool [OF ok h, of i] that n by auto
    then show ?thesis using n(2) by (simp add: outside_def t3_def t2_def t1_def mk_block_def rm_block_def)
  qed
  ultimately show ?thesis using f by (intro exI [of _ t3]) (simp add: t1_def t2_def t3_def)
qed

lemma take_block_ok:
  assumes ok: "frames_ok s B C" "index_ok s B" and n: "0 < n" "n < MAX_BLOCK_SIZE"
  shows "\<exists>r t. take_block n s = Some (r, t) \<and>
    (case r of
       None \<Rightarrow> t = s \<and> (\<forall>h z. B h = Some z \<longrightarrow> \<not> higher n z)
     | Some h \<Rightarrow> \<exists>B'. frames_ok t B' (C \<union> {h..<h + n}) \<and> index_ok t B' \<and> {h..<h + n} \<subseteq> pages_of B \<and>
         same_pool s t \<and> percpu t = percpu s \<and> (\<forall>i. pf_flags (frames t i) = pf_flags (frames s i)) \<and> outside s t)"
proof -
  have sz: "\<And>h z. B h = Some z \<Longrightarrow> 0 < z \<and> z < MAX_BLOCK_SIZE"
    using blocks_okD [OF frames_okD(2) [OF ok(1)]] by blast
  have fr: "\<And>h z. B h = Some z \<Longrightarrow> h < num_phys_pages s \<and> priv_size (frames s h) = z"
    using block_marks(4) [OF ok(1)] blocks_okD(5) [OF frames_okD(2) [OF ok(1)]] by blast
  obtain r where r: "find_suitable_block s n = Some r"
    "case r of Some h \<Rightarrow> \<exists>z. B h = Some z \<and> n \<le> z | None \<Rightarrow> \<forall>h z. B h = Some z \<longrightarrow> \<not> higher n z"
  proof -
    have "\<exists>r. find_suitable_block s n = Some r \<and>
      (case r of Some h \<Rightarrow> \<exists>z. B h = Some z \<and> n \<le> z | None \<Rightarrow> \<forall>h z. B h = Some z \<longrightarrow> \<not> higher n z)"
      by (rule find_suitable_block_ok [OF ok(2) n]) (rule sz)
    then show thesis using that by (elim exE conjE)
  qed
  show ?thesis
  proof (cases r)
    case None
    then show ?thesis using r by (intro exI [of _ None] exI [of _ s]) (simp add: take_block_def)
  next
    case (Some h)
    then obtain z where h: "B h = Some z" "n \<le> z" using r(2) by auto
    note z = sz [OF h(1)]
    obtain t1 where t1: "pages_block_remove h s = Some t1" "same_base s t1" "index_ok t1 (B(h := None))"
      using index_ok_remove [OF ok(2) h(1) fr] z by blast
    have f1: "frames_ok t1 B C" using frames_ok_base [OF t1(2)] ok(1) by simp
    have sub: "{h..<h + n} \<subseteq> pages_of B" using block_pages [of B h z] h by auto
    show ?thesis
    proof (cases "n < z")
      case False
      then have e: "n = z" using h(2) by simp
      define t2 where "t2 = t1\<lparr>frames := rm_block h z (frames t1)\<rparr>"
      have d: "pages_block_destroy h t1 = Some t2" and f2: "frames_ok t2 (B(h := None)) (C \<union> {h..<h + n})"
        using frames_ok_destroy [OF f1 h(1)] e by (simp_all add: t2_def)
      have "take_block n s = Some (Some h, t2)"
        using r(1) Some fr [OF h(1)] z t1(1) d e by (simp add: take_block_def pframe_def)
      moreover have "outside s t2"
        using outside_trans [OF outside_base [OF t1(2)] _ same_base_pool [OF t1(2)]] outside_block(2) [of h z t1]
          block_in_pool [OF f1 h(1)] z by (simp add: t2_def)
      ultimately show ?thesis using f2 t1(2,3) sub
        by (intro exI [of _ "Some h"] exI [of _ t2]) (auto simp: t2_def same_pool_def same_base_def intro!: exI [of _ "B(h := None)"])
    next
      case True
      obtain t2 where t2: "pages_block_split h (z - n) t1 = Some (h + n, t2)"
        "frames_ok t2 (B(h := None, h \<mapsto> n, h + n \<mapsto> z - n)) C" "t2 = t1\<lparr>frames := frames t2\<rparr>"
        "\<forall>i. pf_flags (frames t2 i) = pf_flags (frames t1 i)" "outside t1 t2"
        using pages_block_split_ok [OF f1 h(1) n(1) True] by (elim exE conjE)
      let ?B = "B(h := None, h \<mapsto> n, h + n \<mapsto> z - n)"
      have hn: "B (h + n) = None"
      proof (cases "B (h + n)")
        case (Some y)
        then show ?thesis
          using blocks_disjoint [OF frames_okD(2) [OF ok(1)] h(1) Some] True n(1) sz [OF Some] by auto
      qed
      have i2: "index_ok t2 (B(h := None))" by (subst t2(3)) (simp add: t1(3))
      have b2: "?B (h + n) = Some (z - n)" by simp
      obtain t3 where t3: "pages_block_insert (h + n) t2 = Some t3" "same_base t2 t3"
        "index_ok t3 (B(h := None, h + n \<mapsto> z - n))"
      proof -
        have "(B(h := None)) (h + n) = None" "0 < z - n" "z - n < MAX_BLOCK_SIZE" using hn True z by auto
        then show thesis
          using index_ok_insert [OF i2 _ block_marks(4) [OF t2(2) b2] blocks_okD(5) [OF frames_okD(2) [OF t2(2)] b2]] that
          by blast
      qed
      have f3: "frames_ok t3 ?B C" using frames_ok_base [OF t3(2)] t2(2) by simp
      have bh: "?B h = Some n" using n(1) by simp
      define t4 where "t4 = t3\<lparr>frames := rm_block h n (frames t3)\<rparr>"
      have d: "pages_block_destroy h t3 = Some t4" unfolding t4_def by (rule frames_ok_destroy(1) [OF f3 bh])
      have f4: "frames_ok t4 (?B(h := None)) (C \<union> {h..<h + n})"
        unfolding t4_def by (rule frames_ok_destroy(2) [OF f3 bh])
      have e: "?B(h := None) = B(h := None, h + n \<mapsto> z - n)" using n(1) by (auto simp: fun_eq_iff)
      have run: "take_block n s = Some (Some h, t4)"
        using r(1) Some fr [OF h(1)] z t1(1) t2(1) t3(1) d True by (simp add: take_block_def pframe_def)
      have "index_ok t4 (?B(h := None))" using t3(3) e by (simp add: t4_def)
      moreover have "same_pool s t4"
        using same_pool_trans [OF same_base_pool [OF t1(2)]] same_base_pool [OF t3(2)] t2(3)
        by (metis same_pool_refl(2) same_pool_trans t4_def)
      moreover have "percpu t4 = percpu s"
      proof -
        have "percpu t2 = percpu t1" by (subst t2(3)) simp
        then show ?thesis using t3(2) t1(2) by (simp add: t4_def same_base_def)
      qed
      moreover have "\<forall>i. pf_flags (frames t4 i) = pf_flags (frames s i)"
        using t2(4) t3(2) t1(2) by (simp add: t4_def same_base_def)
      moreover have "outside s t4"
      proof -
        have o: "outside t3 t4" unfolding t4_def
          by (rule outside_block(2)) (use block_in_pool [OF f3 bh] n(1) in auto)
        have p: "same_pool s t1" "same_pool s t2" "same_pool s t3"
          using same_base_pool [OF t1(2)] same_base_pool [OF t3(2)] t2(3)
          by (metis same_pool_refl(2) same_pool_trans)+
        show ?thesis
          using outside_trans [OF outside_trans [OF outside_trans [OF outside_base [OF t1(2)] t2(5) p(1)]
              outside_base [OF t3(2)] p(2)] o p(3)] .
      qed
      ultimately show ?thesis using run f4 sub by (intro exI [of _ "Some h"] exI [of _ t4]) auto
    qed
  qed
qed

section \<open>The allocator and its caches\<close>

definition cached :: "tlsf \<Rightarrow> nat set" where
  "cached s = (\<Union>c. set (cpu_pages (percpu s c)))"

definition cache_ok :: "tlsf \<Rightarrow> bool" where
  "cache_ok s \<longleftrightarrow>
     (\<forall>c. noc_pages (percpu s c) = int (length (cpu_pages (percpu s c))) \<and> distinct (cpu_pages (percpu s c))) \<and>
     (\<forall>c d. c \<noteq> d \<longrightarrow> set (cpu_pages (percpu s c)) \<inter> set (cpu_pages (percpu s d)) = {})"

definition tlsf_inv :: "tlsf \<Rightarrow> bool" where
  "tlsf_inv s \<longleftrightarrow> (\<exists>B. frames_ok s B (cached s) \<and> index_ok s B) \<and> cache_ok s"

text \<open>A free block of a size class above that of the request.\<close>

definition has_higher :: "tlsf \<Rightarrow> nat \<Rightarrow> bool" where
  "has_higher s n \<longleftrightarrow> (\<exists>h. in_pool s h \<and> priv_head (frames s h) \<and> higher n (priv_size (frames s h)))"

lemma has_higher_block:
  assumes "frames_ok s B C" "has_higher s n"
  shows "\<exists>h z. B h = Some z \<and> higher n z"
proof -
  obtain h where h: "in_pool s h" "priv_head (frames s h)" "higher n (priv_size (frames s h))"
    using assms(2) by (auto simp: has_higher_def)
  then obtain z where z: "B h = Some z" using frames_okD(3) [OF assms(1)] by (auto simp: marks_ok_def)
  then show ?thesis using blocks_okD(5) [OF frames_okD(2) [OF assms(1)] z] h(3) by auto
qed

lemma free_set_eqI:
  assumes "same_pool s t" "\<And>i. free_frame (frames t i) = free_frame (frames s i)"
  shows "free_set t = free_set s"
  using assms by (simp add: free_set_def in_pool_def same_pool_def)

lemma free_frame_flags: "pf_flags p = pf_flags q \<Longrightarrow> free_frame p = free_frame q"
  by (simp add: free_frame_def PF_IS_BUSY_def pf_reserved_def)

lemma init_block_ok:
  assumes ok: "frames_ok s B (C \<union> {h..<h + n})" "index_ok s B" and dis: "C \<inter> {h..<h + n} = {}"
  shows "\<exists>t. init_block h n s = Some (Some [h..<h + n], t) \<and> frames_ok t B C \<and> index_ok t B \<and> same_pool s t \<and>
    percpu t = percpu s \<and> free_set t = free_set s - {h..<h + n} \<and>
    (\<forall>i. frames t i = (if i \<in> {h..<h + n} then PF_MARK_BUSY (frames s i) else frames s i)) \<and> outside s t"
proof -
  obtain fr where fr: "take_loop h n s = Some (s\<lparr>frames := fr\<rparr>)"
    "frames_ok (s\<lparr>frames := fr\<rparr>) B (C \<union> {h..<h + n} - {h..<h + n})"
    "\<forall>j. fr j = (if j \<in> {h..<h + n} then PF_MARK_BUSY (frames s j) else frames s j)"
    using take_loop_ok [OF ok(1), of h n] by (auto simp del: atLeastLessThan_iff)
  have e: "C \<union> {h..<h + n} - {h..<h + n} = C" using dis by auto
  have "frames_ok (s\<lparr>frames := fr\<rparr>) B C" using fr(2) by (simp only: e)
  moreover have "free_set (s\<lparr>frames := fr\<rparr>) = free_set s - {h..<h + n}"
    using fr(3) by (auto simp: free_set_def free_frame_def)
  moreover have "outside s (s\<lparr>frames := fr\<rparr>)"
  proof -
    have "{h..<h + n} \<subseteq> free_set s" using frames_okD(4) [OF ok(1)] by blast
    then have "i \<notin> {h..<h + n}" if "\<not> in_pool s i" for i using that by (auto simp: free_set_def)
    then show ?thesis using fr(3) by (auto simp: outside_def)
  qed
  ultimately show ?thesis
    using fr(1,3) ok(2) by (intro exI [of _ "s\<lparr>frames := fr\<rparr>"]) (simp add: init_block_def)
qed

lemma cached_upd: "cached (s\<lparr>percpu := (percpu s)(c := q)\<rparr>) =
    set (cpu_pages q) \<union> (\<Union>d \<in> - {c}. set (cpu_pages (percpu s d)))"
  by (auto simp: cached_def split: if_splits)

lemma cached_split: "cached s = set (cpu_pages (percpu s c)) \<union> (\<Union>d \<in> - {c}. set (cpu_pages (percpu s d)))"
  by (auto simp: cached_def)

lemma cache_ok_upd:
  assumes "cache_ok s" "noc_pages q = int (length (cpu_pages q))" "distinct (cpu_pages q)"
    and "\<And>d. d \<noteq> c \<Longrightarrow> set (cpu_pages q) \<inter> set (cpu_pages (percpu s d)) = {}"
  shows "cache_ok (s\<lparr>percpu := (percpu s)(c := q)\<rparr>)"
  using assms by (auto simp: cache_ok_def)

lemma get_page_from_cache_ok:
  assumes "cache_ok s"
  shows "\<exists>r t. get_page_from_cache cpu s = Some (r, t) \<and>
    (case r of None \<Rightarrow> t = s
     | Some p \<Rightarrow> p \<in> cached s \<and> cached t = cached s - {p} \<and> cache_ok t \<and> t = s\<lparr>percpu := percpu t\<rparr> \<and>
         (\<forall>d. d \<noteq> cpu \<longrightarrow> percpu t d = percpu s d))"
proof (cases "cpu_ready (percpu s cpu) \<and> noc_pages (percpu s cpu) \<noteq> 0")
  case False
  then show ?thesis by (intro exI [of _ None] exI [of _ s]) (auto simp: get_page_from_cache_def)
next
  case True
  have c: "noc_pages (percpu s cpu) = int (length (cpu_pages (percpu s cpu)))" "distinct (cpu_pages (percpu s cpu))"
    "\<And>d. d \<noteq> cpu \<Longrightarrow> set (cpu_pages (percpu s cpu)) \<inter> set (cpu_pages (percpu s d)) = {}"
    using assms by (auto simp: cache_ok_def)
  obtain p ps where ps: "cpu_pages (percpu s cpu) = p # ps"
    using True c(1) by (cases "cpu_pages (percpu s cpu)") auto
  let ?q = "(percpu s cpu)\<lparr>cpu_pages := ps, noc_pages := noc_pages (percpu s cpu) - 1\<rparr>"
  let ?t = "s\<lparr>percpu := (percpu s)(cpu := ?q)\<rparr>"
  have "cache_ok ?t" by (rule cache_ok_upd [OF assms]) (use c ps in auto)
  moreover have "cached ?t = cached s - {p}"
    unfolding cached_upd cached_split [of s cpu] using c(2,3) ps by auto
  moreover have "p \<in> cached s" unfolding cached_split [of s cpu] by (simp add: ps)
  moreover have "get_page_from_cache cpu s = Some (Some p, ?t)"
    using True ps by (simp add: get_page_from_cache_def Let_def)
  ultimately show ?thesis by (intro exI [of _ "Some p"] exI [of _ ?t]) simp
qed

lemma put_page_to_cache_ok:
  assumes "cache_ok s" "put_page_to_cache cpu p s = Some t" "p \<notin> cached s"
  shows "cache_ok t" "cached t = insert p (cached s)" "t = s\<lparr>percpu := percpu t\<rparr>"
    "d \<noteq> cpu \<Longrightarrow> percpu t d = percpu s d"
proof -
  let ?q = "(percpu s cpu)\<lparr>cpu_pages := p # cpu_pages (percpu s cpu), noc_pages := noc_pages (percpu s cpu) + 1\<rparr>"
  have t: "t = s\<lparr>percpu := (percpu s)(cpu := ?q)\<rparr>"
    using assms(2) by (auto simp: put_page_to_cache_def Let_def split: if_splits)
  show "cache_ok t" unfolding t
    by (rule cache_ok_upd [OF assms(1)]) (use assms(1,3) in \<open>auto simp: cache_ok_def cached_def\<close>)
  show "cached t = insert p (cached s)" unfolding t cached_upd cached_split [of s cpu] by auto
  show "t = s\<lparr>percpu := percpu t\<rparr>" "d \<noteq> cpu \<Longrightarrow> percpu t d = percpu s d" using t by simp_all
qed

lemma cached_percpu: "percpu t = percpu s \<Longrightarrow> cached t = cached s" "percpu t = percpu s \<Longrightarrow> cache_ok t = cache_ok s"
  by (simp_all add: cached_def cache_ok_def)

definition tlsf_alloc_result :: "tlsf \<Rightarrow> nat \<Rightarrow> nat list option \<Rightarrow> tlsf \<Rightarrow> bool" where
  "tlsf_alloc_result s n r t \<longleftrightarrow>
     (case r of
        None \<Rightarrow> t = s \<and> (n < MAX_BLOCK_SIZE \<and> int n \<le> num_free_pages s \<longrightarrow> \<not> has_higher s n)
      | Some ps \<Rightarrow> (\<exists>h. ps = [h..<h + n]) \<and> set ps \<subseteq> free_set s \<and> free_set t = free_set s - set ps \<and>
          (\<forall>i. pf_flags (frames t i) = (if i \<in> set ps then pf_flags (PF_MARK_BUSY (frames s i)) else pf_flags (frames s i))))"

lemma alloc_from_block:
  assumes ok: "frames_ok s B (cached s)" "index_ok s B" "cache_ok s" and n: "0 < n" "n < MAX_BLOCK_SIZE"
  shows "\<exists>r t. do { (block, s) \<leftarrow> take_block n s; case block of None \<Rightarrow> Some (None, s) | Some bh \<Rightarrow> init_block bh n s } = Some (r, t) \<and>
    tlsf_inv t \<and> same_pool s t \<and> tlsf_alloc_result s n r t \<and> percpu t = percpu s \<and> outside s t"
proof -
  obtain r t where t: "take_block n s = Some (r, t)"
    "case r of
       None \<Rightarrow> t = s \<and> (\<forall>h z. B h = Some z \<longrightarrow> \<not> higher n z)
     | Some h \<Rightarrow> \<exists>B'. frames_ok t B' (cached s \<union> {h..<h + n}) \<and> index_ok t B' \<and> {h..<h + n} \<subseteq> pages_of B \<and>
         same_pool s t \<and> percpu t = percpu s \<and> (\<forall>i. pf_flags (frames t i) = pf_flags (frames s i)) \<and> outside s t"
    using take_block_ok [OF ok(1,2) n] by (elim exE conjE)
  show ?thesis
  proof (cases r)
    case None
    have "\<not> has_higher s n" using has_higher_block [OF ok(1), of n] t(2) None by auto
    then show ?thesis using t None ok
      by (intro exI [of _ None] exI [of _ s]) (auto simp: tlsf_inv_def tlsf_alloc_result_def)
  next
    case (Some h)
    then obtain B' where B': "frames_ok t B' (cached s \<union> {h..<h + n})" "index_ok t B'" "{h..<h + n} \<subseteq> pages_of B"
      "same_pool s t" "percpu t = percpu s" "\<forall>i. pf_flags (frames t i) = pf_flags (frames s i)" "outside s t"
      using t(2) by (auto simp del: atLeastLessThan_iff)
    have dis: "cached s \<inter> {h..<h + n} = {}" using B'(3) frames_okD(5) [OF ok(1)] by blast
    obtain u where u: "init_block h n t = Some (Some [h..<h + n], u)" "frames_ok u B' (cached s)" "index_ok u B'"
      "same_pool t u" "percpu u = percpu t" "free_set u = free_set t - {h..<h + n}"
      "\<forall>i. frames u i = (if i \<in> {h..<h + n} then PF_MARK_BUSY (frames t i) else frames t i)" "outside t u"
      using init_block_ok [OF B'(1,2) dis] by (elim exE conjE)
    have fs: "free_set t = free_set s"
      by (rule free_set_eqI [OF B'(4)]) (rule free_frame_flags, simp add: B'(6))
    have fl: "pf_flags (frames u i) = (if i \<in> set [h..<h + n] then pf_flags (PF_MARK_BUSY (frames s i)) else pf_flags (frames s i))" for i
      using u(7) [rule_format, of i] B'(6) by (simp add: PF_MARK_BUSY_def)
    have pc: "percpu u = percpu s" using u(5) B'(5) by simp
    have "tlsf_inv u" using u(2,3) ok(3) cached_percpu [OF pc] by (auto simp: tlsf_inv_def)
    moreover have "{h..<h + n} \<subseteq> free_set s" using B'(3) frames_okD(4) [OF ok(1)] by blast
    ultimately show ?thesis
      using t(1) Some u(1,6) fs fl pc outside_trans [OF B'(7) u(8) B'(4)] same_pool_trans [OF B'(4) u(4)]
      by (intro exI [of _ "Some [h..<h + n]"] exI [of _ u]) (auto simp: tlsf_alloc_result_def)
  qed
qed

lemma tlsf_alloc_pages_ok:
  assumes inv: "tlsf_inv s" and n: "0 < n"
  shows "\<exists>r t. tlsf_alloc_pages cpu n s = Some (r, t) \<and> tlsf_inv t \<and> same_pool s t \<and> tlsf_alloc_result s n r t \<and>
    (n \<noteq> 1 \<longrightarrow> percpu t = percpu s) \<and> outside s t \<and> (\<forall>d. d \<noteq> cpu \<longrightarrow> percpu t d = percpu s d)"
proof (cases "n \<ge> MAX_BLOCK_SIZE \<or> int n > num_free_pages s")
  case True
  then show ?thesis using inv
    by (intro exI [of _ None] exI [of _ s]) (auto simp: tlsf_alloc_pages_def tlsf_alloc_result_def)
next
  case False
  obtain B where ok: "frames_ok s B (cached s)" "index_ok s B" "cache_ok s" using inv by (auto simp: tlsf_inv_def)
  have m: "n < MAX_BLOCK_SIZE" using False by simp
  obtain r t where g: "(if n = 1 then get_page_from_cache cpu s else Some (None, s)) = Some (r, t)"
    "case r of None \<Rightarrow> t = s
     | Some p \<Rightarrow> n = 1 \<and> p \<in> cached s \<and> cached t = cached s - {p} \<and> cache_ok t \<and> t = s\<lparr>percpu := percpu t\<rparr> \<and>
         (\<forall>d. d \<noteq> cpu \<longrightarrow> percpu t d = percpu s d)"
  proof (cases "n = 1")
    case True
    obtain r t where "get_page_from_cache cpu s = Some (r, t)"
      "case r of None \<Rightarrow> t = s
       | Some p \<Rightarrow> p \<in> cached s \<and> cached t = cached s - {p} \<and> cache_ok t \<and> t = s\<lparr>percpu := percpu t\<rparr> \<and>
           (\<forall>d. d \<noteq> cpu \<longrightarrow> percpu t d = percpu s d)"
      using get_page_from_cache_ok [OF ok(3), of cpu] by (elim exE conjE)
    then show thesis using that [of r t] True by (cases r) simp_all
  next
    case False
    then show thesis using that [of None s] by simp
  qed
  show ?thesis
  proof (cases r)
    case None
    have "tlsf_alloc_pages cpu n s =
        do { (block, s) \<leftarrow> take_block n s; case block of None \<Rightarrow> Some (None, s) | Some bh \<Rightarrow> init_block bh n s }"
      using False g None by (simp add: tlsf_alloc_pages_def)
    then show ?thesis using alloc_from_block [OF ok n m] by auto
  next
    case (Some p)
    then have p: "n = 1" "p \<in> cached s" "cached t = cached s - {p}" "cache_ok t" "t = s\<lparr>percpu := percpu t\<rparr>"
      "\<forall>d. d \<noteq> cpu \<longrightarrow> percpu t d = percpu s d"
      using g(2) by auto
    have f: "frames_ok t B (cached t \<union> {p..<p + n})"
    proof -
      have "cached t \<union> {p..<p + n} = cached s" using p(1,2,3) by auto
      then show ?thesis using ok(1) by (subst p(5)) simp
    qed
    have ix: "index_ok t B" using ok(2) by (subst p(5)) simp
    have dis: "cached t \<inter> {p..<p + n} = {}" using p(1,3) by auto
    obtain u where u: "init_block p n t = Some (Some [p..<p + n], u)" "frames_ok u B (cached t)" "index_ok u B"
      "same_pool t u" "percpu u = percpu t" "free_set u = free_set t - {p..<p + n}"
      "\<forall>i. frames u i = (if i \<in> {p..<p + n} then PF_MARK_BUSY (frames t i) else frames t i)" "outside t u"
      using init_block_ok [OF f ix dis] by (elim exE conjE)
    have st: "same_pool s t" "frames t = frames s" "free_set t = free_set s"
      by (subst p(5), simp add: free_set_def in_pool_def)+
    have "tlsf_inv u" using u(2,3) p(4) cached_percpu [OF u(5)] by (auto simp: tlsf_inv_def)
    moreover have "{p..<p + n} \<subseteq> free_set s" using p(1,2) frames_okD(4) [OF ok(1)] by auto
    moreover have "pf_flags (frames u i) =
        (if i \<in> set [p..<p + n] then pf_flags (PF_MARK_BUSY (frames s i)) else pf_flags (frames s i))" for i
      using u(7) [rule_format, of i] st(2) by simp
    ultimately have "tlsf_alloc_result s n (Some [p..<p + n]) u" using u(6) st(3) by (auto simp: tlsf_alloc_result_def)
    moreover have "tlsf_alloc_pages cpu n s = Some (Some [p..<p + n], u)"
      using False g(1) Some u(1) by (simp add: tlsf_alloc_pages_def)
    ultimately show ?thesis using \<open>tlsf_inv u\<close> same_pool_trans [OF st(1) u(4)] p(1) outside_trans [OF _ u(8) st(1)] st(2) p(6) u(5)
      by (auto simp: outside_def)
  qed
qed

lemma try_merge_right_id:
  assumes "frames_ok s B C" "index_ok s (B(h := None))" "B h = Some z"
  shows "try_merge_right h s = Some (h, s)"
  using try_merge_blocks_ok [OF assms, of 1] by (auto simp: try_merge_right_def)

definition may_free :: "tlsf \<Rightarrow> nat \<Rightarrow> nat \<Rightarrow> bool" where
  "may_free s p n \<longleftrightarrow> (\<forall>j \<in> {p..<p + n}. in_pool s j \<and> PF_IS_BUSY (frames s j) \<and>
     \<not> pf_reserved (frames s j) \<and> \<not> pf_locked (frames s j))"

lemma free_to_index:
  assumes ok: "frames_ok s B (C \<union> {p..<p + n})" "index_ok s B" and n: "0 < n" "n < MAX_BLOCK_SIZE"
    and dis: "C \<inter> {p..<p + n} = {}"
  shows "\<exists>t B'. do { s \<leftarrow> pages_block_create p (n - 1) s; (b, s) \<leftarrow> try_merge_left p s;
      (b, s) \<leftarrow> try_merge_right b s; pages_block_insert b s } = Some t \<and>
    frames_ok t B' C \<and> index_ok t B' \<and> same_pool s t \<and> percpu t = percpu s \<and>
    (\<forall>i. pf_flags (frames t i) = pf_flags (frames s i)) \<and> outside s t"
proof -
  let ?s = "s\<lparr>frames := mk_block p n (frames s)\<rparr>"
  have sub: "{p..<p + n} \<subseteq> C \<union> {p..<p + n}" by blast
  have e: "C \<union> {p..<p + n} - {p..<p + n} = C" using dis by blast
  have f: "frames_ok ?s (B(p \<mapsto> n)) C" using frames_ok_create [OF ok(1) sub n] by (simp only: e)
  have bp: "(B(p \<mapsto> n)) p = Some n" by simp
  have "p \<notin> pages_of B" using frames_okD(5) [OF ok(1)] n(1) by auto
  then have pN: "B p = None"
    using in_pages_of [of B p _ p] blocks_okD(1) [OF frames_okD(2) [OF ok(1)], of p] by (cases "B p") auto
  have i: "index_ok ?s ((B(p \<mapsto> n))(p := None))" using ok(2) pN by (simp add: fun_upd_idem)
  have "p + n - 1 < num_phys_pages s" using block_marks(3) [OF f bp] n(1) by simp
  then have c: "pages_block_create p (n - 1) s = Some ?s" using pages_block_create_eq [of p "n - 1" s] n(1) by simp
  obtain h t B' z where m: "try_merge_blocks p (- 1) ?s = Some (h, t)" "frames_ok t B' C" "index_ok t (B'(h := None))"
    "B' h = Some z" "pages_of B' = pages_of (B(p \<mapsto> n))" "same_pool ?s t" "percpu t = percpu ?s"
    "\<forall>i. pf_flags (frames t i) = pf_flags (frames ?s i)" "outside ?s t"
    using try_merge_blocks_ok [OF f i bp, of "- 1"] by (elim exE conjE)
  note b = blocks_okD [OF frames_okD(2) [OF m(2)] m(4)]
  obtain u where u: "pages_block_insert h t = Some u" "same_base t u" "index_ok u (B'(h := None, h \<mapsto> z))"
    using index_ok_insert [OF m(3) _ block_marks(4) [OF m(2,4)] b(5,1,2)] by auto
  have "B'(h := None, h \<mapsto> z) = B'" using m(4) by auto
  then have "index_ok u B'" using u(3) by simp
  moreover have "frames_ok u B' C" using frames_ok_base [OF u(2)] m(2) by simp
  moreover have "same_pool s u" "percpu u = percpu s" "\<forall>i. pf_flags (frames u i) = pf_flags (frames s i)"
    using m(6,7,8) u(2) by (simp_all add: same_pool_def same_base_def)
  moreover have "outside s u"
  proof -
    have o: "outside s ?s"
      by (rule outside_block(1)) (use block_in_pool [OF f bp] n(1) in simp_all)
    have p: "same_pool s ?s" "same_pool s t" using m(6) by (simp_all add: same_pool_def)
    show ?thesis using outside_trans [OF outside_trans [OF o m(9) p(1)] outside_base [OF u(2)] p(2)] .
  qed
  ultimately show ?thesis
    using c m(1) u(1) try_merge_right_id [OF m(2,3,4)]
    by (intro exI [of _ u] exI [of _ B']) (simp add: try_merge_left_def)
qed

text \<open>The pages of \<open>X\<close> are free pages that are in no block and in no cache.\<close>

lemma tlsf_free_pages_gen:
  assumes ok: "frames_ok s B (cached s \<union> X)" "index_ok s B" "cache_ok s" "X \<inter> cached s = {}"
    and n: "0 < n" "n < MAX_BLOCK_SIZE" and mf: "may_free s p n"
  shows "\<exists>t B'. tlsf_free_pages cpu p n s = Some t \<and> frames_ok t B' (cached t \<union> X) \<and> index_ok t B' \<and> cache_ok t \<and>
    X \<inter> cached t = {} \<and> same_pool s t \<and> free_set t = free_set s \<union> {p..<p + n} \<and>
    (\<forall>i. i \<notin> {p..<p + n} \<longrightarrow> pf_flags (frames t i) = pf_flags (frames s i)) \<and>
    (\<not> cpu_ready (percpu s cpu) \<longrightarrow> percpu t = percpu s) \<and> outside s t \<and> (\<forall>d. d \<noteq> cpu \<longrightarrow> percpu t d = percpu s d)"
proof -
  have "p + n - 1 \<in> {p..<p + n}" using n(1) by auto
  then have "in_pool s (p + n - 1)" using mf by (auto simp: may_free_def)
  then have g: "\<not> (n + p - 1 < first_pidx s \<or> n + p - 1 \<ge> first_pidx s + num_pages s)"
    by (auto simp: in_pool_def add.commute)
  obtain fr where fr: "free_loop p n s = Some (s\<lparr>frames := fr\<rparr>)"
    "frames_ok (s\<lparr>frames := fr\<rparr>) B (cached s \<union> X \<union> {p..<p + n})" "\<forall>j. j \<notin> {p..<p + n} \<longrightarrow> fr j = frames s j"
  proof -
    have "\<exists>fr. free_loop p n s = Some (s\<lparr>frames := fr\<rparr>) \<and>
      frames_ok (s\<lparr>frames := fr\<rparr>) B (cached s \<union> X \<union> {p..<p + n}) \<and> (\<forall>j. j \<notin> {p..<p + n} \<longrightarrow> fr j = frames s j)"
      by (rule free_loop_ok [OF ok(1)]) (use mf in \<open>simp add: may_free_def\<close>)
    then show thesis using that by (elim exE conjE)
  qed
  let ?s = "s\<lparr>frames := fr\<rparr>"
  have dis: "(cached s \<union> X) \<inter> {p..<p + n} = {}"
    using mf frames_okD(4) [OF ok(1)] by (auto simp: may_free_def free_set_def free_frame_def)
  have os: "outside s ?s" using fr(3) mf by (auto simp: outside_def may_free_def)
  have ix: "index_ok ?s B" using ok(2) by simp
  have fs: "free_set ?s = free_set s \<union> {p..<p + n}"
    using frames_okD(4) [OF fr(2)] frames_okD(4) [OF ok(1)] by blast
  show ?thesis
  proof (cases "if n = 1 then put_page_to_cache cpu p ?s else None")
    case None
    obtain t B' where t: "do { s \<leftarrow> pages_block_create p (n - 1) ?s; (b, s) \<leftarrow> try_merge_left p s;
        (b, s) \<leftarrow> try_merge_right b s; pages_block_insert b s } = Some t"
      "frames_ok t B' (cached s \<union> X)" "index_ok t B'" "same_pool ?s t" "percpu t = percpu ?s"
      "\<forall>i. pf_flags (frames t i) = pf_flags (frames ?s i)" "outside ?s t"
      using free_to_index [OF fr(2) ix n dis] by (elim exE conjE)
    have pc: "percpu t = percpu s" using t(5) by simp
    have "tlsf_free_pages cpu p n s = Some t"
      using n(1) g fr(1) None t(1) by (simp add: tlsf_free_pages_def)
    moreover have "same_pool s t" using t(4) by (simp add: same_pool_def)
    moreover have "free_set t = free_set ?s"
      by (rule free_set_eqI [OF t(4)]) (rule free_frame_flags, simp add: t(6))
    moreover have "outside s t" by (rule outside_trans [OF os t(7)]) simp
    ultimately show ?thesis using fs t(2,3,6) fr(3) ok(3,4) cached_percpu [OF pc] pc
      by (intro exI [of _ t] exI [of _ B']) auto
  next
    case (Some t)
    then have n1: "n = 1" and put: "put_page_to_cache cpu p ?s = Some t" by (auto split: if_splits)
    have c: "cache_ok ?s" "cached ?s = cached s" using ok(3) by (simp_all add: cache_ok_def cached_def)
    have "p \<notin> cached ?s" using dis n1 c(2) by auto
    note t = put_page_to_cache_ok [OF c(1) put this]
    have ct: "cached t = cached s \<union> {p..<p + n}" using t(2) c(2) n1 by auto
    then have "cached s \<union> X \<union> {p..<p + n} = cached t \<union> X" by auto
    then have "frames_ok t B (cached t \<union> X)" using fr(2) by (subst t(3)) simp
    moreover have "index_ok t B" using ix by (subst t(3)) simp
    moreover have "tlsf_free_pages cpu p n s = Some t" using n(1) g fr(1) Some by (simp add: tlsf_free_pages_def)
    moreover have "same_pool s t" "free_set t = free_set ?s" "frames t = fr"
      by (subst t(3), simp add: same_pool_def free_set_def in_pool_def)+
    moreover have "cpu_ready (percpu s cpu)" using put by (auto simp: put_page_to_cache_def Let_def split: if_splits)
    moreover have "X \<inter> cached t = {}" using ct ok(4) dis by auto
    ultimately show ?thesis using fs fr(3) t(1,4) os by (intro exI [of _ t] exI [of _ B]) (auto simp: outside_def)
  qed
qed

lemma tlsf_free_pages_ok:
  assumes inv: "tlsf_inv s" and n: "0 < n" "n < MAX_BLOCK_SIZE" and mf: "may_free s p n"
  shows "\<exists>t. tlsf_free_pages cpu p n s = Some t \<and> tlsf_inv t \<and> same_pool s t \<and>
    free_set t = free_set s \<union> {p..<p + n} \<and> (\<forall>i. i \<notin> {p..<p + n} \<longrightarrow> pf_flags (frames t i) = pf_flags (frames s i)) \<and> outside s t \<and>
    (\<forall>d. d \<noteq> cpu \<longrightarrow> percpu t d = percpu s d)"
proof -
  obtain B where ok: "frames_ok s B (cached s \<union> {})" "index_ok s B" "cache_ok s" "{} \<inter> cached s = {}"
    using inv by (auto simp: tlsf_inv_def)
  show ?thesis using tlsf_free_pages_gen [OF ok n mf, of cpu] by (auto simp: tlsf_inv_def simp del: atLeastLessThan_iff)
qed

section \<open>Initialisation\<close>

definition tlsf_boot :: "tlsf \<Rightarrow> bool" where
  "tlsf_boot s \<longleftrightarrow> pool_ok s \<and> (\<forall>i. in_pool s i \<longrightarrow> \<not> priv_head (frames s i) \<and> \<not> priv_tail (frames s i) \<and>
     (\<not> pf_reserved (frames s i) \<longrightarrow> \<not> PF_IS_BUSY (frames s i) \<and> \<not> pf_locked (frames s i)))"

lemma same_pool_in_pool: "same_pool s t \<Longrightarrow> in_pool t = in_pool s"
  by (simp add: same_pool_def in_pool_def fun_eq_iff)

lemma pf_flags_preds:
  "pf_flags p = pf_flags q \<Longrightarrow> pf_reserved p = pf_reserved q"
  "pf_flags p = pf_flags q \<Longrightarrow> pf_locked p = pf_locked q"
  "pf_flags p = pf_flags q \<Longrightarrow> PF_IS_BUSY p = PF_IS_BUSY q"
  by (simp_all add: pf_reserved_def pf_locked_def PF_IS_BUSY_def)

definition unlocked :: "tlsf \<Rightarrow> nat \<Rightarrow> nat \<Rightarrow> bool" where
  "unlocked s i n \<longleftrightarrow> (\<forall>j \<in> {i..<i + n}. in_pool s j \<and>
     (\<not> pf_reserved (frames s j) \<longrightarrow> \<not> PF_IS_BUSY (frames s j) \<and> \<not> pf_locked (frames s j)))"

lemma unlocked_step:
  assumes "unlocked s i (Suc n)" "same_pool s t" "\<And>j. j \<noteq> i \<Longrightarrow> pf_flags (frames t j) = pf_flags (frames s j)"
  shows "unlocked t (Suc i) n"
  unfolding unlocked_def
proof
  fix j assume j: "j \<in> {Suc i..<Suc i + n}"
  then have f: "pf_flags (frames t j) = pf_flags (frames s j)" using assms(3) by auto
  show "in_pool t j \<and> (\<not> pf_reserved (frames t j) \<longrightarrow> \<not> PF_IS_BUSY (frames t j) \<and> \<not> pf_locked (frames t j))"
    using assms(1) j pf_flags_preds [OF f] same_pool_in_pool [OF assms(2)] by (auto simp: unlocked_def)
qed

lemma build_step:
  assumes ok: "frames_ok s B (cached s \<union> X)" "index_ok s B" "cache_ok s" "X \<inter> cached s = {}"
    and nr: "\<not> cpu_ready (percpu s cpu)" and i: "in_pool s i" "\<not> pf_reserved (frames s i)" "\<not> pf_locked (frames s i)" "i \<in> X"
  shows "\<exists>t B'. do { s \<leftarrow> upd_pframe i PF_MARK_BUSY s; tlsf_free_pages cpu i 1 s } = Some t \<and>
    frames_ok t B' (cached t \<union> (X - {i})) \<and> index_ok t B' \<and> same_pool s t \<and> percpu t = percpu s \<and>
    free_set t = free_set s \<and> (\<forall>j. j \<noteq> i \<longrightarrow> pf_flags (frames t j) = pf_flags (frames s j)) \<and> outside s t"
proof -
  define u where "u = s\<lparr>frames := (frames s)(i := PF_MARK_BUSY (frames s i))\<rparr>"
  have ic: "i \<notin> cached s" "i \<notin> pages_of B" using ok(4) i(4) frames_okD(5) [OF ok(1)] by auto
  have "frames_ok u B (cached s \<union> X - {i})"
    using frames_ok_flags [OF ok(1) _ i(1) ic(2), of "PF_MARK_BUSY (frames s i)"]
    by (simp add: same_marks_def free_frame_def u_def)
  moreover have cu: "cached u = cached s" "cache_ok u" "index_ok u B" "percpu u = percpu s" "same_pool s u"
    using ok(2,3) by (simp_all add: u_def cached_def cache_ok_def)
  moreover have "cached s \<union> X - {i} = cached s \<union> (X - {i})" using ic by auto
  ultimately have fu: "frames_ok u B (cached u \<union> (X - {i}))" by simp
  have mf: "may_free u i 1" using i by (simp add: may_free_def u_def)
  have dis: "(X - {i}) \<inter> cached u = {}" using ok(4) cu(1) by auto
  obtain t B' where t: "tlsf_free_pages cpu i 1 u = Some t" "frames_ok t B' (cached t \<union> (X - {i}))" "index_ok t B'"
    "same_pool u t" "free_set t = free_set u \<union> {i..<i + 1}"
    "\<forall>j. j \<notin> {i..<i + 1} \<longrightarrow> pf_flags (frames t j) = pf_flags (frames u j)"
    "\<not> cpu_ready (percpu u cpu) \<longrightarrow> percpu t = percpu u" "outside u t"
    using tlsf_free_pages_gen [OF fu cu(3,2) dis _ _ mf, of cpu]
    by (auto simp: MAX_BLOCK_SIZE_def TLSF_FLD_SIZE_def TLSF_FIRST_OFFSET_def simp del: atLeastLessThan_iff)
  have "i < num_phys_pages s" using i(1) frames_okD(1) [OF ok(1)] by (auto simp: in_pool_def pool_ok_def)
  then have "upd_pframe i PF_MARK_BUSY s = Some u" by (simp add: upd_pframe_def u_def)
  moreover have "free_set t = free_set s"
  proof -
    have "i \<in> free_set s" using frames_okD(4) [OF ok(1)] i(4) by auto
    moreover have "free_set u = free_set s - {i}"
      by (auto simp: free_set_def u_def free_frame_def in_pool_def)
    ultimately show ?thesis using t(5) by auto
  qed
  moreover have "pf_flags (frames t j) = pf_flags (frames s j)" if "j \<noteq> i" for j
    using t(6) that by (simp add: u_def)
  moreover have "outside s t"
    by (rule outside_trans [OF _ t(8) cu(5)]) (use i(1) in \<open>auto simp: outside_def u_def\<close>)
  ultimately show ?thesis
    using t(1,2,3) t(7) nr cu(4) same_pool_trans [OF cu(5) t(4)]
    by (intro exI [of _ t] exI [of _ B']) simp
qed

lemma build_loop_ok:
  assumes "frames_ok s B (cached s \<union> {j \<in> {i..<i + n}. \<not> pf_reserved (frames s j)})" "index_ok s B" "cache_ok s"
    and "cached s = {}" "\<not> cpu_ready (percpu s cpu)" "unlocked s i n"
  shows "\<exists>t B'. build_loop cpu i n s = Some t \<and> frames_ok t B' (cached t) \<and> index_ok t B' \<and> same_pool s t \<and>
    percpu t = percpu s \<and> free_set t = free_set s \<and> outside s t"
  using assms
proof (induction n arbitrary: i s B)
  case 0
  then show ?case by (intro exI [of _ s] exI [of _ B]) simp
next
  case (Suc n)
  let ?X = "{j \<in> {i..<i + Suc n}. \<not> pf_reserved (frames s j)}"
  have i: "in_pool s i" "\<not> pf_reserved (frames s i) \<longrightarrow> \<not> pf_locked (frames s i)"
    using Suc.prems(6) by (auto simp: unlocked_def)
  have "i < num_phys_pages s" using i(1) frames_okD(1) [OF Suc.prems(1)] by (auto simp: in_pool_def pool_ok_def)
  then have pf: "pframe s i = Some (frames s i)" by (simp add: pframe_def)
  obtain t B' where t: "(if pf_reserved (frames s i) then Some s
        else do { s \<leftarrow> upd_pframe i PF_MARK_BUSY s; tlsf_free_pages cpu i 1 s }) = Some t"
    "frames_ok t B' (cached t \<union> (?X - {i}))" "index_ok t B'" "same_pool s t" "percpu t = percpu s"
    "free_set t = free_set s" "\<forall>j. j \<noteq> i \<longrightarrow> pf_flags (frames t j) = pf_flags (frames s j)" "outside s t"
  proof (cases "pf_reserved (frames s i)")
    case True
    then have "?X - {i} = ?X" by auto
    then show thesis using that [of s B] True Suc.prems by simp
  next
    case False
    then have "i \<in> ?X" by auto
    moreover have "?X \<inter> cached s = {}" using Suc.prems(4) by simp
    ultimately show thesis
      using build_step [OF Suc.prems(1,2,3) _ Suc.prems(5) i(1) False] i(2) False that by (auto simp del: atLeastLessThan_iff)
  qed
  have res: "pf_reserved (frames t j) = pf_reserved (frames s j)" if "j \<noteq> i" for j
    using t(7) that pf_flags_preds(1) by blast
  have X: "?X - {i} = {j \<in> {Suc i..<Suc i + n}. \<not> pf_reserved (frames t j)}" using res by auto
  have f: "frames_ok t B' (cached t \<union> {j \<in> {Suc i..<Suc i + n}. \<not> pf_reserved (frames t j)})"
    using t(2) by (simp only: X)
  have c: "cache_ok t" "cached t = {}" "\<not> cpu_ready (percpu t cpu)"
    using cached_percpu [OF t(5)] t(5) Suc.prems(3,4,5) by simp_all
  have ul: "unlocked t (Suc i) n" using unlocked_step [OF Suc.prems(6) t(4)] t(7) by blast
  obtain v B'' where v: "build_loop cpu (Suc i) n t = Some v" "frames_ok v B'' (cached v)" "index_ok v B''" "same_pool t v"
    "percpu v = percpu t" "free_set v = free_set t" "outside t v"
    using Suc.IH [OF f t(3) c ul] by (elim exE conjE)
  show ?case using pf t(1,5,6) v same_pool_trans [OF t(4) v(4)] outside_trans [OF t(8) v(7) t(4)]
    by (intro exI [of _ v] exI [of _ B'']) simp
qed

lemma build_tlsf_map_ok:
  assumes boot: "tlsf_boot s" and pc: "\<And>c. percpu s c = empty_cache"
  shows "\<exists>t. build_tlsf_map cpu s = Some t \<and> tlsf_inv t \<and> same_pool s t \<and> percpu t = percpu s \<and> free_set t = free_set s \<and> outside s t"
proof -
  let ?s = "s\<lparr>node_map := (\<lambda>_. empty_node), total_blocks := (\<lambda>_. 0), slds_bitmap := (\<lambda>_. 0), fld_bitmap := 0\<rparr>"
  let ?X = "{j \<in> {first_pidx s..<first_pidx s + num_pages s}. \<not> pf_reserved (frames ?s j)}"
  have base: "same_base s ?s" by (simp add: same_base_def)
  have c: "cached ?s = {}" "cache_ok ?s" using pc by (simp_all add: cached_def cache_ok_def empty_cache_def)
  have "pages_of (\<lambda>_. None) = {}" by (simp add: pages_of_def)
  moreover have "free_set s = ?X"
    using boot by (auto simp: free_set_def free_frame_def in_pool_def tlsf_boot_def)
  ultimately have "frames_ok s (\<lambda>_. None) ?X"
    using boot by (simp add: frames_ok_def tlsf_boot_def blocks_ok_def marks_ok_def)
  then have f: "frames_ok ?s (\<lambda>_. None) (cached ?s \<union> ?X)" using frames_ok_base [OF base] c(1) by simp
  have ix: "index_ok ?s (\<lambda>_. None)"
    by (simp add: index_ok_def node_ok_def class_of_def used_slds_def sld_bitmap_def empty_node_def)
  have ul: "unlocked ?s (first_pidx s) (num_pages s)"
    using boot by (auto simp: unlocked_def tlsf_boot_def in_pool_def)
  have nr: "\<not> cpu_ready (percpu ?s cpu)" using pc [of cpu] by (simp add: empty_cache_def)
  obtain t B' where t: "build_loop cpu (first_pidx s) (num_pages s) ?s = Some t" "frames_ok t B' (cached t)"
    "index_ok t B'" "same_pool ?s t" "percpu t = percpu ?s" "free_set t = free_set ?s" "outside ?s t"
    using build_loop_ok [OF f ix c(2,1) nr ul] by (elim exE conjE)
  have "tlsf_inv t" using t(2,3) c(2) cached_percpu(2) [OF t(5)] by (auto simp: tlsf_inv_def)
  moreover have "free_set ?s = free_set s" by (simp add: free_set_def in_pool_def)
  ultimately show ?thesis
    using t(1,4,5,6,7) by (intro exI [of _ t]) (simp add: build_tlsf_map_def same_pool_def outside_def in_pool_def)
qed

lemma cache_loop_ok:
  assumes "frames_ok s B (cached s)" "index_ok s B" "distinct ps"
    and "\<And>p. p \<in> set ps \<Longrightarrow> in_pool s p \<and> PF_IS_BUSY (frames s p) \<and> \<not> pf_reserved (frames s p)"
  shows "\<exists>t. cache_loop c ps s = Some t \<and> frames_ok t B (cached t) \<and> index_ok t B \<and> same_pool s t \<and>
    percpu t = (percpu s)(c := (percpu s c)\<lparr>cpu_pages := cpu_pages (percpu s c) @ ps\<rparr>) \<and> free_set t = free_set s \<union> set ps \<and> outside s t"
  using assms
proof (induction ps arbitrary: s)
  case Nil
  then show ?case by (intro exI [of _ s]) simp
next
  case (Cons p ps)
  have p: "in_pool s p" "PF_IS_BUSY (frames s p)" "\<not> pf_reserved (frames s p)" using Cons.prems(4) by auto
  have np: "p \<notin> pages_of B" using frames_okD(4) [OF Cons.prems(1)] p by (auto simp: free_set_def free_frame_def)
  have "p < num_phys_pages s" using p(1) frames_okD(1) [OF Cons.prems(1)] by (auto simp: in_pool_def pool_ok_def)
  define u where "u = s\<lparr>frames := (frames s)(p := PF_MARK_FREE (frames s p)),
    percpu := (percpu s)(c := (percpu s c)\<lparr>cpu_pages := cpu_pages (percpu s c) @ [p]\<rparr>)\<rparr>"
  have step: "cache_loop c (p # ps) s = cache_loop c ps u"
    using \<open>p < num_phys_pages s\<close> by (simp add: upd_pframe_def u_def)
  have ff: "free_frame (PF_MARK_FREE (frames s p))" using p(3) by (simp add: free_frame_def)
  have "cached u = insert p (cached s)"
    by (auto simp: cached_def u_def split: if_splits)
  then have f: "frames_ok u B (cached u)"
    using frames_ok_flags [OF Cons.prems(1) _ p(1) np, of "PF_MARK_FREE (frames s p)"] ff
    by (simp add: same_marks_def u_def)
  have ix: "index_ok u B" using Cons.prems(2) by (simp add: u_def)
  have d: "distinct ps" "p \<notin> set ps" using Cons.prems(3) by auto
  have q: "in_pool u q \<and> PF_IS_BUSY (frames u q) \<and> \<not> pf_reserved (frames u q)" if "q \<in> set ps" for q
    using Cons.prems(4) [of q] that d(2) by (auto simp: u_def in_pool_def)
  have "\<exists>t. cache_loop c ps u = Some t \<and> frames_ok t B (cached t) \<and> index_ok t B \<and> same_pool u t \<and>
    percpu t = (percpu u)(c := (percpu u c)\<lparr>cpu_pages := cpu_pages (percpu u c) @ ps\<rparr>) \<and> free_set t = free_set u \<union> set ps \<and> outside u t"
    by (rule Cons.IH [OF f ix d(1)]) (rule q)
  then obtain t where t: "cache_loop c ps u = Some t" "frames_ok t B (cached t)" "index_ok t B" "same_pool u t"
    "percpu t = (percpu u)(c := (percpu u c)\<lparr>cpu_pages := cpu_pages (percpu u c) @ ps\<rparr>)" "free_set t = free_set u \<union> set ps" "outside u t"
    by (elim exE conjE)
  have "free_set u = insert p (free_set s)" using p(1) ff by (auto simp: free_set_def u_def in_pool_def)
  then have "free_set t = free_set s \<union> set (p # ps)" using t(6) by simp
  moreover have "percpu t = (percpu s)(c := (percpu s c)\<lparr>cpu_pages := cpu_pages (percpu s c) @ p # ps\<rparr>)"
    using t(5) by (simp add: u_def)
  moreover have "same_pool s t" using t(4) by (simp add: same_pool_def u_def)
  moreover have "outside s t"
    by (rule outside_trans [OF _ t(7)]) (use p(1) in \<open>auto simp: outside_def u_def same_pool_def\<close>)
  ultimately show ?case using step t(1,2,3) by (intro exI [of _ t]) simp
qed

lemma initialize_percpu_cache_ok:
  assumes inv: "tlsf_inv s" and e: "cpu_pages (percpu s c) = []"
  shows "\<exists>t. initialize_percpu_cache boot c s = Some t \<and> tlsf_inv t \<and> same_pool s t \<and> free_set t = free_set s \<and>
    (\<forall>d. d \<noteq> c \<longrightarrow> percpu t d = percpu s d) \<and> outside s t"
proof -
  define u where "u = s\<lparr>percpu := (percpu s)(c := empty_cache)\<rparr>"
  have "cached u = cached s" using e by (auto simp: u_def cached_def empty_cache_def split: if_splits) force
  moreover have "cache_ok u"
    unfolding u_def by (rule cache_ok_upd) (use inv in \<open>auto simp: tlsf_inv_def empty_cache_def\<close>)
  ultimately have iu: "tlsf_inv u" using inv by (auto simp: tlsf_inv_def u_def)
  obtain r t where t: "tlsf_alloc_pages boot TLSF_CPUCACHE_PAGES u = Some (r, t)" "tlsf_inv t" "same_pool u t"
    "tlsf_alloc_result u TLSF_CPUCACHE_PAGES r t" "percpu t = percpu u" "outside u t"
    using tlsf_alloc_pages_ok [OF iu, of TLSF_CPUCACHE_PAGES boot] by (auto simp: TLSF_CPUCACHE_PAGES_def)
  have su: "same_pool s u" "free_set u = free_set s" by (simp_all add: u_def free_set_def in_pool_def)
  show ?thesis
  proof (cases r)
    case None
    then have "t = u" using t(4) by (simp add: tlsf_alloc_result_def)
    then show ?thesis using t(1,2) None su
      by (intro exI [of _ u]) (simp add: initialize_percpu_cache_def u_def [symmetric], simp add: u_def)
  next
    case (Some ps)
    then have ps: "distinct ps" "length ps = TLSF_CPUCACHE_PAGES" "set ps \<subseteq> free_set u" "free_set t = free_set u - set ps"
      "\<And>i. i \<in> set ps \<Longrightarrow> pf_flags (frames t i) = pf_flags (PF_MARK_BUSY (frames u i))"
      using t(4) by (auto simp: tlsf_alloc_result_def)
    have busy: "in_pool t i \<and> PF_IS_BUSY (frames t i) \<and> \<not> pf_reserved (frames t i)" if "i \<in> set ps" for i
      using pf_flags_preds [OF ps(5) [OF that]] ps(3) that same_pool_in_pool [OF t(3)]
      by (auto simp: free_set_def free_frame_def)
    obtain B where ok: "frames_ok t B (cached t)" "index_ok t B" "cache_ok t" using t(2) by (auto simp: tlsf_inv_def)
    have "\<exists>v. cache_loop c ps t = Some v \<and> frames_ok v B (cached v) \<and> index_ok v B \<and> same_pool t v \<and>
      percpu v = (percpu t)(c := (percpu t c)\<lparr>cpu_pages := cpu_pages (percpu t c) @ ps\<rparr>) \<and> free_set v = free_set t \<union> set ps \<and> outside t v"
      by (rule cache_loop_ok [OF ok(1,2) ps(1)]) (rule busy)
    then obtain v where v: "cache_loop c ps t = Some v" "frames_ok v B (cached v)" "index_ok v B" "same_pool t v"
      "percpu v = (percpu t)(c := (percpu t c)\<lparr>cpu_pages := cpu_pages (percpu t c) @ ps\<rparr>)" "free_set v = free_set t \<union> set ps" "outside t v"
      by (elim exE conjE)
    define q where "q = (percpu v c)\<lparr>noc_pages := int TLSF_CPUCACHE_PAGES, cpu_ready := True\<rparr>"
    define w where "w = v\<lparr>percpu := (percpu v)(c := q)\<rparr>"
    have qp: "cpu_pages q = ps" "cpu_pages (percpu v c) = ps"
      using v(5) t(5) by (simp_all add: q_def u_def empty_cache_def)
    have pw: "percpu w = (percpu t)(c := q)" using v(5) by (simp add: w_def)
    have "ps \<noteq> []" using ps(2) by (auto simp: TLSF_CPUCACHE_PAGES_def)
    have dis: "set ps \<inter> set (cpu_pages (percpu t d)) = {}" for d
    proof -
      have "set (cpu_pages (percpu t d)) \<subseteq> free_set t" using frames_okD(4) [OF ok(1)] by (auto simp: cached_def)
      then show ?thesis using ps(4) by auto
    qed
    have "cache_ok w"
    proof -
      have "cache_ok (t\<lparr>percpu := (percpu t)(c := q)\<rparr>)"
        by (rule cache_ok_upd [OF ok(3)]) (use qp ps(1,2) dis in \<open>auto simp: q_def\<close>)
      then show ?thesis using pw by (simp add: cache_ok_def)
    qed
    moreover have "cached w = cached v" using qp by (auto simp: w_def cached_def split: if_splits) force
    ultimately have "tlsf_inv w" using v(2,3) by (auto simp: tlsf_inv_def w_def)
    moreover have "initialize_percpu_cache boot c s = Some w"
      using t(1) Some v(1) by (simp add: initialize_percpu_cache_def u_def w_def q_def)
    moreover have "same_pool s w" using su(1) t(3) v(4) by (simp add: same_pool_def w_def)
    moreover have "free_set w = free_set s"
    proof -
      have "free_set w = free_set v" by (simp add: w_def free_set_def in_pool_def)
      then show ?thesis using v(6) ps(3,4) su(2) by auto
    qed
    moreover have "percpu w d = percpu s d" if "d \<noteq> c" for d using pw t(5) that by (simp add: u_def)
    moreover have "outside s w"
      using t(6) v(7) t(3) su(1) by (simp add: outside_def in_pool_def same_pool_def w_def u_def)
    ultimately show ?thesis by blast
  qed
qed

lemma init_caches_ok:
  assumes "tlsf_inv s" "distinct cs" "\<And>c. c \<in> set cs \<Longrightarrow> cpu_pages (percpu s c) = []"
  shows "\<exists>t. init_caches boot cs s = Some t \<and> tlsf_inv t \<and> same_pool s t \<and> free_set t = free_set s \<and>
    (\<forall>d. d \<notin> set cs \<longrightarrow> percpu t d = percpu s d) \<and> outside s t"
  using assms
proof (induction cs arbitrary: s)
  case Nil
  then show ?case by (intro exI [of _ s]) simp
next
  case (Cons c cs)
  obtain t where t: "initialize_percpu_cache boot c s = Some t" "tlsf_inv t" "same_pool s t" "free_set t = free_set s"
    "\<forall>d. d \<noteq> c \<longrightarrow> percpu t d = percpu s d" "outside s t"
    using initialize_percpu_cache_ok [OF Cons.prems(1), of c boot] Cons.prems(3) by auto
  have e: "cpu_pages (percpu t d) = []" if "d \<in> set cs" for d
  proof -
    have "d \<noteq> c" using that Cons.prems(2) by auto
    then show ?thesis using t(5) Cons.prems(3) [of d] that by simp
  qed
  have "\<exists>u. init_caches boot cs t = Some u \<and> tlsf_inv u \<and> same_pool t u \<and> free_set u = free_set t \<and>
      (\<forall>d. d \<notin> set cs \<longrightarrow> percpu u d = percpu t d) \<and> outside t u"
    by (rule Cons.IH [OF t(2)]) (use Cons.prems(2) e in auto)
  then obtain u where u: "init_caches boot cs t = Some u" "tlsf_inv u" "same_pool t u" "free_set u = free_set t"
    "\<forall>d. d \<notin> set cs \<longrightarrow> percpu u d = percpu t d" "outside t u"
    by (elim exE conjE)
  show ?case using t u same_pool_trans [OF t(3) u(3)] outside_trans [OF t(6) u(6) t(3)] by (intro exI [of _ u]) simp
qed

lemma tlsf_initialize_ok:
  assumes "tlsf_boot s" "distinct cpus"
  shows "\<exists>t. tlsf_initialize boot cpus s = Some t \<and> tlsf_inv t \<and> same_pool s t \<and> free_set t = free_set s \<and>
    (\<forall>d. d \<notin> set cpus \<longrightarrow> percpu t d = empty_cache) \<and> outside s t"
proof -
  let ?s = "s\<lparr>percpu := (\<lambda>_. empty_cache)\<rparr>"
  have "tlsf_boot ?s" using assms(1) by (simp add: tlsf_boot_def pool_ok_def in_pool_def)
  then obtain t where t: "build_tlsf_map boot ?s = Some t" "tlsf_inv t" "same_pool ?s t" "percpu t = percpu ?s"
    "free_set t = free_set ?s" "outside ?s t"
    using build_tlsf_map_ok [of ?s boot] by auto
  obtain u where u: "init_caches boot cpus t = Some u" "tlsf_inv u" "same_pool t u" "free_set u = free_set t"
    "\<forall>d. d \<notin> set cpus \<longrightarrow> percpu u d = percpu t d" "outside t u"
    using init_caches_ok [OF t(2) assms(2), of boot] t(4) by (auto simp: empty_cache_def)
  have "free_set ?s = free_set s" by (simp add: free_set_def in_pool_def)
  then show ?thesis using t u by (intro exI [of _ u]) (simp add: tlsf_initialize_def same_pool_def outside_def in_pool_def)
qed

section \<open>The debugging check\<close>

lemma dom_finite:
  assumes "blocks_ok s B"
  shows "finite (dom B)"
proof (rule finite_subset)
  show "dom B \<subseteq> {first_pidx s..<first_pidx s + num_pages s}"
    using blocks_okD(1,3,4) [OF assms] by (fastforce simp: dom_def)
qed simp

lemma card_pages_of:
  assumes "blocks_ok s B"
  shows "card (pages_of B) = (\<Sum>h \<in> dom B. the (B h))"
proof -
  have "pages_of B = (\<Union>h \<in> dom B. {h..<h + the (B h)})" by (force simp: pages_of_def)
  moreover have "card (\<Union>h \<in> dom B. {h..<h + the (B h)}) = (\<Sum>h \<in> dom B. card {h..<h + the (B h)})"
  proof (rule card_UN_disjoint [OF dom_finite [OF assms]])
    show "\<forall>i \<in> dom B. \<forall>j \<in> dom B. i \<noteq> j \<longrightarrow> {i..<i + the (B i)} \<inter> {j..<j + the (B j)} = {}"
      using blocks_disjoint [OF assms] by fastforce
  qed simp
  ultimately show ?thesis by simp
qed

lemma validate_sldi_ok:
  assumes ok: "frames_ok s B C" "index_ok s B" and f: "f < TLSF_FLD_SIZE" "sl < TLSF_SLD_SIZE"
  shows "validate_sldi_dbg s f sl = Some (\<Sum>h \<in> class_of B (f, sl). the (B h))"
proof -
  let ?n = "node_map s (f, sl)"
  have n: "set (blocks ?n) = class_of B (f, sl)" "distinct (blocks ?n)" "num_blocks ?n = int (length (blocks ?n))"
    "max_avail_size ?n = (if blocks ?n = [] then 0 else the (B (last (blocks ?n))))"
    using index_okD(1) [OF ok(2) f] by (simp_all add: node_ok_def)
  have av: "sld_is_avail s f sl \<longleftrightarrow> blocks ?n \<noteq> []"
    using index_okD(2) [OF ok(2) f(1), of sl] f(2) by (simp add: sld_is_avail_def used_slds_def)
  have sz: "h < num_phys_pages s" "priv_size (frames s h) = the (B h)" if "h \<in> set (blocks ?n)" for h
    using that n(1) block_marks(4) [OF ok(1)] blocks_okD(5) [OF frames_okD(2) [OF ok(1)]] by (auto simp: class_of_def)
  show ?thesis
  proof (cases "blocks ?n = []")
    case True
    then have "class_of B (f, sl) = {}" using n(1) by simp
    then show ?thesis using av True n(3,4)
      by (simp add: validate_sldi_dbg_def validate_empty_sldi_dbg_def)
  next
    case False
    have "map (\<lambda>b. priv_size (frames s b)) (blocks ?n) = map (\<lambda>h. the (B h)) (blocks ?n)" using sz(2) by simp
    then have "sum_list (map (\<lambda>b. priv_size (frames s b)) (blocks ?n)) = (\<Sum>h \<in> class_of B (f, sl). the (B h))"
      using n(1,2) by (simp add: sum_list_distinct_conv_sum_set)
    then show ?thesis
      using av False n(3,4) sz [OF last_in_set [OF False]]
      by (simp add: validate_sldi_dbg_def list_node_last_def pframe_def Let_def)
  qed
qed

lemma validate_slds_ok:
  assumes "frames_ok s B C" "index_ok s B" "distinct ids" "\<forall>(f, sl) \<in> set ids. f < TLSF_FLD_SIZE \<and> sl < TLSF_SLD_SIZE"
  shows "validate_slds s ids = Some (\<Sum>ix \<in> set ids. \<Sum>h \<in> class_of B ix. the (B h))"
  using assms(3,4)
proof (induction ids)
  case (Cons ix ids)
  obtain f sl where ix: "ix = (f, sl)" by (cases ix)
  then have "validate_sldi_dbg s f sl = Some (\<Sum>h \<in> class_of B ix. the (B h))"
    using validate_sldi_ok [OF assms(1,2)] Cons.prems by auto
  then show ?case using Cons ix by simp
qed simp

lemma sum_classes:
  assumes "blocks_ok s B"
  shows "(\<Sum>ix \<in> set tlsf_ids. \<Sum>h \<in> class_of B ix. the (B h)) = (\<Sum>h \<in> dom B. the (B h))"
proof -
  have u: "dom B = (\<Union>ix \<in> set tlsf_ids. class_of B ix)"
  proof
    show "dom B \<subseteq> (\<Union>ix \<in> set tlsf_ids. class_of B ix)"
    proof
      fix h assume "h \<in> dom B"
      then obtain z where z: "B h = Some z" by auto
      obtain f sl where "get_tlsf_ids z = Some (f, sl)" "f < TLSF_FLD_SIZE" "sl < TLSF_SLD_SIZE"
        using ids_range [OF blocks_okD(1,2) [OF assms z]] .
      then show "h \<in> (\<Union>ix \<in> set tlsf_ids. class_of B ix)"
        using z by (auto simp: tlsf_ids_def class_of_def)
    qed
  qed (auto simp: class_of_def)
  have fin: "finite (class_of B ix)" for ix
    by (rule finite_subset [OF _ dom_finite [OF assms]]) (auto simp: class_of_def)
  have "class_of B i \<inter> class_of B j = {}" if "i \<noteq> j" for i j
    using that by (auto simp: class_of_def)
  then show ?thesis unfolding u by (intro sum.UNION_disjoint [symmetric]) (auto simp: fin)
qed

text \<open>The accounting of the pool: its counter is the number of its free pages.\<close>

definition counted :: "tlsf \<Rightarrow> bool" where
  "counted s \<longleftrightarrow> num_free_pages s = int (card (free_set s))"

lemma tlsf_validate_ok:
  assumes inv: "tlsf_inv s" and cnt: "counted s" and cpus: "distinct cpus" "\<And>d. d \<notin> set cpus \<Longrightarrow> cpu_pages (percpu s d) = []"
  shows "tlsf_validate_dbg cpus s"
proof -
  obtain B where ok: "frames_ok s B (cached s)" "index_ok s B" "cache_ok s" using inv by (auto simp: tlsf_inv_def)
  note o = frames_okD [OF ok(1)]
  have c: "noc_pages (percpu s c) = int (length (cpu_pages (percpu s c)))" "distinct (cpu_pages (percpu s c))" for c
    using ok(3) by (simp_all add: cache_ok_def)
  have u: "cached s = (\<Union>c \<in> set cpus. set (cpu_pages (percpu s c)))" using cpus(2) by (force simp: cached_def)
  have "card (cached s) = (\<Sum>c \<in> set cpus. card (set (cpu_pages (percpu s c))))"
    unfolding u using ok(3) by (intro card_UN_disjoint) (auto simp: cache_ok_def)
  also have "\<dots> = (\<Sum>c \<in> set cpus. length (cpu_pages (percpu s c)))" using c(2) by (simp add: distinct_card)
  finally have cc: "int (card (cached s)) = sum_list (map (\<lambda>c. noc_pages (percpu s c)) cpus)"
    using cpus(1) c(1) by (simp add: sum_list_distinct_conv_sum_set)
  have "finite (free_set s)"
    by (rule finite_subset [of _ "{first_pidx s..<first_pidx s + num_pages s}"]) (auto simp: free_set_def in_pool_def)
  then have "card (free_set s) = card (pages_of B) + card (cached s)"
    using o(4,5) by (simp add: card_Un_disjoint)
  then have tot: "num_free_pages s = int (\<Sum>h \<in> dom B. the (B h)) + sum_list (map (\<lambda>c. noc_pages (percpu s c)) cpus)"
    using cnt card_pages_of [OF o(2)] cc by (simp add: counted_def)
  have slds: "validate_slds s tlsf_ids = Some (\<Sum>h \<in> dom B. the (B h))"
    using validate_slds_ok [OF ok(1,2), of tlsf_ids] sum_classes [OF o(2)]
    by (simp add: tlsf_ids_def distinct_product split: prod.splits)
  have "validate_fldi_dbg s f" if "f < TLSF_FLD_SIZE" for f
  proof (cases "fld_is_avail s f")
    case False
    then have us: "used_slds s f = {}" using index_okD(4) [OF ok(2) that] by (simp add: fld_is_avail_def)
    have "validate_empty_sldi_dbg s f sl" if "sl < TLSF_SLD_SIZE" for sl
      using us index_okD(1) [OF ok(2) \<open>f < TLSF_FLD_SIZE\<close> that] that
      by (auto simp: used_slds_def validate_empty_sldi_dbg_def node_ok_def Let_def)
    then show ?thesis by (simp add: validate_fldi_dbg_def)
  qed (simp add: validate_fldi_dbg_def)
  then show ?thesis using slds tot c(1) by (simp add: tlsf_validate_dbg_def list_all_iff)
qed

section \<open>Runs of the allocator\<close>

text \<open>
  The calls \<^verbatim>\<open>alloc_pages\<close> and \<^verbatim>\<open>free_pages\<close> make, each with the update of the counter that follows it.
  The pages given back are allocated ones.
\<close>

inductive tlsf_reach :: "nat list \<Rightarrow> tlsf \<Rightarrow> bool" for cpus where
  start: "tlsf_boot s \<Longrightarrow> counted s \<Longrightarrow> tlsf_initialize boot cpus s = Some t \<Longrightarrow> tlsf_reach cpus t"
| alloc: "tlsf_reach cpus s \<Longrightarrow> cpu \<in> set cpus \<Longrightarrow> 0 < n \<Longrightarrow> tlsf_alloc_pages cpu n s = Some (Some ps, t) \<Longrightarrow>
    tlsf_reach cpus (t\<lparr>num_free_pages := num_free_pages t - int n\<rparr>)"
| alloc_none: "tlsf_reach cpus s \<Longrightarrow> cpu \<in> set cpus \<Longrightarrow> 0 < n \<Longrightarrow> tlsf_alloc_pages cpu n s = Some (None, t) \<Longrightarrow>
    tlsf_reach cpus t"
| free: "tlsf_reach cpus s \<Longrightarrow> cpu \<in> set cpus \<Longrightarrow> 0 < n \<Longrightarrow> n < MAX_BLOCK_SIZE \<Longrightarrow> may_free s p n \<Longrightarrow>
    tlsf_free_pages cpu p n s = Some t \<Longrightarrow> tlsf_reach cpus (t\<lparr>num_free_pages := num_free_pages t + int n\<rparr>)"

lemma num_free_upd [simp]:
  "free_set (s\<lparr>num_free_pages := k\<rparr>) = free_set s" "tlsf_inv (s\<lparr>num_free_pages := k\<rparr>) = tlsf_inv s"
  by (simp_all add: free_set_def in_pool_def tlsf_inv_def cached_def cache_ok_def frames_ok_def pool_ok_def blocks_ok_def
      marks_ok_def index_ok_def used_slds_def sld_bitmap_def)

lemma free_set_finite: "finite (free_set s)"
  by (rule finite_subset [of _ "{first_pidx s..<first_pidx s + num_pages s}"]) (auto simp: free_set_def in_pool_def)

lemma counted_alloc:
  assumes "counted s" "same_pool s t" "tlsf_alloc_result s n (Some ps) t"
  shows "counted (t\<lparr>num_free_pages := num_free_pages t - int n\<rparr>)"
proof -
  have ps: "length ps = n" "distinct ps" "set ps \<subseteq> free_set s" "free_set t = free_set s - set ps"
    using assms(3) by (auto simp: tlsf_alloc_result_def)
  have "card (set ps) \<le> card (free_set s)" by (rule card_mono [OF free_set_finite ps(3)])
  then show ?thesis
    using assms(1,2) ps by (simp add: counted_def same_pool_def card_Diff_subset distinct_card of_nat_diff)
qed

lemma counted_free:
  assumes "counted s" "same_pool s t" "may_free s p n" "free_set t = free_set s \<union> {p..<p + n}"
  shows "counted (t\<lparr>num_free_pages := num_free_pages t + int n\<rparr>)"
proof -
  have "free_set s \<inter> {p..<p + n} = {}" using assms(3) by (auto simp: may_free_def free_set_def free_frame_def)
  then show ?thesis
    using assms(1,2,4) free_set_finite [of s] by (simp add: counted_def same_pool_def card_Un_disjoint)
qed

lemma tlsf_reach_inv:
  assumes "tlsf_reach cpus s" "distinct cpus"
  shows "tlsf_inv s \<and> counted s \<and> (\<forall>d. d \<notin> set cpus \<longrightarrow> cpu_pages (percpu s d) = [])"
  using assms(1)
proof induction
  case (start s boot t)
  obtain t' where t': "tlsf_initialize boot cpus s = Some t'" "tlsf_inv t'" "same_pool s t'" "free_set t' = free_set s"
    "\<forall>d. d \<notin> set cpus \<longrightarrow> percpu t' d = empty_cache"
    using tlsf_initialize_ok [OF start(1) assms(2), of boot] by auto
  then show ?case using start(2,3) by (simp add: counted_def same_pool_def empty_cache_def)
next
  case (alloc s cpu n ps t)
  obtain r t' where t': "tlsf_alloc_pages cpu n s = Some (r, t')" "tlsf_inv t'" "same_pool s t'" "tlsf_alloc_result s n r t'"
    "\<forall>d. d \<noteq> cpu \<longrightarrow> percpu t' d = percpu s d"
    using tlsf_alloc_pages_ok [of s n cpu] alloc by auto
  then have "counted (t\<lparr>num_free_pages := num_free_pages t - int n\<rparr>)" "t' = t"
    using counted_alloc [of s t n ps] alloc by auto
  then show ?case using t'(2,5) alloc(2,5) by auto
next
  case (alloc_none s cpu n t)
  obtain r t' where t': "tlsf_alloc_pages cpu n s = Some (r, t')" "tlsf_alloc_result s n r t'"
    using tlsf_alloc_pages_ok [of s n cpu] alloc_none by auto
  then have "t = s" using alloc_none(4) by (simp add: tlsf_alloc_result_def)
  then show ?case using alloc_none(5) by simp
next
  case (free s cpu n p t)
  obtain t' where t': "tlsf_free_pages cpu p n s = Some t'" "tlsf_inv t'" "same_pool s t'"
    "free_set t' = free_set s \<union> {p..<p + n}" "\<forall>d. d \<noteq> cpu \<longrightarrow> percpu t' d = percpu s d"
    using tlsf_free_pages_ok [of s n p cpu] free by auto
  then have e: "t' = t" using free(6) by simp
  have "counted (t\<lparr>num_free_pages := num_free_pages t + int n\<rparr>)"
    using counted_free [OF _ t'(3) free(5) t'(4)] free(7) e by simp
  then show ?case using t'(2,5) free(2,7) e by auto
qed

section \<open>Properties\<close>

text \<open>A pool of eight pages, the pages 1 and 5 of which are reserved, as it is before its activation.\<close>

definition frame0 :: page_frame where
  "frame0 = \<lparr>pf_flags = 1, refcount = 0, slab_lazy_freelist = None, pf_offset = 0,
     priv_head = False, priv_tail = False, priv_size = 0\<rparr>"

definition pool8 :: tlsf where
  "pool8 = \<lparr>num_phys_pages = 8, frames = (\<lambda>i. if i = 1 \<or> i = 5 then frame0\<lparr>pf_flags := 0x811\<rparr> else frame0),
     pool_type = 1, first_pidx = 0, num_pages = 8, num_free_pages = 6, node_map = (\<lambda>_. empty_node),
     total_blocks = (\<lambda>_. 0), percpu = (\<lambda>_. empty_cache), slds_bitmap = (\<lambda>_. 0), fld_bitmap = 0\<rparr>"

definition started8 :: tlsf where
  "started8 = the (tlsf_initialize 0 [0] pool8)"

text \<open>The same pool after the allocation of three pages.\<close>

definition taken8 :: tlsf where
  "taken8 = (let t = snd (the (tlsf_alloc_pages 0 3 started8)) in t\<lparr>num_free_pages := num_free_pages t - 3\<rparr>)"

lemma pool8_boot: "tlsf_boot pool8" "counted pool8"
proof -
  have fr: "free_frame (frames pool8 i) = (i \<noteq> 1 \<and> i \<noteq> 5)"
    "PF_MMPOOL_TYPE (pf_flags (frames pool8 i)) = 1" "\<not> priv_head (frames pool8 i)" "\<not> priv_tail (frames pool8 i)"
    "\<not> pf_locked (frames pool8 i)" "pf_reserved (frames pool8 i) = (i = 1 \<or> i = 5)" "PF_IS_BUSY (frames pool8 i) = (i = 1 \<or> i = 5)" for i
    by (simp_all add: pool8_def frame0_def free_frame_def PF_IS_BUSY_def pf_reserved_def pf_locked_def PF_MMPOOL_TYPE_def
        PF_BUSY_def PF_RESERVED_def PF_LOCK_def)
  then show "tlsf_boot pool8" by (simp add: tlsf_boot_def pool_ok_def) (simp add: pool8_def)
  have "free_set pool8 = {0, 2, 3, 4, 6, 7}"
    unfolding free_set_def fr in_pool_def by (auto simp: pool8_def)
  then show "counted pool8" by (simp add: counted_def pool8_def)
qed

lemma started8_reach: "tlsf_reach [0] started8"
proof -
  obtain t where "tlsf_initialize 0 [0] pool8 = Some t"
    using tlsf_initialize_ok [OF pool8_boot(1), of "[0]" 0] by auto
  then show ?thesis using tlsf_reach.start [OF pool8_boot] by (simp add: started8_def)
qed

lemma taken8_reach: "tlsf_reach [0] taken8"
proof -
  have "map_option fst (tlsf_alloc_pages 0 3 started8) = Some (Some [2, 3, 4])" by code_simp
  then obtain t where t: "tlsf_alloc_pages 0 3 started8 = Some (Some [2, 3, 4], t)" by auto
  have "tlsf_reach [0] (t\<lparr>num_free_pages := num_free_pages t - int 3\<rparr>)"
    by (rule tlsf_reach.alloc [OF started8_reach _ _ t]) auto
  then show ?thesis using t by (simp add: taken8_def Let_def)
qed

text \<open>
  C2. On every reachable state of the page allocator a request for \<open>n > 0\<close> pages returns without
  a fault. Either it yields the pages \<open>h, ..., h + n - 1\<close>, all of them free pages of the pool, marks
  exactly these busy and takes exactly these out of the free pages, or it yields the null pointer,
  leaves the allocator as it was, and then the request was too large or there was no free block of a
  higher size class.
\<close>

theorem tlsf_alloc_takes_free_pages:
  assumes "tlsf_reach cpus s" "distinct cpus" "0 < n"
  shows "\<exists>r t. tlsf_alloc_pages cpu n s = Some (r, t) \<and>
    (case r of
       None \<Rightarrow> t = s \<and> (n < MAX_BLOCK_SIZE \<and> int n \<le> num_free_pages s \<longrightarrow> \<not> has_higher s n)
     | Some ps \<Rightarrow> (\<exists>h. ps = [h..<h + n]) \<and> set ps \<subseteq> free_set s \<and> free_set t = free_set s - set ps \<and>
         (\<forall>i. pf_flags (frames t i) = (if i \<in> set ps then pf_flags (PF_MARK_BUSY (frames s i)) else pf_flags (frames s i))))"
proof -
  have "tlsf_inv s" using tlsf_reach_inv [OF assms(1,2)] by simp
  then show ?thesis using tlsf_alloc_pages_ok [OF _ assms(3), of s cpu] by (simp only: tlsf_alloc_result_def) blast
qed

theorem tlsf_alloc_takes_free_pages_witness:
  "\<exists>t. tlsf_alloc_pages 0 3 started8 = Some (Some [2, 3, 4], t) \<and> free_set t = free_set started8 - {2, 3, 4}"
proof -
  have r: "map_option fst (tlsf_alloc_pages 0 3 started8) = Some (Some [2, 3, 4])" by code_simp
  show ?thesis
    using tlsf_alloc_takes_free_pages [OF started8_reach, of 3 0] r by (auto split: option.splits)
qed

text \<open>
  C5. Giving back allocated pages of the pool never faults on a reachable state: the free pages
  become the old ones and the returned ones, no flag of another page changes, and the pages can be
  handed out again because the state stays reachable.
\<close>

theorem tlsf_free_gives_back:
  assumes "tlsf_reach cpus s" "distinct cpus" "cpu \<in> set cpus" "0 < n" "n < MAX_BLOCK_SIZE" "may_free s p n"
  shows "\<exists>t. tlsf_free_pages cpu p n s = Some t \<and> free_set t = free_set s \<union> {p..<p + n} \<and>
    (\<forall>i. i \<notin> {p..<p + n} \<longrightarrow> pf_flags (frames t i) = pf_flags (frames s i)) \<and>
    tlsf_reach cpus (t\<lparr>num_free_pages := num_free_pages t + int n\<rparr>)"
proof -
  have "tlsf_inv s" using tlsf_reach_inv [OF assms(1,2)] by simp
  then obtain t where "tlsf_free_pages cpu p n s = Some t" "free_set t = free_set s \<union> {p..<p + n}"
    "\<forall>i. i \<notin> {p..<p + n} \<longrightarrow> pf_flags (frames t i) = pf_flags (frames s i)"
    using tlsf_free_pages_ok [OF _ assms(4,5,6), of cpu] by blast
  then show ?thesis using tlsf_reach.free [OF assms(1,3,4,5,6)] by blast
qed

theorem tlsf_free_gives_back_witness:
  "\<exists>t. tlsf_free_pages 0 2 3 taken8 = Some t \<and> free_set t = free_set taken8 \<union> {2..<5}"
proof -
  have "may_free taken8 2 3 \<and> (3::nat) < MAX_BLOCK_SIZE" by code_simp
  then show ?thesis using tlsf_free_gives_back [OF taken8_reach, of 0 3 2] by auto
qed

text \<open>
  C6. The consistency check \<^verbatim>\<open>tlsf_validate_dbg\<close> of the debugging configuration passes on every
  reachable state: the bitmaps, the counters and the greatest sizes agree with the lists of blocks,
  and the pages in the blocks and in the CPU caches are as many as the pool counts as free.
\<close>

theorem tlsf_validate_never_panics:
  assumes "tlsf_reach cpus s" "distinct cpus"
  shows "tlsf_validate_dbg cpus s"
  using tlsf_validate_ok [of s cpus] tlsf_reach_inv [OF assms] assms(2) by simp

theorem tlsf_validate_never_panics_witness: "tlsf_validate_dbg [0] started8"
  using tlsf_validate_never_panics [OF started8_reach] by simp

text \<open>
  C35. Blocks are never merged with the block on their right: the pool type of the right neighbour
  is compared with \<^verbatim>\<open>==\<close> where the left one has \<^verbatim>\<open>!=\<close>, so inside of a pool \<^verbatim>\<open>try_merge_right\<close>
  changes nothing, whatever free block follows.
\<close>

theorem tlsf_never_merges_right:
  assumes "tlsf_reach cpus s" "distinct cpus" "in_pool s h" "priv_head (frames s h)"
  shows "try_merge_right h s = Some (h, s)"
proof -
  obtain B where ok: "frames_ok s B (cached s)" using tlsf_reach_inv [OF assms(1,2)] by (auto simp: tlsf_inv_def)
  then obtain z where z: "B h = Some z" using frames_okD(3) [OF ok] assms(3,4) by (auto simp: marks_ok_def)
  obtain r where "find_neighbour s h 1 = Some r" "\<forall>l. r = Some l \<longrightarrow> (1::int) < 0 \<and> (\<exists>y. B l = Some y \<and> l + y = h)"
    using find_neighbour_ok [OF ok z, of 1] by (elim exE conjE)
  then have "find_neighbour s h 1 = Some None" by (cases r) auto
  then show ?thesis
    using block_marks(4) [OF ok z] by (simp add: try_merge_right_def try_merge_blocks_def pframe_def)
qed

theorem tlsf_never_merges_right_witness: "try_merge_right 2 started8 = Some (2, started8)"
proof -
  have "in_pool started8 2 \<and> priv_head (frames started8 2)" by code_simp
  then show ?thesis using tlsf_never_merges_right [OF started8_reach, of 2] by simp
qed


end
