(* ===== verification/Spec2Isabelle.thy ===== *)
theory Spec2Isabelle
  imports Prelude DList Pqueue Bitwise Idx_Allocator Scheduler Waitqueue Mutex Rwsem Security Ioports Def_Actions
    Timers Timer_Runs Strings Kprintf Tlsf Tlsf_Inv Tlsf_Runs
begin

text \<open>
  A verification of parts of the MString microkernel. The kernel is C code for amd64; every part
  below is modelled by a theory of this directory in which a C function is an Isabelle function with
  the same name on an explicit state, and the theorems are about these functions.

  \<^bold>\<open>Conventions.\<close> A failed \<^verbatim>\<open>ASSERT\<close>, a \<^verbatim>\<open>panic\<close>, a null or wild pointer, an access outside of an
  array and an undefined shift are the value \<open>None\<close> of the option monad, so a theorem that an
  operation yields \<open>Some\<close> says that it returns and does not fault. Error returns are the negated numbers
  of \<^verbatim>\<open>include/mstring/errno.h\<close> (\<open>ERR e\<close>, in \<open>Prelude\<close>). A function that holds a spin lock is one
  atomic step; what other CPUs do before or between such sections, what a user copy returns and
  whether memory can be allocated are arguments of the definitions. Machine words are words where
  the code depends on their width. Sequences of operations are inductive reachability predicates.

  \<^bold>\<open>The parts and how they interact.\<close>

  \<^item> \<open>DList\<close>: \<^verbatim>\<open>include/ds/list.h\<close>, cyclic lists as a heap of \<^verbatim>\<open>next\<close> and \<^verbatim>\<open>prev\<close> pointers, with the
    milestone values of deleted nodes. The operations refine insertion, removal, cutting and joining of
    sequences.
  \<^item> \<open>Pqueue\<close>: \<^verbatim>\<open>kernel/ds/pqueue.c\<close>, leaders and followers on that heap. Insertion and deletion refine
    a sequence ordered by priority and by arrival; the locale \<open>stable_pqueue\<close> is the interface of the
    wait queues, its interpretation \<open>kq\<close> discharges the laws for the pointer code.
  \<^item> \<open>Bitwise\<close>: the scans and bitmaps of \<^verbatim>\<open>bitwise.h\<close> and \<^verbatim>\<open>bits.h\<close>; the portable loops agree with the
    instructions; the locale \<open>bitmap\<close> (interpretation \<open>wbm\<close>) is what the scheduler relies on.
  \<^item> \<open>Idx_Allocator\<close>: \<^verbatim>\<open>kernel/ds/idx_allocator.c\<close>, a two level bitmap of identifiers. Allocation gives
    the least free one; locale \<open>id_source\<close>, interpretation \<open>idas\<close>.
  \<^item> \<open>Scheduler\<close>: \<^verbatim>\<open>kernel/generic/schedulers/sched_default.c\<close>, the arrays of run queues of every CPU.
    An invariant of all reachable states, the choice of the best task, totality of the entry points.
  \<^item> \<open>Waitqueue\<close>, \<open>Mutex\<close>, \<open>Rwsem\<close>: \<^verbatim>\<open>waitqueue.c\<close>, \<^verbatim>\<open>mutex.c\<close> and \<^verbatim>\<open>rwsem.c\<close> over the priority queue
    and the task states. Wake-ups by priority, mutual exclusion, hand-over; locale \<open>wait_list\<close>,
    interpretation \<open>wl\<close>.
  \<^item> \<open>Security\<close>: \<^verbatim>\<open>kernel/security\<close>, labels, capabilities and the lock order of two objects.
  \<^item> \<open>Ioports\<close>: \<^verbatim>\<open>ioports.c\<close> of the generic and the amd64 part, port ranges in a tree and the
    permission bitmap of a task.
  \<^item> \<open>Def_Actions\<close>, \<open>Timers\<close>, \<open>Timer_Runs\<close>: \<^verbatim>\<open>def_actions.c\<close> and \<^verbatim>\<open>timer.c\<close>. The timers hang in major
    and minor ticks and hand their deferred actions to the queue of a CPU when their tick comes; the
    reference counts of the major ticks and the firing on time are proved over runs of operations
    and timer interrupts.
  \<^item> \<open>Strings\<close>: \<^verbatim>\<open>string.c\<close> and \<^verbatim>\<open>string.h\<close> over a memory of bytes in which unmapped addresses fault.
  \<^item> \<open>Kprintf\<close>: \<^verbatim>\<open>kprintf.c\<close> and \<^verbatim>\<open>stdlib.c\<close> over that memory.
  \<^item> \<open>Tlsf\<close>, \<open>Tlsf_Inv\<close>, \<open>Tlsf_Runs\<close>: \<^verbatim>\<open>kernel/mm/page_allocators/tlsf.c\<close>, the page allocator of a memory
    pool. \<open>Tlsf\<close> has the definitions, in the order of the source; \<open>Tlsf_Inv\<close> the two layers of the
    invariant, the marks in the page frames and the directory of size classes, and that every
    operation on blocks keeps them; \<open>Tlsf_Runs\<close> the allocator as a whole, from its initialisation on.

  \<^bold>\<open>What the theorems show.\<close> For each part an invariant of its state that its operations keep, what
  every operation returns on every branch, and that operations which the code takes to be safe do not
  fault. Some theorems state where the code differs from its intention: an interrupted sleep that
  leaves its queue entry behind, a limit that is one too large for the bitmap behind it, blocks of
  pages that are never merged to the right, and others; each names the lines concerned.

  \<^bold>\<open>Loops and bounds.\<close> Loops over data are structural recursions. Scans over bitmaps and numbers are
  functions with a termination proof by a measure. Walks along pointers (\<open>insert_point\<close> of the priority
  queue) are partial functions in the option monad, and the refinement theorems show that they return.

  \<^bold>\<open>Not modelled.\<close> Virtual memory areas, the slab allocator, memory objects and reverse maps: they rest
  on the contents of pages, on page tables and on sleeping inside of operations. The T-tree, the
  red-black tree and the radix tree of the page cache. IPC beyond its queues, signals, creation and
  exit of processes, tracing, the system call layers over timers and synchronisation objects: they
  copy user memory and suspend the caller in the middle of an operation. Hardware: context switch,
  interrupt controllers, page tables, consoles, the boot sequence. \<^verbatim>\<open>kconfig\<close> is the Linux
  configuration program; \<^verbatim>\<open>tests\<close> and \<^verbatim>\<open>server\<close> are programs that run on the kernel.
\<close>

end
